(* ===== verification/Prelude.thy ===== *)
theory Prelude
  imports Main "HOL-Library.Word"
begin

text \<open>
  Shared vocabulary of the development: the machine integer types of
  \<^verbatim>\<open>kernel/types.h\<close>, the result type of kernel operations, the constants of
  \<^verbatim>\<open>kernel/param.h\<close>, \<^verbatim>\<open>kernel/riscv.h\<close>, \<^verbatim>\<open>kernel/memlayout.h\<close> and
  \<^verbatim>\<open>kernel/fs.h\<close>, the byte memory with its little-endian 64-bit accesses, and the
  generic lemmas on lists and words that the component theories use.

  Reading of the C types. \<^verbatim>\<open>uint8\<close>/\<^verbatim>\<open>uchar\<close>, \<^verbatim>\<open>ushort\<close>, \<^verbatim>\<open>uint\<close> and
  \<^verbatim>\<open>uint64\<close> are words, so their arithmetic wraps. A plain \<^verbatim>\<open>int\<close> is a
  mathematical integer where the code only counts or compares (signed overflow is
  undefined in C, so a defined execution computes the mathematical value); where the code
  converts between signed and unsigned the conversion is written out.
\<close>

unbundle bit_operations_syntax

section \<open>Collections of rewrite rules\<close>

named_theorems kconst \<open>constants of the kernel headers\<close>
named_theorems res_simps \<open>results of kernel operations\<close>

section \<open>Machine integers\<close>

type_synonym u8 = "8 word"
type_synonym u16 = "16 word"
type_synonym u32 = "32 word"
type_synonym u64 = "64 word"

section \<open>Results of kernel operations\<close>

text \<open>
  An operation returns a value and the new state, or panics with a message
  (\<^verbatim>\<open>panic()\<close> in \<^verbatim>\<open>kernel/printf.c\<close> never returns), or cannot go on in the present
  state because the lock it needs is held by somebody else (\<open>Blocked\<close>: the caller spins,
  or sleeps, until another process changes the state).
\<close>

datatype ('a, 's) res = Ok 'a 's | Panic string | Blocked

fun bnd :: "('a, 's) res \<Rightarrow> ('a \<Rightarrow> 's \<Rightarrow> ('b, 't) res) \<Rightarrow> ('b, 't) res" where
  "bnd (Ok a s) f = f a s"
| "bnd (Panic e) f = Panic e"
| "bnd Blocked f = Blocked"

lemma bnd_eq_Ok [res_simps]:
  "bnd m f = Ok b t \<longleftrightarrow> (\<exists>a s. m = Ok a s \<and> f a s = Ok b t)"
  by (cases m) auto

lemma bnd_eq_Panic [res_simps]:
  "bnd m f = Panic e \<longleftrightarrow> m = Panic e \<or> (\<exists>a s. m = Ok a s \<and> f a s = Panic e)"
  by (cases m) auto

lemma bnd_cong [fundef_cong]:
  "m = m' \<Longrightarrow> (\<And>a s. m' = Ok a s \<Longrightarrow> f a s = f' a s) \<Longrightarrow> bnd m f = bnd m' f'"
  by (cases m') auto

lemma bnd_assoc: "bnd (bnd m f) g = bnd m (\<lambda>a s. bnd (f a s) g)"
  by (cases m) auto

lemma bnd_Ok_right: "bnd m Ok = m"
  by (cases m) auto

section \<open>Arrays\<close>

text \<open>A loop over an array that rewrites each element from its index and old value.\<close>

definition mapi :: "(nat \<Rightarrow> 'a \<Rightarrow> 'b) \<Rightarrow> 'a list \<Rightarrow> 'b list" where
  "mapi f xs = map (\<lambda>i. f i (xs ! i)) [0..<length xs]"

lemma length_mapi [simp]: "length (mapi f xs) = length xs"
  by (simp add: mapi_def)

lemma nth_mapi [simp]: "i < length xs \<Longrightarrow> mapi f xs ! i = f i (xs ! i)"
  by (simp add: mapi_def)

text \<open>A loop over an array that stops at the first element with a property.\<close>

fun find_idx :: "('a \<Rightarrow> bool) \<Rightarrow> 'a list \<Rightarrow> nat option" where
  "find_idx P [] = None"
| "find_idx P (x # xs) = (if P x then Some 0 else map_option Suc (find_idx P xs))"

lemma find_idx_None_iff: "find_idx P xs = None \<longleftrightarrow> (\<forall>x \<in> set xs. \<not> P x)"
  by (induction xs) auto

lemma find_idx_Some_iff:
  "find_idx P xs = Some i \<longleftrightarrow> i < length xs \<and> P (xs ! i) \<and> (\<forall>j < i. \<not> P (xs ! j))"
proof (induction xs arbitrary: i)
  case Nil
  show ?case by simp
next
  case (Cons x xs)
  show ?case
  proof (cases i)
    case 0
    then show ?thesis by auto
  next
    case (Suc k)
    then show ?thesis using Cons.IH [of k] by (auto simp: All_less_Suc2)
  qed
qed

lemma find_idx_NoneD: "find_idx P xs = None \<Longrightarrow> i < length xs \<Longrightarrow> \<not> P (xs ! i)"
  by (auto simp: find_idx_None_iff)

lemma find_idx_SomeD:
  "find_idx P xs = Some i \<Longrightarrow> i < length xs"
  "find_idx P xs = Some i \<Longrightarrow> P (xs ! i)"
  "find_idx P xs = Some i \<Longrightarrow> j < i \<Longrightarrow> \<not> P (xs ! j)"
  by (auto simp: find_idx_Some_iff)

lemma find_idx_ex: "i < length xs \<Longrightarrow> P (xs ! i) \<Longrightarrow> \<exists>j. find_idx P xs = Some j \<and> j \<le> i"
  by (cases "find_idx P xs") (auto simp: find_idx_None_iff find_idx_Some_iff not_le [symmetric])

section \<open>Constants\<close>

definition NPROC :: nat where [kconst]: "NPROC = 64"
definition NCPU :: nat where [kconst]: "NCPU = 8"
definition NOFILE :: nat where [kconst]: "NOFILE = 16"
definition NFILE :: nat where [kconst]: "NFILE = 100"
definition NINODE :: nat where [kconst]: "NINODE = 50"
definition NDEV :: nat where [kconst]: "NDEV = 10"
definition ROOTDEV :: u32 where [kconst]: "ROOTDEV = 1"
definition MAXARG :: nat where [kconst]: "MAXARG = 32"
definition MAXOPBLOCKS :: nat where [kconst]: "MAXOPBLOCKS = 10"
definition LOGSIZE :: nat where [kconst]: "LOGSIZE = MAXOPBLOCKS * 3"
definition NBUF :: nat where [kconst]: "NBUF = MAXOPBLOCKS * 3"
definition FSSIZE :: nat where [kconst]: "FSSIZE = 2000"
definition MAXPATH :: nat where [kconst]: "MAXPATH = 128"

definition NMLFQ :: int where [kconst]: "NMLFQ = 3"
definition MLFQ_TICKS_0 :: int where [kconst]: "MLFQ_TICKS_0 = 1"
definition MLFQ_TICKS_1 :: int where [kconst]: "MLFQ_TICKS_1 = 2"
definition MLFQ_TICKS_2 :: int where [kconst]: "MLFQ_TICKS_2 = 4"
definition BOOST_INTERVAL :: u64 where [kconst]: "BOOST_INTERVAL = 100"

definition PGSIZE :: u64 where [kconst]: "PGSIZE = 4096"
definition KERNBASE :: u64 where [kconst]: "KERNBASE = 0x80000000"
definition PHYSTOP :: u64 where [kconst]: "PHYSTOP = KERNBASE + 128 * 1024 * 1024"
definition MAXVA :: u64 where [kconst]: "MAXVA = push_bit 38 1"
definition TRAMPOLINE :: u64 where [kconst]: "TRAMPOLINE = MAXVA - PGSIZE"
definition TRAPFRAME :: u64 where [kconst]: "TRAPFRAME = TRAMPOLINE - PGSIZE"

definition KSTACK :: "nat \<Rightarrow> u64" where
  "KSTACK p = TRAMPOLINE - (of_nat p + 1) * 2 * PGSIZE"

definition PGROUNDUP :: "u64 \<Rightarrow> u64" where
  "PGROUNDUP sz = (sz + PGSIZE - 1) AND NOT (PGSIZE - 1)"

definition PGROUNDDOWN :: "u64 \<Rightarrow> u64" where
  "PGROUNDDOWN a = a AND NOT (PGSIZE - 1)"

lemma sint_u32: "sint (x :: u32) = (if uint x < 2 ^ 31 then uint x else uint x - 2 ^ 32)"
proof -
  have u: "0 \<le> uint x" "uint x < 2 ^ 32" using uint_bounded [of x] by simp_all
  have "bit (uint x) 31 \<longleftrightarrow> odd (uint x div 2 ^ 31)" by (simp add: bit_iff_odd)
  also have "uint x div 2 ^ 31 = (if uint x < 2 ^ 31 then 0 else 1)"
    using u by (auto simp: div_eq_0_iff int_div_pos_eq [of _ _ 1 "uint x - 2 ^ 31"])
  finally have "bit (uint x) 31 \<longleftrightarrow> \<not> uint x < 2 ^ 31" by simp
  then show ?thesis
    using u by (simp add: sint_uint signed_take_bit_eq_take_bit_minus take_bit_int_eq_self)
qed

section \<open>Byte memory\<close>

text \<open>
  Physical memory maps byte addresses to bytes. RISC-V is little-endian: the 64-bit value
  at \<open>a\<close> has its least significant byte at \<open>a\<close>.
\<close>

type_synonym bytes = "u64 \<Rightarrow> u8"

fun load_le :: "bytes \<Rightarrow> u64 \<Rightarrow> nat \<Rightarrow> nat" where
  "load_le m a 0 = 0"
| "load_le m a (Suc n) = unat (m a) + 256 * load_le m (a + 1) n"

fun store_le :: "bytes \<Rightarrow> u64 \<Rightarrow> nat \<Rightarrow> nat \<Rightarrow> bytes" where
  "store_le m a 0 v = m"
| "store_le m a (Suc n) v = (store_le m (a + 1) n (v div 256))(a := of_nat (v mod 256))"

definition load64 :: "bytes \<Rightarrow> u64 \<Rightarrow> u64" where
  "load64 m a = of_nat (load_le m a 8)"

definition store64 :: "bytes \<Rightarrow> u64 \<Rightarrow> u64 \<Rightarrow> bytes" where
  "store64 m a v = store_le m a 8 (unat v)"

definition load32 :: "bytes \<Rightarrow> u64 \<Rightarrow> u32" where
  "load32 m a = of_nat (load_le m a 4)"

definition store32 :: "bytes \<Rightarrow> u64 \<Rightarrow> u32 \<Rightarrow> bytes" where
  "store32 m a v = store_le m a 4 (unat v)"

text \<open>\<open>off b a\<close>: the distance of address \<open>a\<close> above \<open>b\<close>.\<close>

definition off :: "u64 \<Rightarrow> u64 \<Rightarrow> nat" where
  "off b a = unat (a - b)"

lemma off_self [simp]: "off a a = 0"
  by (simp add: off_def)

lemma off_lt [simp]: "off b a < 2 ^ 64"
  using unsigned_less [of "a - b"] by (simp add: off_def)

lemma off_eq_0 [simp]: "off b a = 0 \<longleftrightarrow> a = b"
  by (simp add: off_def unat_eq_zero)

lemma off_pos [simp]: "0 < off b a \<longleftrightarrow> a \<noteq> b"
  using off_eq_0 [of b a] by linarith

lemma unat_of_nat_lt: "n < 2 ^ LENGTH('a) \<Longrightarrow> unat (of_nat n :: 'a::len word) = n"
  by (simp add: unsigned_of_nat take_bit_nat_eq_self)

lemma off_eq_iff:
  assumes "n < 2 ^ 64"
  shows "off b a = n \<longleftrightarrow> a = b + of_nat n"
proof
  assume "off b a = n"
  then have "of_nat n = a - b" by (auto simp: off_def)
  then show "a = b + of_nat n" by simp
next
  assume "a = b + of_nat n"
  then show "off b a = n" using assms by (simp add: off_def unat_of_nat_lt)
qed

lemma off_plus_1: "off (b + 1) a = (if a = b then 2 ^ 64 - 1 else off b a - 1)"
proof (cases "a = b")
  case True
  then show ?thesis by (simp add: off_def unsigned_minus_1_eq_mask mask_eq_exp_minus_1)
next
  case False
  then have "a - b \<noteq> 0" by simp
  then have "unat (a - b - 1) = unat (a - b) - 1"
    by (rule unat_minus_one)
  with False show ?thesis by (simp add: off_def algebra_simps)
qed

lemma off_plus_1_less:
  "n < 2 ^ 64 - 1 \<Longrightarrow> off (b + 1) a < n \<longleftrightarrow> a \<noteq> b \<and> off b a < Suc n"
  using off_pos [of b a] by (auto simp: off_plus_1 simp del: off_pos)

lemma store_le_other: "n < 2 ^ 64 \<Longrightarrow> n \<le> off a x \<Longrightarrow> store_le m a n v x = m x"
proof (induction n arbitrary: a v)
  case 0
  show ?case by simp
next
  case (Suc n)
  then have ne: "x \<noteq> a" using off_eq_0 [of a x] by linarith
  then have "n \<le> off (a + 1) x" using Suc.prems by (simp add: off_plus_1)
  with Suc ne show ?case by simp
qed

lemma load_le_cong:
  "(\<And>i. i < n \<Longrightarrow> m (a + of_nat i) = m' (a + of_nat i)) \<Longrightarrow> load_le m a n = load_le m' a n"
proof (induction n arbitrary: a)
  case 0
  show ?case by simp
next
  case (Suc n)
  have "load_le m (a + 1) n = load_le m' (a + 1) n"
    using Suc.prems [of "Suc i" for i] by (intro Suc.IH) (simp add: algebra_simps)
  moreover have "m a = m' a" using Suc.prems [of 0] by simp
  ultimately show ?case by simp
qed

lemma load_le_bound: "load_le m a n < 256 ^ n"
proof (induction n arbitrary: a)
  case 0
  show ?case by simp
next
  case (Suc n)
  have "unat (m a) < 256" using unsigned_less [of "m a"] by simp
  with Suc.IH [of "a + 1"] show ?case by simp
qed

lemma load_le_store_le: "n < 2 ^ 64 \<Longrightarrow> load_le (store_le m a n v) a n = v mod 256 ^ n"
proof (induction n arbitrary: a v)
  case 0
  show ?case by simp
next
  case (Suc n)
  let ?m = "store_le m (a + 1) n (v div 256)"
  have "load_le (?m(a := of_nat (v mod 256))) (a + 1) n = load_le ?m (a + 1) n"
  proof (rule load_le_cong)
    fix i assume i: "i < n"
    then have "i < 2 ^ 64 - 1" using Suc.prems by simp
    then have "(1 :: u64) + of_nat i \<noteq> 0"
      using unat_of_nat_lt [of "Suc i", where 'a = 64] by auto
    then have "a + 1 + of_nat i \<noteq> a" by (simp add: algebra_simps)
    then show "(?m(a := of_nat (v mod 256))) (a + 1 + of_nat i) = ?m (a + 1 + of_nat i)"
      by simp
  qed
  also have "\<dots> = v div 256 mod 256 ^ n" using Suc by simp
  finally have "load_le (store_le m a (Suc n) v) a (Suc n) = v mod 256 + 256 * (v div 256 mod 256 ^ n)"
    by (simp add: unat_of_nat)
  also have "\<dots> = v mod 256 ^ Suc n"
    by (simp add: mod_mult2_eq)
  finally show ?case .
qed

lemma store64_other: "8 \<le> off a x \<Longrightarrow> store64 m a v x = m x"
  by (simp add: store64_def store_le_other)

lemma load64_store64 [simp]: "load64 (store64 m a v) a = v"
proof -
  have "unat v < 2 ^ 64" using unsigned_less [of v] by simp
  then show ?thesis by (simp add: load64_def store64_def load_le_store_le)
qed

lemma load64_cong:
  "(\<And>i. i < 8 \<Longrightarrow> m (a + of_nat i) = m' (a + of_nat i)) \<Longrightarrow> load64 m a = load64 m' a"
  by (simp add: load64_def cong: load_le_cong)

lemma off_lt_iff_less:
  assumes "unat b + n \<le> 2 ^ 64"
  shows "off b a < n \<longleftrightarrow> b \<le> a \<and> unat a < unat b + n"
proof (cases "b \<le> a")
  case True
  then have "off b a = unat a - unat b" and "unat b \<le> unat a"
    by (simp_all add: off_def unat_sub word_le_nat_alt)
  with True show ?thesis by auto
next
  case False
  then have lt: "unat a < unat b" by (simp add: word_le_nat_alt)
  have "unat b < 2 ^ 64" using unsigned_less [of b] by simp
  then have "off b a = 2 ^ 64 + unat a - unat b"
    using lt by (simp add: off_def unat_sub_if_size word_size)
  with False lt assms show ?thesis by simp
qed

lemma load_le_zero [simp]: "load_le (\<lambda>_. 0) p n = 0"
  by (induction n arbitrary: p) simp_all

lemma load64_zero [simp]: "load64 (\<lambda>_. 0) p = 0"
  by (simp add: load64_def)

section \<open>Pages\<close>

definition page_aligned :: "u64 \<Rightarrow> bool" where
  "page_aligned a \<longleftrightarrow> a mod PGSIZE = 0"

text \<open>\<open>in_page p x\<close>: address \<open>x\<close> lies in the page that starts at \<open>p\<close>.\<close>

definition in_page :: "u64 \<Rightarrow> u64 \<Rightarrow> bool" where
  "in_page p x \<longleftrightarrow> off p x < 4096"

lemma page_aligned_unat: "page_aligned a \<longleftrightarrow> unat a mod 4096 = 0"
  by (simp add: page_aligned_def PGSIZE_def word_arith_nat_mod unat_eq_zero [symmetric]
        unat_of_nat take_bit_nat_eq_self)

lemma page_aligned_unat_le: "page_aligned a \<Longrightarrow> unat a + 4096 \<le> 2 ^ 64"
proof -
  assume "page_aligned a"
  then obtain k where k: "unat a = 4096 * k"
    by (auto simp: page_aligned_unat elim: dvdE)
  have "unat a < 2 ^ 64" using unsigned_less [of a] by simp
  with k have "k < 2 ^ 52" by simp
  then show ?thesis unfolding k by simp
qed

lemma in_page_unat:
  assumes "page_aligned p"
  shows "in_page p x \<longleftrightarrow> unat x div 4096 = unat p div 4096"
proof -
  obtain k where k: "unat p = 4096 * k"
    using assms by (auto simp: page_aligned_unat elim: dvdE)
  have "in_page p x \<longleftrightarrow> 4096 * k \<le> unat x \<and> unat x < 4096 * k + 4096"
    using page_aligned_unat_le [OF assms]
    by (simp add: in_page_def off_lt_iff_less word_le_nat_alt k)
  also have "\<dots> \<longleftrightarrow> unat x div 4096 = k" by linarith
  finally show ?thesis by (simp add: k)
qed

lemma in_page_self [simp]: "in_page p p"
  by (simp add: in_page_def)

lemma in_page_unique:
  assumes "page_aligned p" "page_aligned q" "in_page p x" "in_page q x"
  shows "p = q"
proof -
  have "unat p div 4096 = unat q div 4096" using assms by (simp add: in_page_unat)
  moreover have "unat p mod 4096 = 0" "unat q mod 4096 = 0"
    using assms by (simp_all add: page_aligned_unat)
  ultimately have "unat p = unat q"
    using div_mult_mod_eq [of "unat p" 4096] div_mult_mod_eq [of "unat q" 4096] by simp
  then show ?thesis by (simp add: word_unat_eq_iff)
qed

lemma in_page_add: "i < 4096 \<Longrightarrow> in_page p (p + of_nat i)"
  by (simp add: in_page_def off_def unat_of_nat_lt)

lemma PGROUNDDOWN_eq: "PGROUNDDOWN a = a - a mod 4096"
proof -
  have m: "(4095 :: u64) = mask 12" by (simp add: mask_eq_exp_minus_1)
  have "NOT a AND (a AND mask 12) = 0" by (simp add: bit_eq_iff bit_simps)
  then have "a - (a AND mask 12) = a AND NOT (a AND mask 12)"
    by (rule disjunctive_diff_eq_and_not)
  also have "\<dots> = a AND NOT (mask 12)" by (auto simp: bit_eq_iff bit_simps)
  also have "a AND mask 12 = a mod 4096"
    by (simp add: take_bit_eq_mod flip: take_bit_eq_mask)
  finally show ?thesis by (simp add: PGROUNDDOWN_def PGSIZE_def m)
qed

lemma unat_PGROUNDDOWN: "unat (PGROUNDDOWN a) = unat a div 4096 * 4096"
proof -
  have "unat (a mod 4096) = unat a mod 4096" by (simp add: unat_mod)
  moreover have "a mod 4096 \<le> a" by (simp add: word_le_nat_alt unat_mod)
  ultimately have "unat (PGROUNDDOWN a) = unat a - unat a mod 4096"
    by (simp only: PGROUNDDOWN_eq unat_sub)
  then show ?thesis by (simp only: minus_mod_eq_div_mult)
qed

lemma PGROUNDUP_eq: "PGROUNDUP a = PGROUNDDOWN (a + 4095)"
  by (simp add: PGROUNDUP_def PGROUNDDOWN_def PGSIZE_def algebra_simps)

lemma unat_PGROUNDUP:
  "unat a + 4095 < 2 ^ 64 \<Longrightarrow> unat (PGROUNDUP a) = (unat a + 4095) div 4096 * 4096"
  by (simp add: PGROUNDUP_eq unat_PGROUNDDOWN unat_word_ariths)

lemma page_aligned_PGROUNDDOWN [simp]: "page_aligned (PGROUNDDOWN a)"
  by (simp add: page_aligned_unat unat_PGROUNDDOWN)

lemma page_aligned_PGROUNDUP [simp]: "page_aligned (PGROUNDUP a)"
  by (simp add: PGROUNDUP_eq)

lemma PGROUNDUP_le_iff:
  assumes "unat a + 4095 < 2 ^ 64" "page_aligned q"
  shows "PGROUNDUP a \<le> q \<longleftrightarrow> a \<le> q"
proof -
  obtain k where k: "unat q = 4096 * k"
    using assms by (auto simp: page_aligned_unat elim: dvdE)
  have "(unat a + 4095) div 4096 * 4096 \<le> 4096 * k \<longleftrightarrow> unat a \<le> 4096 * k"
    by (simp add: mult.commute [of 4096 k]) arith
  then show ?thesis by (simp add: word_le_nat_alt unat_PGROUNDUP [OF assms(1)] k)
qed

end
