(* ===== verification/Kstring.thy ===== *)
theory Kstring
  imports Prelude
begin

text \<open>
  Memory and string routines of \<^verbatim>\<open>kernel/string.c\<close>. \<open>memset\<close>, \<open>memcmp\<close> and
  \<open>memmove\<close> work on the byte memory; the string routines work on C arrays, given as the
  list of bytes from the pointer to the end of the array, and return \<open>None\<close> where the C
  code would read or write past that end. The theorems give each routine's result in
  closed form; for \<open>memmove\<close> this is that overlapping ranges are copied correctly.
\<close>

section \<open>Definitions\<close>

fun memset_loop :: "bytes \<Rightarrow> u64 \<Rightarrow> u8 \<Rightarrow> nat \<Rightarrow> bytes" where
  "memset_loop m d c 0 = m"
| "memset_loop m d c (Suc n) = memset_loop (m(d := c)) (d + 1) c n"

definition memset :: "bytes \<Rightarrow> u64 \<Rightarrow> int \<Rightarrow> u32 \<Rightarrow> bytes" where
  "memset m dst c n = memset_loop m dst (word_of_int c) (unat n)"

fun memcmp_loop :: "bytes \<Rightarrow> u64 \<Rightarrow> u64 \<Rightarrow> nat \<Rightarrow> int" where
  "memcmp_loop m s1 s2 0 = 0"
| "memcmp_loop m s1 s2 (Suc n) =
     (if m s1 \<noteq> m s2 then uint (m s1) - uint (m s2) else memcmp_loop m (s1 + 1) (s2 + 1) n)"

definition memcmp :: "bytes \<Rightarrow> u64 \<Rightarrow> u64 \<Rightarrow> u32 \<Rightarrow> int" where
  "memcmp m v1 v2 n = memcmp_loop m v1 v2 (unat n)"

text \<open>The two loops of \<^verbatim>\<open>memmove\<close>: upwards, and downwards from the ends.\<close>

fun copy_up :: "bytes \<Rightarrow> u64 \<Rightarrow> u64 \<Rightarrow> nat \<Rightarrow> bytes" where
  "copy_up m d s 0 = m"
| "copy_up m d s (Suc n) = copy_up (m(d := m s)) (d + 1) (s + 1) n"

fun copy_down :: "bytes \<Rightarrow> u64 \<Rightarrow> u64 \<Rightarrow> nat \<Rightarrow> bytes" where
  "copy_down m d s 0 = m"
| "copy_down m d s (Suc n) = copy_down (m(d - 1 := m (s - 1))) (d - 1) (s - 1) n"

definition memmove :: "bytes \<Rightarrow> u64 \<Rightarrow> u64 \<Rightarrow> u32 \<Rightarrow> bytes" where
  "memmove m dst src n =
     (if n = 0 then m
      else if src < dst \<and> src + ucast n > dst
      then copy_down m (dst + ucast n) (src + ucast n) (unat n)
      else copy_up m dst src (unat n))"

definition memcpy :: "bytes \<Rightarrow> u64 \<Rightarrow> u64 \<Rightarrow> u32 \<Rightarrow> bytes" where
  "memcpy m dst src n = memmove m dst src n"

fun strncmp :: "u8 list \<Rightarrow> u8 list \<Rightarrow> nat \<Rightarrow> int option" where
  "strncmp p q 0 = Some 0"
| "strncmp (a # p) (b # q) (Suc n) =
     (if a \<noteq> 0 \<and> a = b then strncmp p q n else Some (uint a - uint b))"
| "strncmp p q (Suc n) = None"

fun zero_fill :: "u8 list \<Rightarrow> nat \<Rightarrow> u8 list option" where
  "zero_fill s 0 = Some s"
| "zero_fill (x # s) (Suc n) = map_option (Cons 0) (zero_fill s n)"
| "zero_fill [] (Suc n) = None"

text \<open>The result is the destination array after the call.\<close>

fun strncpy_nat :: "u8 list \<Rightarrow> u8 list \<Rightarrow> nat \<Rightarrow> u8 list option" where
  "strncpy_nat s t 0 = Some s"
| "strncpy_nat (x # s) (c # t) (Suc n) =
     map_option (Cons c) (if c \<noteq> 0 then strncpy_nat s t n else zero_fill s n)"
| "strncpy_nat s t (Suc n) = None"

definition strncpy :: "u8 list \<Rightarrow> u8 list \<Rightarrow> int \<Rightarrow> u8 list option" where
  "strncpy s t n = strncpy_nat s t (nat n)"

fun safestrcpy_loop :: "u8 list \<Rightarrow> u8 list \<Rightarrow> nat \<Rightarrow> u8 list option" where
  "safestrcpy_loop (x # s) t 0 = Some (0 # s)"
| "safestrcpy_loop (x # s) (c # t) (Suc n) =
     map_option (Cons c)
       (if c \<noteq> 0 then safestrcpy_loop s t n
        else (case s of [] \<Rightarrow> None | y # s' \<Rightarrow> Some (0 # s')))"
| "safestrcpy_loop s t n = None"

definition safestrcpy :: "u8 list \<Rightarrow> u8 list \<Rightarrow> int \<Rightarrow> u8 list option" where
  "safestrcpy s t n = (if n \<le> 0 then Some s else safestrcpy_loop s t (nat (n - 1)))"

fun strlen :: "u8 list \<Rightarrow> nat option" where
  "strlen [] = None"
| "strlen (c # s) = (if c = 0 then Some 0 else map_option Suc (strlen s))"

text \<open>The C string an array holds: its bytes before the first NUL.\<close>

definition cstr :: "u8 list \<Rightarrow> u8 list" where
  "cstr s = takeWhile (\<lambda>c. c \<noteq> 0) s"

section \<open>Memory\<close>

lemma memset_loop_eq:
  "n < 2 ^ 64 \<Longrightarrow> memset_loop m d c n = (\<lambda>a. if off d a < n then c else m a)"
proof (induction n arbitrary: m d)
  case 0
  show ?case by simp
next
  case (Suc n)
  then have n: "n < 2 ^ 64 - 1" by simp
  show ?case
  proof
    fix a
    have "memset_loop m d c (Suc n) a =
        (if off (d + 1) a < n then c else if a = d then c else m a)"
      using n by (simp add: Suc.IH)
    also have "\<dots> = (if off d a < Suc n then c else m a)"
      using n by (auto simp: off_plus_1_less)
    finally show "memset_loop m d c (Suc n) a = (if off d a < Suc n then c else m a)" .
  qed
qed

lemma memset_eq:
  "memset m d c n = (\<lambda>a. if off d a < unat n then word_of_int c else m a)"
proof -
  have "unat n < 2 ^ 32" using unsigned_less [of n] by simp
  then have "unat n < 2 ^ 64" by simp
  then show ?thesis by (simp add: memset_def memset_loop_eq)
qed

lemma copy_up_eq:
  assumes "n < 2 ^ 64"
    and "\<And>j. 0 < j \<Longrightarrow> j < n \<Longrightarrow> off s d \<noteq> j"
  shows "copy_up m d s n = (\<lambda>a. if off d a < n then m (s + (a - d)) else m a)"
  using assms
proof (induction n arbitrary: m d s)
  case 0
  show ?case by simp
next
  case (Suc n)
  have n: "n < 2 ^ 64 - 1" using Suc.prems(1) by simp
  have sep: "off (s + 1) (d + 1) \<noteq> j" if "0 < j" "j < n" for j
    using Suc.prems(2) [of j] that by (simp add: off_def)
  have IH: "copy_up m' (d + 1) (s + 1) n =
      (\<lambda>a. if off (d + 1) a < n then m' (s + 1 + (a - (d + 1))) else m' a)" for m'
    using n sep by (intro Suc.IH) auto
  show ?case
  proof
    fix a
    have keep: "s + (a - d) \<noteq> d" if "a \<noteq> d" "off d a < Suc n"
    proof
      assume eq: "s + (a - d) = d"
      then have "off s d = off d a" by (metis add_diff_cancel_left' off_def)
      moreover have "0 < off d a" using that(1) by simp
      ultimately show False using Suc.prems(2) [of "off d a"] that(2) by simp
    qed
    show "copy_up m d s (Suc n) a = (if off d a < Suc n then m (s + (a - d)) else m a)"
    proof (cases "a = d")
      case True
      then show ?thesis using n by (simp add: IH off_plus_1_less)
    next
      case False
      then have "off (d + 1) a < n \<longleftrightarrow> off d a < Suc n"
        using n by (simp add: off_plus_1_less)
      moreover have "s + 1 + (a - (d + 1)) = s + (a - d)" by (simp add: algebra_simps)
      ultimately show ?thesis using False keep by (auto simp: IH)
    qed
  qed
qed

lemma copy_down_eq:
  assumes "n < 2 ^ 64"
    and "\<And>j. 0 < j \<Longrightarrow> j < n \<Longrightarrow> off d s \<noteq> j"
  shows "copy_down m (d + of_nat n) (s + of_nat n) n =
           (\<lambda>a. if off d a < n then m (s + (a - d)) else m a)"
  using assms
proof (induction n arbitrary: m)
  case 0
  show ?case by simp
next
  case (Suc n)
  let ?m = "m(d + of_nat n := m (s + of_nat n))"
  have IH: "copy_down ?m (d + of_nat n) (s + of_nat n) n =
      (\<lambda>a. if off d a < n then ?m (s + (a - d)) else ?m a)"
    using Suc.prems by (intro Suc.IH) auto
  have offn: "off d a = n \<longleftrightarrow> a = d + of_nat n" for a
    using Suc.prems(1) by (intro off_eq_iff) simp
  show ?case
  proof
    fix a
    have keep: "s + (a - d) \<noteq> d + of_nat n" if "off d a < n"
    proof
      assume "s + (a - d) = d + of_nat n"
      then have "s - d = of_nat n - (a - d)" by (simp add: algebra_simps)
      moreover have "a - d = of_nat (off d a)" by (simp add: off_def)
      ultimately have "s - d = of_nat (n - off d a)" using that by (simp add: of_nat_diff)
      moreover have "n - off d a < 2 ^ 64" using Suc.prems(1) by simp
      ultimately have "off d s = n - off d a" by (simp add: off_def unat_of_nat_lt)
      then show False
        using Suc.prems(2) [of "n - off d a"] Suc.prems(2) [of n] that
        by (cases "off d a = 0") auto
    qed
    have "copy_down m (d + of_nat (Suc n)) (s + of_nat (Suc n)) (Suc n) a =
        (if off d a < n then ?m (s + (a - d)) else ?m a)"
      using IH by (simp add: algebra_simps)
    then show "copy_down m (d + of_nat (Suc n)) (s + of_nat (Suc n)) (Suc n) a =
        (if off d a < Suc n then m (s + (a - d)) else m a)"
      using keep offn [of a] by (auto simp: less_Suc_eq)
  qed
qed

lemma memmove_eq:
  assumes "unat dst + unat n < 2 ^ 64" and "unat src + unat n < 2 ^ 64"
  shows "memmove m dst src n =
           (\<lambda>a. if off dst a < unat n then m (src + (a - dst)) else m a)"
proof -
  have n: "unat n < 2 ^ 64" using assms by simp
  have un: "(ucast n :: u64) = of_nat (unat n)" by simp
  have "unat (ucast n :: u64) = unat n" using n unfolding un by (intro unat_of_nat_lt) simp
  then have dn: "unat (src + ucast n) = unat src + unat n"
    using assms(2) by (simp add: unat_word_ariths)
  show ?thesis
  proof (cases "src < dst \<and> src + ucast n > dst")
    case True
    have "off dst src \<noteq> j" if "j < unat n" for j
      using off_lt_iff_less [of dst "unat n" src] assms(1) that True by auto
    then have "copy_down m (dst + of_nat (unat n)) (src + of_nat (unat n)) (unat n) =
        (\<lambda>a. if off dst a < unat n then m (src + (a - dst)) else m a)"
      using n by (intro copy_down_eq) auto
    with True show ?thesis by (auto simp: memmove_def)
  next
    case False
    have "off src dst \<noteq> j" if "0 < j" "j < unat n" for j
    proof
      assume j: "off src dst = j"
      then have "off src dst < unat n" using that by simp
      then have "src \<le> dst" "unat dst < unat src + unat n"
        using off_lt_iff_less [of src "unat n" dst] assms(2) by auto
      moreover have "src \<noteq> dst" using j that by auto
      ultimately show False using False dn by (simp add: word_less_nat_alt order_le_less)
    qed
    then have "copy_up m dst src (unat n) =
        (\<lambda>a. if off dst a < unat n then m (src + (a - dst)) else m a)"
      using n by (intro copy_up_eq) auto
    with False show ?thesis by (auto simp: memmove_def)
  qed
qed

lemma memcmp_loop_eq_0:
  "memcmp_loop m p q n = 0 \<longleftrightarrow> (\<forall>i < n. m (p + of_nat i) = m (q + of_nat i))"
proof (induction n arbitrary: p q)
  case 0
  show ?case by simp
next
  case (Suc n)
  have "(\<forall>i < Suc n. m (p + of_nat i) = m (q + of_nat i)) \<longleftrightarrow>
      m p = m q \<and> (\<forall>i < n. m (p + 1 + of_nat i) = m (q + 1 + of_nat i))"
    by (simp add: All_less_Suc2 algebra_simps)
  then show ?case using Suc.IH by (auto simp: word_uint_eq_iff)
qed

lemma memcmp_eq_0:
  "memcmp m p q n = 0 \<longleftrightarrow> (\<forall>i < unat n. m (p + of_nat i) = m (q + of_nat i))"
  by (simp add: memcmp_def memcmp_loop_eq_0)

section \<open>Strings\<close>

lemma cstr_Nil [simp]: "cstr [] = []"
  and cstr_Cons [simp]: "cstr (c # s) = (if c = 0 then [] else c # cstr s)"
  by (simp_all add: cstr_def)

lemma strlen_eq: "strlen s = (if 0 \<in> set s then Some (length (cstr s)) else None)"
  by (induction s) auto

lemma strncmp_defined:
  "n \<le> length p \<Longrightarrow> n \<le> length q \<Longrightarrow> \<exists>r. strncmp p q n = Some r"
  by (induction p q n rule: strncmp.induct) auto

lemma strncmp_eq_0:
  "strncmp p q n = Some r \<Longrightarrow> r = 0 \<longleftrightarrow> cstr (take n p) = cstr (take n q)"
  by (induction p q n rule: strncmp.induct) (auto split: if_splits simp: word_uint_eq_iff)

lemma zero_fill_eq: "n \<le> length s \<Longrightarrow> zero_fill s n = Some (replicate n 0 @ drop n s)"
  by (induction s n rule: zero_fill.induct) auto

lemma strncpy_nat_eq:
  "n \<le> length s \<Longrightarrow> n \<le> length t \<or> 0 \<in> set t \<Longrightarrow>
   strncpy_nat s t n =
     Some (take n (cstr t) @ replicate (n - length (cstr t)) 0 @ drop n s)"
  by (induction s t n rule: strncpy_nat.induct) (auto simp: zero_fill_eq)

lemma strncpy_eq:
  "nat n \<le> length s \<Longrightarrow> nat n \<le> length t \<or> 0 \<in> set t \<Longrightarrow>
   strncpy s t n =
     Some (take (nat n) (cstr t) @ replicate (nat n - length (cstr t)) 0 @ drop (nat n) s)"
  by (simp add: strncpy_def strncpy_nat_eq)

lemma safestrcpy_loop_eq:
  "n < length s \<Longrightarrow> n \<le> length t \<or> 0 \<in> set t \<Longrightarrow>
   \<exists>r. safestrcpy_loop s t n = Some r \<and> length r = length s \<and> cstr r = take n (cstr t)
       \<and> 0 \<in> set (take (Suc n) r)"
  by (induction s t n rule: safestrcpy_loop.induct) (auto split: list.splits)

lemma safestrcpy_eq:
  assumes "0 < n" and "nat n \<le> length s" and "nat n \<le> Suc (length t) \<or> 0 \<in> set t"
  shows "\<exists>r. safestrcpy s t n = Some r \<and> length r = length s
           \<and> cstr r = take (nat n - 1) (cstr t) \<and> 0 \<in> set (take (nat n) r)"
proof -
  have "nat (n - 1) < length s" and "nat (n - 1) \<le> length t \<or> 0 \<in> set t"
    and "Suc (nat (n - 1)) = nat n"
    using assms by auto
  moreover have "nat n - 1 = nat (n - 1)" by simp
  ultimately show ?thesis
    using assms(1) safestrcpy_loop_eq [of "nat (n - 1)" s t] by (simp add: safestrcpy_def)
qed

section \<open>Properties\<close>

text \<open>
  C15. \<open>memmove\<close> is correct for overlapping buffers in both directions: for buffers that end
  below the top of the address space, the destination afterwards holds what the source held
  before the call, and nothing outside the destination changes.
\<close>

theorem memmove_overlap:
  assumes "unat dst + unat n < 2 ^ 64" "unat src + unat n < 2 ^ 64"
  shows "(\<forall>i < unat n. memmove m dst src n (dst + of_nat i) = m (src + of_nat i))
    \<and> (\<forall>a. unat n \<le> off dst a \<longrightarrow> memmove m dst src n a = m a)"
proof -
  have "unat n < 2 ^ 64" using assms by simp
  then show ?thesis
    by (auto simp: memmove_eq [OF assms] off_def unat_of_nat_lt)
qed

theorem memmove_overlap_witness:
  "memmove (\<lambda>a. ucast a) 1001 1000 4 (1001 + of_nat 3) = 235"
proof -
  have "\<forall>i < unat (4 :: u32). memmove (\<lambda>a. ucast a) 1001 1000 4 (1001 + of_nat i) =
      ucast (1000 + of_nat i :: u64)"
    using memmove_overlap [of 1001 4 1000 "\<lambda>a. ucast a"] by simp
  from this [rule_format, of 3] show ?thesis by simp
qed

text \<open>
  C16. \<open>safestrcpy\<close> never writes outside the destination, always leaves a terminated string
  there and copies the longest prefix of the source that fits; \<open>strncpy\<close> fills exactly \<open>n\<close>
  bytes, with the source padded by zeros, and may leave no terminator.
\<close>

theorem bounded_copies:
  assumes "0 < n" "nat n \<le> length s" "0 \<in> set t"
  shows "(\<exists>r. safestrcpy s t n = Some r \<and> length r = length s \<and> 0 \<in> set (take (nat n) r)
       \<and> cstr r = take (nat n - 1) (cstr t))
    \<and> (\<exists>r. strncpy s t n = Some r \<and> length r = length s \<and> drop (nat n) r = drop (nat n) s
       \<and> take (nat n) r = take (nat n) (cstr t @ replicate (nat n) 0))"
proof -
  have "\<exists>r. strncpy s t n = Some r \<and> length r = length s \<and> drop (nat n) r = drop (nat n) s
       \<and> take (nat n) r = take (nat n) (cstr t @ replicate (nat n) 0)"
    using assms strncpy_eq [of n s t] by (auto simp: min_def)
  with safestrcpy_eq [of n s t] assms show ?thesis by blast
qed

theorem bounded_copies_witness:
  "\<exists>r. safestrcpy [9, 9, 9, 9] [104, 105, 33, 33, 0] 4 = Some r \<and> cstr r = [104, 105, 33]"
  using bounded_copies [of 4 "[9, 9, 9, 9]" "[104, 105, 33, 33, 0]"] by auto

end
