(* ===== verification/Kalloc.thy ===== *)
theory Kalloc
  imports Kstring
begin

text \<open>
  The physical page allocator of \<^verbatim>\<open>kernel/kalloc.c\<close>. The free list is threaded
  through the free pages themselves: \<^verbatim>\<open>struct run\<close> is the 64-bit \<open>next\<close> pointer in
  the first eight bytes of a free page, so \<open>kfree\<close> and \<open>kalloc\<close> read and write the
  byte memory. \<open>kend\<close> is the linker symbol \<^verbatim>\<open>end\<close>. The theorems show that the
  list in memory implements a stack of distinct pages, that \<open>kinit\<close> puts every page
  between \<open>end\<close> and \<open>PHYSTOP\<close> on it, and that no operation touches other pages.
\<close>

section \<open>Definitions\<close>

record pmem =
  mem :: bytes
  freelist :: u64
  kend :: u64

definition kfree :: "u64 \<Rightarrow> 'z pmem_scheme \<Rightarrow> (unit, 'z pmem_scheme) res" where
  "kfree pa s =
     (if pa mod PGSIZE \<noteq> 0 \<or> pa < kend s \<or> pa \<ge> PHYSTOP then Panic ''kfree''
      else let m = memset (mem s) pa 1 4096
           in Ok () (s\<lparr>mem := store64 m pa (freelist s), freelist := pa\<rparr>))"

definition kalloc :: "'z pmem_scheme \<Rightarrow> (u64, 'z pmem_scheme) res" where
  "kalloc s =
     (let r = freelist s;
          s1 = (if r \<noteq> 0 then s\<lparr>freelist := load64 (mem s) r\<rparr> else s)
      in Ok r (if r \<noteq> 0 then s1\<lparr>mem := memset (mem s1) r 5 4096\<rparr> else s1))"

lemma kfree_Ok_bound: "kfree pa s = Ok u s' \<Longrightarrow> pa < PHYSTOP"
  by (auto simp: kfree_def Let_def split: if_splits)

lemma PHYSTOP_val: "PHYSTOP = 0x88000000"
  by (simp add: PHYSTOP_def KERNBASE_def)

function freerange_loop ::
  "u64 \<Rightarrow> u64 \<Rightarrow> 'z pmem_scheme \<Rightarrow> (unit, 'z pmem_scheme) res" where
  "freerange_loop p pa_end s =
     (if p + PGSIZE \<le> pa_end
      then bnd (kfree p s) (\<lambda>_ s. freerange_loop (p + PGSIZE) pa_end s)
      else Ok () s)"
  by pat_completeness auto
termination
proof (relation "measure (\<lambda>(p, pa_end, s). unat PHYSTOP - unat p)", goal_cases)
  case (2 p pa_end s u s')
  then have "p < PHYSTOP" by (blast dest: kfree_Ok_bound)
  then show ?case
    by (simp add: PHYSTOP_val PGSIZE_def unat_word_ariths word_less_nat_alt)
qed simp

declare freerange_loop.simps [simp del]

definition freerange :: "u64 \<Rightarrow> u64 \<Rightarrow> 'z pmem_scheme \<Rightarrow> (unit, 'z pmem_scheme) res" where
  "freerange pa_start pa_end s = freerange_loop (PGROUNDUP pa_start) pa_end s"

definition kinit :: "'z pmem_scheme \<Rightarrow> (unit, 'z pmem_scheme) res" where
  "kinit s = freerange (kend s) PHYSTOP s"

section \<open>The free list\<close>

text \<open>\<open>run_list m p ps\<close>: starting from pointer \<open>p\<close>, the \<open>next\<close> pointers in memory lead
  through the pages \<open>ps\<close> and end in the null pointer.\<close>

fun run_list :: "bytes \<Rightarrow> u64 \<Rightarrow> u64 list \<Rightarrow> bool" where
  "run_list m p [] \<longleftrightarrow> p = 0"
| "run_list m p (x # xs) \<longleftrightarrow> p = x \<and> x \<noteq> 0 \<and> run_list m (load64 m x) xs"

definition kpage :: "'z pmem_scheme \<Rightarrow> u64 \<Rightarrow> bool" where
  "kpage s pa \<longleftrightarrow> page_aligned pa \<and> kend s \<le> pa \<and> pa < PHYSTOP"

definition free_pages :: "'z pmem_scheme \<Rightarrow> u64 list \<Rightarrow> bool" where
  "free_pages s ps \<longleftrightarrow> kend s \<noteq> 0 \<and> run_list (mem s) (freelist s) ps \<and> distinct ps
     \<and> (\<forall>p \<in> set ps. kpage s p)"

lemma run_list_unique: "run_list m p xs \<Longrightarrow> run_list m p ys \<Longrightarrow> xs = ys"
proof (induction xs arbitrary: p ys)
  case Nil
  then show ?case by (cases ys) auto
next
  case (Cons x xs)
  then show ?case by (cases ys) auto
qed

lemma load64_frame:
  assumes "\<And>x. in_page p x \<Longrightarrow> m' x = m x"
  shows "load64 m' p = load64 m p"
  using assms by (intro load64_cong) (simp add: in_page_add)

lemma run_list_frame:
  "(\<And>x. x \<in> set xs \<Longrightarrow> load64 m' x = load64 m x) \<Longrightarrow> run_list m' p xs = run_list m p xs"
  by (induction xs arbitrary: p) auto

lemma memset_page: "memset m p c 4096 x = (if in_page p x then word_of_int c else m x)"
  by (simp add: memset_eq in_page_def)

lemma store64_out_page: "\<not> in_page p x \<Longrightarrow> store64 m p v x = m x"
  by (rule store64_other) (simp add: in_page_def)

lemma other_page:
  "page_aligned p \<Longrightarrow> page_aligned q \<Longrightarrow> p \<noteq> q \<Longrightarrow> in_page q x \<Longrightarrow> \<not> in_page p x"
  by (blast dest: in_page_unique)

lemma kfree_Ok:
  "kpage s pa \<Longrightarrow> kfree pa s =
     Ok () (s\<lparr>mem := store64 (memset (mem s) pa 1 4096) pa (freelist s), freelist := pa\<rparr>)"
  by (auto simp: kfree_def kpage_def page_aligned_def Let_def)

lemma kfree_Panic: "\<not> kpage s pa \<Longrightarrow> kfree pa s = Panic ''kfree''"
  unfolding kfree_def kpage_def page_aligned_def by (metis linorder_not_less)

text \<open>\<open>kfree\<close> pushes the page.\<close>

lemma kfree_push:
  assumes inv: "free_pages s ps" and pa: "kpage s pa" and new: "pa \<notin> set ps"
    and ok: "kfree pa s = Ok u s'"
  shows "free_pages s' (pa # ps)"
proof -
  let ?m = "store64 (memset (mem s) pa 1 4096) pa (freelist s)"
  have s': "s' = s\<lparr>mem := ?m, freelist := pa\<rparr>" using ok kfree_Ok [OF pa] by simp
  have "load64 ?m x = load64 (mem s) x" if "x \<in> set ps" for x
  proof (rule load64_frame)
    fix y assume "in_page x y"
    moreover have "page_aligned x" "page_aligned pa" "pa \<noteq> x"
      using inv pa that new by (auto simp: free_pages_def kpage_def)
    ultimately have "\<not> in_page pa y" by (blast dest: other_page)
    then show "?m y = mem s y" by (simp add: store64_out_page memset_page)
  qed
  then have "run_list ?m (freelist s) ps"
    using inv by (simp add: free_pages_def run_list_frame [of ps ?m "mem s"])
  moreover have "pa \<noteq> 0" using inv pa by (auto simp: free_pages_def kpage_def)
  ultimately show ?thesis
    using inv pa new by (auto simp: s' free_pages_def kpage_def)
qed

text \<open>\<open>kalloc\<close> pops the first page, or returns the null pointer.\<close>

lemma kalloc_empty: "free_pages s [] \<Longrightarrow> kalloc s = Ok 0 s"
  by (simp add: free_pages_def kalloc_def)

lemma kalloc_pop:
  assumes inv: "free_pages s (p # ps)"
  shows "\<exists>s'. kalloc s = Ok p s' \<and> free_pages s' ps \<and> p \<noteq> 0 \<and> kpage s p \<and> p \<notin> set ps
    \<and> kend s' = kend s \<and> (\<forall>x. \<not> in_page p x \<longrightarrow> mem s' x = mem s x)"
proof -
  let ?s = "s\<lparr>freelist := load64 (mem s) p, mem := memset (mem s) p 5 4096\<rparr>"
  have p: "freelist s = p" "p \<noteq> 0" "kpage s p" "p \<notin> set ps"
    using inv by (auto simp: free_pages_def)
  have "load64 (mem ?s) x = load64 (mem s) x" if "x \<in> set ps" for x
  proof (rule load64_frame)
    fix y assume "in_page x y"
    moreover have "page_aligned x" "page_aligned p" "p \<noteq> x"
      using inv that by (auto simp: free_pages_def kpage_def)
    ultimately have "\<not> in_page p y" by (blast dest: other_page)
    then show "mem ?s y = mem s y" by (simp add: memset_page)
  qed
  then have "free_pages ?s ps"
    using inv run_list_frame [of ps "mem ?s" "mem s"] by (auto simp: free_pages_def kpage_def)
  moreover have "kalloc s = Ok p ?s" using p by (simp add: kalloc_def Let_def)
  ultimately show ?thesis using p by (auto simp: memset_page)
qed

text \<open>\<open>kinit\<close> frees every whole page from \<open>end\<close> to \<open>PHYSTOP\<close>.\<close>

lemma page_step:
  assumes "page_aligned p" "page_aligned q" "p < PHYSTOP" "p \<le> q" "p \<noteq> q"
  shows "p + PGSIZE \<le> q"
proof -
  obtain i j where ij: "unat p = 4096 * i" "unat q = 4096 * j"
    using assms(1,2) by (auto simp: page_aligned_unat elim!: dvdE)
  have "unat p < unat q" using assms(4,5) by (simp add: word_le_nat_alt word_unat_eq_iff)
  then have "unat p + 4096 \<le> unat q" using ij by simp
  moreover have "unat (p + PGSIZE) = unat p + 4096"
    using assms(3) by (simp add: PHYSTOP_val PGSIZE_def unat_word_ariths word_less_nat_alt)
  ultimately show ?thesis by (simp add: word_le_nat_alt)
qed

lemma page_aligned_add: "page_aligned p \<Longrightarrow> p < PHYSTOP \<Longrightarrow> page_aligned (p + PGSIZE)"
  by (auto simp: page_aligned_unat PHYSTOP_val PGSIZE_def unat_word_ariths word_less_nat_alt
        dvd_eq_mod_eq_0 [symmetric])

lemma page_aligned_PHYSTOP: "page_aligned PHYSTOP"
  by (simp add: page_aligned_unat PHYSTOP_val)

lemma freerange_loop_pages:
  assumes "free_pages s ps" "page_aligned p" "kend s \<le> p" "\<forall>q \<in> set ps. q < p"
    "p \<le> PHYSTOP"
  shows "\<exists>s' ps'. freerange_loop p PHYSTOP s = Ok () s' \<and> free_pages s' ps'
    \<and> kend s' = kend s
    \<and> set ps' = set ps \<union> {q. page_aligned q \<and> p \<le> q \<and> q < PHYSTOP}"
  using assms
proof (induction p PHYSTOP s arbitrary: ps rule: freerange_loop.induct)
  case (1 p s)
  show ?case
  proof (cases "p = PHYSTOP")
    case True
    then have "\<not> p + PGSIZE \<le> PHYSTOP" by (simp add: PHYSTOP_val PGSIZE_def)
    moreover have "{q. page_aligned q \<and> p \<le> q \<and> q < PHYSTOP} = {}" using True by auto
    ultimately show ?thesis using "1.prems"(1) by (auto simp: freerange_loop.simps [of p])
  next
    case False
    with "1.prems" have p: "p < PHYSTOP" "kpage s p" by (auto simp: kpage_def)
    have le: "p + PGSIZE \<le> PHYSTOP"
      using page_step [of p PHYSTOP] p "1.prems" page_aligned_PHYSTOP by auto
    obtain s1 where s1: "kfree p s = Ok () s1" and k1: "kend s1 = kend s"
      using kfree_Ok [OF p(2)] by simp
    have f1: "free_pages s1 (p # ps)"
      using kfree_push [OF "1.prems"(1) p(2) _ s1] "1.prems"(4) by auto
    have lt: "p < p + PGSIZE"
      using p(1) by (simp add: PHYSTOP_val PGSIZE_def unat_word_ariths word_less_nat_alt)
    have "\<exists>s' ps'. freerange_loop (p + PGSIZE) PHYSTOP s1 = Ok () s' \<and> free_pages s' ps'
      \<and> kend s' = kend s1 \<and> set ps' = set (p # ps) \<union>
          {q. page_aligned q \<and> p + PGSIZE \<le> q \<and> q < PHYSTOP}"
      using le lt p "1.prems" f1 k1 page_aligned_add [of p]
      by (intro "1.hyps" [OF le s1]) auto
    moreover have "set (p # ps) \<union> {q. page_aligned q \<and> p + PGSIZE \<le> q \<and> q < PHYSTOP}
        = set ps \<union> {q. page_aligned q \<and> p \<le> q \<and> q < PHYSTOP}"
      using page_step [OF "1.prems"(2) _ p(1)] "1.prems"(2) p(1) lt by fastforce
    ultimately show ?thesis using le s1 k1 by (simp add: freerange_loop.simps [of p])
  qed
qed

text \<open>Any number of allocations, as a client makes them.\<close>

fun alloc_many :: "('s \<Rightarrow> (u64, 's) res) \<Rightarrow> nat \<Rightarrow> 's \<Rightarrow> (u64 list, 's) res" where
  "alloc_many alloc 0 s = Ok [] s"
| "alloc_many alloc (Suc n) s =
     bnd (alloc s) (\<lambda>p s. bnd (alloc_many alloc n s) (\<lambda>ps s. Ok (p # ps) s))"

section \<open>The allocator as an interface\<close>

locale page_allocator =
  fixes alloc :: "'s \<Rightarrow> (u64, 's) res"
    and free :: "u64 \<Rightarrow> 's \<Rightarrow> (unit, 's) res"
    and avail :: "'s \<Rightarrow> u64 list \<Rightarrow> bool"
    and page :: "'s \<Rightarrow> u64 \<Rightarrow> bool"
    and contents :: "'s \<Rightarrow> bytes"
  assumes alloc_empty: "avail s [] \<Longrightarrow> alloc s = Ok 0 s"
    and alloc_pop: "avail s (p # ps) \<Longrightarrow> \<exists>s'. alloc s = Ok p s' \<and> avail s' ps \<and> p \<noteq> 0
      \<and> page s p \<and> p \<notin> set ps \<and> page s' = page s
      \<and> (\<forall>x. \<not> in_page p x \<longrightarrow> contents s' x = contents s x)"
    and free_push: "avail s ps \<Longrightarrow> page s p \<Longrightarrow> p \<notin> set ps \<Longrightarrow>
      \<exists>s'. free p s = Ok () s' \<and> avail s' (p # ps) \<and> page s' = page s
      \<and> (\<forall>x. \<not> in_page p x \<longrightarrow> contents s' x = contents s x)"
    and free_bad: "\<not> page s p \<Longrightarrow> \<exists>e. free p s = Panic e"
begin

lemma alloc_total: "avail s ps \<Longrightarrow> \<exists>p s'. alloc s = Ok p s'"
  by (cases ps) (auto dest: alloc_empty alloc_pop)

lemma alloc_null_iff: "avail s ps \<Longrightarrow> alloc s = Ok p s' \<Longrightarrow> p = 0 \<longleftrightarrow> ps = []"
  by (cases ps) (auto dest: alloc_empty alloc_pop)

lemma alloc_free:
  assumes "avail s (p # ps)"
  shows "\<exists>s1 s2. alloc s = Ok p s1 \<and> free p s1 = Ok () s2 \<and> avail s2 (p # ps)"
proof -
  obtain s1 where s1: "alloc s = Ok p s1" "avail s1 ps" "page s p" "p \<notin> set ps" "page s1 = page s"
    using alloc_pop [OF assms] by blast
  then show ?thesis using free_push [of s1 ps p] by auto
qed

lemma alloc_many_distinct:
  "avail s ps \<Longrightarrow> distinct ps \<Longrightarrow> n \<le> length ps \<Longrightarrow>
   \<exists>s'. alloc_many alloc n s = Ok (take n ps) s' \<and> avail s' (drop n ps)"
proof (induction n arbitrary: s ps)
  case 0
  then show ?case by simp
next
  case (Suc n)
  then obtain p qs where ps: "ps = p # qs" by (cases ps) auto
  with Suc.prems obtain s1 where "alloc s = Ok p s1" "avail s1 qs"
    using alloc_pop [of s p qs] by auto
  with Suc.IH [of s1 qs] Suc.prems ps show ?case by auto
qed

end

interpretation km: page_allocator kalloc kfree free_pages kpage mem
proof (unfold_locales, goal_cases)
  case (1 s)
  then show ?case by (rule kalloc_empty)
next
  case (2 s p ps)
  then show ?case using kalloc_pop [of s p ps] by (auto simp: kpage_def fun_eq_iff)
next
  case (3 s ps p)
  then show ?case
    using kfree_push [OF 3] kfree_Ok [of s p]
    by (auto simp: kpage_def fun_eq_iff store64_out_page memset_page)
next
  case (4 s p)
  then show ?case by (simp add: kfree_Panic)
qed

section \<open>Properties\<close>

text \<open>A machine on which one page is free.\<close>

definition kalloc_demo :: pmem where
  "kalloc_demo = \<lparr>mem = (\<lambda>_. 0), freelist = 0x80001000, kend = 0x80000000\<rparr>"

text \<open>
  C12. After \<open>kinit\<close> the free list consists of exactly the whole pages between the end of
  the kernel and \<open>PHYSTOP\<close>, each once; initialisation does not panic.
\<close>

theorem kinit_spec:
  assumes "0 < kend s" "kend s \<le> PHYSTOP" "freelist s = 0"
  shows "\<exists>s' ps. kinit s = Ok () s' \<and> run_list (mem s') (freelist s') ps \<and> distinct ps
    \<and> set ps = {q. page_aligned q \<and> kend s \<le> q \<and> q < PHYSTOP}"
proof -
  have n: "unat (kend s) + 4095 < 2 ^ 64"
    using assms(2) by (simp add: word_le_nat_alt PHYSTOP_val)
  note iff = PGROUNDUP_le_iff [OF n]
  have "free_pages s []" using assms by (auto simp: free_pages_def)
  from freerange_loop_pages [OF this page_aligned_PGROUNDUP]
    iff [OF page_aligned_PHYSTOP] iff [OF page_aligned_PGROUNDUP] assms(2)
  obtain s' ps where "freerange_loop (PGROUNDUP (kend s)) PHYSTOP s = Ok () s'"
    "free_pages s' ps" "set ps = {q. page_aligned q \<and> PGROUNDUP (kend s) \<le> q \<and> q < PHYSTOP}"
    by force
  then show ?thesis
    using iff by (auto simp: kinit_def freerange_def free_pages_def)
qed

theorem kinit_spec_witness:
  "\<exists>s' ps. kinit \<lparr>mem = (\<lambda>_. 0), freelist = 0, kend = 0x87FFE001\<rparr> = Ok () s'
    \<and> set ps = {q. page_aligned q \<and> 0x87FFE001 \<le> q \<and> q < PHYSTOP}"
  using kinit_spec [of "\<lparr>mem = (\<lambda>_. 0), freelist = 0, kend = 0x87FFE001\<rparr>"]
  by (auto simp: PHYSTOP_val)

text \<open>
  C11. Allocation never hands out a page twice: \<open>n\<close> calls of \<open>kalloc\<close> return the first \<open>n\<close>
  pages of the free list, all different, aligned and within physical memory, and once the
  list is empty every further call returns the null pointer and changes nothing.
\<close>

theorem kalloc_distinct:
  assumes "free_pages s ps" "n \<le> length ps"
  shows "\<exists>s'. alloc_many kalloc n s = Ok (take n ps) s' \<and> free_pages s' (drop n ps)
    \<and> distinct (take n ps) \<and> (\<forall>p \<in> set (take n ps). p \<noteq> 0 \<and> kpage s p)
    \<and> (n = length ps \<longrightarrow> kalloc s' = Ok 0 s')"
proof -
  have d: "distinct ps" "\<forall>p \<in> set ps. kpage s p" "kend s \<noteq> 0"
    using assms(1) by (auto simp: free_pages_def)
  then have "\<forall>p \<in> set ps. p \<noteq> 0" by (auto simp: kpage_def)
  moreover obtain s' where "alloc_many kalloc n s = Ok (take n ps) s'" "free_pages s' (drop n ps)"
    using km.alloc_many_distinct [OF assms(1) d(1) assms(2)] by blast
  ultimately show ?thesis
    using d kalloc_empty [of s'] by (auto dest: in_set_takeD)
qed

theorem kalloc_distinct_witness:
  "\<exists>s'. alloc_many kalloc 1 \<lparr>mem = (\<lambda>_. 0), freelist = 0x80001000, kend = 0x80000000\<rparr>
     = Ok [0x80001000] s'"
proof -
  have "free_pages \<lparr>mem = (\<lambda>_. 0), freelist = 0x80001000, kend = 0x80000000\<rparr> [0x80001000]"
    by (simp add: free_pages_def kpage_def page_aligned_def PGSIZE_def PHYSTOP_val)
  from kalloc_distinct [OF this, of 1] show ?thesis by auto
qed

text \<open>
  C13. \<open>kfree\<close> accepts exactly the page-aligned addresses of physical memory and panics on
  any other; an accepted page is filled with ones behind the link word, becomes the head of
  the list and is the page the next \<open>kalloc\<close> returns; no other page is written.
\<close>

theorem kfree_kalloc:
  "(\<not> kpage s p \<longrightarrow> kfree p s = Panic ''kfree'')
 \<and> (free_pages s ps \<longrightarrow> kpage s p \<longrightarrow> p \<notin> set ps \<longrightarrow>
     (\<exists>s1 s2. kfree p s = Ok () s1 \<and> free_pages s1 (p # ps) \<and> load64 (mem s1) p = freelist s
        \<and> (\<forall>x. in_page p x \<longrightarrow> 8 \<le> off p x \<longrightarrow> mem s1 x = 1)
        \<and> (\<forall>x. \<not> in_page p x \<longrightarrow> mem s1 x = mem s x)
        \<and> kalloc s1 = Ok p s2 \<and> free_pages s2 ps
        \<and> (\<forall>x. mem s2 x = (if in_page p x then 5 else mem s x))))"
proof (intro conjI impI)
  assume "\<not> kpage s p"
  then show "kfree p s = Panic ''kfree''" by (rule kfree_Panic)
next
  assume f: "free_pages s ps" and k: "kpage s p" and new: "p \<notin> set ps"
  let ?m = "store64 (memset (mem s) p 1 4096) p (freelist s)"
  let ?s1 = "s\<lparr>mem := ?m, freelist := p\<rparr>"
  have s1: "kfree p s = Ok () ?s1" using k by (rule kfree_Ok)
  have f1: "free_pages ?s1 (p # ps)" using kfree_push [OF f k new s1] .
  then have p: "p \<noteq> 0" by (simp add: free_pages_def)
  obtain s2 where s2: "kalloc ?s1 = Ok p s2" "free_pages s2 ps"
    using kalloc_pop [OF f1] by blast
  have "mem s2 x = (if in_page p x then 5 else mem s x)" for x
    using s2(1) p by (auto simp: kalloc_def Let_def memset_page store64_out_page)
  with s1 s2 f1 show "\<exists>s1 s2. kfree p s = Ok () s1 \<and> free_pages s1 (p # ps)
        \<and> load64 (mem s1) p = freelist s
        \<and> (\<forall>x. in_page p x \<longrightarrow> 8 \<le> off p x \<longrightarrow> mem s1 x = 1)
        \<and> (\<forall>x. \<not> in_page p x \<longrightarrow> mem s1 x = mem s x)
        \<and> kalloc s1 = Ok p s2 \<and> free_pages s2 ps
        \<and> (\<forall>x. mem s2 x = (if in_page p x then 5 else mem s x))"
    by (intro exI [of _ ?s1] exI [of _ s2])
      (simp add: load64_store64 store64_out_page memset_page store64_other)
qed

text \<open>In the example one page is free, a second one is freed and allocated again.\<close>

theorem kfree_kalloc_witness:
  "free_pages kalloc_demo [0x80001000] \<and> kfree 0x80002008 kalloc_demo = Panic ''kfree''
    \<and> (\<exists>s1 s2. kfree 0x80002000 kalloc_demo = Ok () s1 \<and> kalloc s1 = Ok 0x80002000 s2
        \<and> free_pages s2 [0x80001000])"
proof -
  have f: "free_pages kalloc_demo [0x80001000]" "kpage kalloc_demo 0x80002000" "\<not> kpage kalloc_demo 0x80002008"
    by (simp_all add: kalloc_demo_def free_pages_def kpage_def page_aligned_def PGSIZE_def PHYSTOP_val)
  from kfree_kalloc [of kalloc_demo "0x80002008" "[]"] f(3)
  have "kfree 0x80002008 kalloc_demo = Panic ''kfree''" by blast
  moreover have "\<exists>s1 s2. kfree 0x80002000 kalloc_demo = Ok () s1 \<and> kalloc s1 = Ok 0x80002000 s2
        \<and> free_pages s2 [0x80001000]"
    using kfree_kalloc [of kalloc_demo "0x80002000" "[0x80001000]"] f(1,2) by fastforce
  ultimately show ?thesis using f(1) by blast
qed

end
