(* ===== verification/Vm.thy ===== *)
theory Vm
  imports Kalloc
begin

text \<open>
  Virtual memory, \<^verbatim>\<open>kernel/vm.c\<close> with the page-table macros of \<^verbatim>\<open>kernel/riscv.h\<close>. A
  page table is the physical address of its root page; its entries are 64-bit words of
  the byte memory, so \<open>walk\<close> reads and allocates real page-table pages. A null pointer
  is the address 0. The C loops over pages end because \<open>walk\<close> panics at \<open>MAXVA\<close>, which
  is also the termination argument here. \<open>freewalk\<close> recurses through the tree; its first
  argument bounds the depth (Sv39 tables have three levels).
\<close>

section \<open>Page-table entries\<close>

definition PTE_V :: u64 where [kconst]: "PTE_V = 1"
definition PTE_R :: u64 where [kconst]: "PTE_R = 2"
definition PTE_W :: u64 where [kconst]: "PTE_W = 4"
definition PTE_X :: u64 where [kconst]: "PTE_X = 8"
definition PTE_U :: u64 where [kconst]: "PTE_U = 16"

definition PA2PTE :: "u64 \<Rightarrow> u64" where
  "PA2PTE pa = push_bit 10 (drop_bit 12 pa)"

definition PTE2PA :: "u64 \<Rightarrow> u64" where
  "PTE2PA pte = push_bit 12 (drop_bit 10 pte)"

definition PTE_FLAGS :: "u64 \<Rightarrow> u64" where
  "PTE_FLAGS pte = pte AND 0x3FF"

definition PX :: "nat \<Rightarrow> u64 \<Rightarrow> u64" where
  "PX level va = drop_bit (12 + 9 * level) va AND 0x1FF"

section \<open>Walking the tree\<close>

fun walk_levels ::
  "nat \<Rightarrow> u64 \<Rightarrow> u64 \<Rightarrow> bool \<Rightarrow> 'z pmem_scheme \<Rightarrow> (u64, 'z pmem_scheme) res" where
  "walk_levels 0 pagetable va alloc s = Ok (pagetable + 8 * PX 0 va) s"
| "walk_levels (Suc l) pagetable va alloc s =
     (let pte = pagetable + 8 * PX (Suc l) va;
          v = load64 (mem s) pte
      in if v AND PTE_V \<noteq> 0 then walk_levels l (PTE2PA v) va alloc s
         else if \<not> alloc then Ok 0 s
         else bnd (kalloc s) (\<lambda>pg s.
           if pg = 0 then Ok 0 s
           else let m = memset (mem s) pg 0 4096
                in walk_levels l pg va alloc (s\<lparr>mem := store64 m pte (PA2PTE pg OR PTE_V)\<rparr>)))"

definition walk :: "u64 \<Rightarrow> u64 \<Rightarrow> bool \<Rightarrow> 'z pmem_scheme \<Rightarrow> (u64, 'z pmem_scheme) res" where
  "walk pagetable va alloc s =
     (if va \<ge> MAXVA then Panic ''walk'' else walk_levels 2 pagetable va alloc s)"

definition walkaddr :: "u64 \<Rightarrow> u64 \<Rightarrow> 'z pmem_scheme \<Rightarrow> (u64, 'z pmem_scheme) res" where
  "walkaddr pagetable va s =
     (if va \<ge> MAXVA then Ok 0 s
      else bnd (walk pagetable va False s) (\<lambda>pte s.
        if pte = 0 then Ok 0 s
        else let v = load64 (mem s) pte
             in if v AND PTE_V = 0 then Ok 0 s
                else if v AND PTE_U = 0 then Ok 0 s
                else Ok (PTE2PA v) s))"

lemma walk_Ok_bound: "walk pagetable va alloc s = Ok pte s' \<Longrightarrow> va < MAXVA"
  by (auto simp: walk_def split: if_splits)

lemma MAXVA_val: "MAXVA = 0x4000000000"
  by (simp add: MAXVA_def push_bit_eq_mult)

lemma page_measure: "a < MAXVA \<Longrightarrow> unat MAXVA - unat (a + PGSIZE) < unat MAXVA - unat a"
  by (simp add: MAXVA_val PGSIZE_def unat_word_ariths word_less_nat_alt)

section \<open>Mapping\<close>

text \<open>The return value is the C code's: 0 on success, -1 on failure.\<close>

function mappages_loop ::
  "u64 \<Rightarrow> u64 \<Rightarrow> u64 \<Rightarrow> u64 \<Rightarrow> u64 \<Rightarrow> 'z pmem_scheme \<Rightarrow> (int, 'z pmem_scheme) res" where
  "mappages_loop pagetable a last_a pa perm s =
     bnd (walk pagetable a True s) (\<lambda>pte s.
       if pte = 0 then Ok (-1) s
       else if load64 (mem s) pte AND PTE_V \<noteq> 0 then Panic ''mappages: remap''
       else let s = s\<lparr>mem := store64 (mem s) pte (PA2PTE pa OR perm OR PTE_V)\<rparr>
            in if a = last_a then Ok 0 s
               else mappages_loop pagetable (a + PGSIZE) last_a (pa + PGSIZE) perm s)"
  by pat_completeness auto
termination
  by (relation "measure (\<lambda>(pt, a, l, pa, pe, s). unat MAXVA - unat a)")
    (auto simp: page_measure dest: walk_Ok_bound)

declare mappages_loop.simps [simp del]

definition mappages ::
  "u64 \<Rightarrow> u64 \<Rightarrow> u64 \<Rightarrow> u64 \<Rightarrow> u64 \<Rightarrow> 'z pmem_scheme \<Rightarrow> (int, 'z pmem_scheme) res" where
  "mappages pagetable va sz pa perm s =
     (if va mod PGSIZE \<noteq> 0 then Panic ''mappages: va not aligned''
      else if sz mod PGSIZE \<noteq> 0 then Panic ''mappages: size not aligned''
      else if sz = 0 then Panic ''mappages: size''
      else mappages_loop pagetable va (va + sz - PGSIZE) pa perm s)"

definition kvmmap ::
  "u64 \<Rightarrow> u64 \<Rightarrow> u64 \<Rightarrow> u64 \<Rightarrow> u64 \<Rightarrow> 'z pmem_scheme \<Rightarrow> (unit, 'z pmem_scheme) res" where
  "kvmmap kpgtbl va pa sz perm s =
     bnd (mappages kpgtbl va sz pa perm s) (\<lambda>r s.
       if r \<noteq> 0 then Panic ''kvmmap'' else Ok () s)"

function uvmunmap_loop ::
  "u64 \<Rightarrow> u64 \<Rightarrow> u64 \<Rightarrow> bool \<Rightarrow> 'z pmem_scheme \<Rightarrow> (unit, 'z pmem_scheme) res" where
  "uvmunmap_loop pagetable a lim do_free s =
     (if a < lim then
        bnd (walk pagetable a False s) (\<lambda>pte s.
          if pte = 0 then Panic ''uvmunmap: walk''
          else let v = load64 (mem s) pte
               in if v AND PTE_V = 0 then Panic ''uvmunmap: not mapped''
                  else if PTE_FLAGS v = PTE_V then Panic ''uvmunmap: not a leaf''
                  else bnd (if do_free then kfree (PTE2PA v) s else Ok () s) (\<lambda>_ s.
                    uvmunmap_loop pagetable (a + PGSIZE) lim do_free
                      (s\<lparr>mem := store64 (mem s) pte 0\<rparr>)))
      else Ok () s)"
  by pat_completeness auto
termination
  by (relation "measure (\<lambda>(pt, a, l, f, s). unat MAXVA - unat a)")
    (auto simp: page_measure dest: walk_Ok_bound)

declare uvmunmap_loop.simps [simp del]

definition uvmunmap ::
  "u64 \<Rightarrow> u64 \<Rightarrow> u64 \<Rightarrow> bool \<Rightarrow> 'z pmem_scheme \<Rightarrow> (unit, 'z pmem_scheme) res" where
  "uvmunmap pagetable va npages do_free s =
     (if va mod PGSIZE \<noteq> 0 then Panic ''uvmunmap: not aligned''
      else uvmunmap_loop pagetable va (va + npages * PGSIZE) do_free s)"

definition uvmcreate :: "'z pmem_scheme \<Rightarrow> (u64, 'z pmem_scheme) res" where
  "uvmcreate s =
     bnd (kalloc s) (\<lambda>pagetable s.
       if pagetable = 0 then Ok 0 s
       else Ok pagetable (s\<lparr>mem := memset (mem s) pagetable 0 4096\<rparr>))"

text \<open>Bytes of a kernel buffer written to, or read from, consecutive addresses.\<close>

fun write_bytes :: "bytes \<Rightarrow> u64 \<Rightarrow> u8 list \<Rightarrow> bytes" where
  "write_bytes m a [] = m"
| "write_bytes m a (b # bs) = write_bytes (m(a := b)) (a + 1) bs"

fun read_bytes :: "bytes \<Rightarrow> u64 \<Rightarrow> nat \<Rightarrow> u8 list" where
  "read_bytes m a 0 = []"
| "read_bytes m a (Suc n) = m a # read_bytes m (a + 1) n"

definition uvmfirst :: "u64 \<Rightarrow> u8 list \<Rightarrow> 'z pmem_scheme \<Rightarrow> (unit, 'z pmem_scheme) res" where
  "uvmfirst pagetable src s =
     (if length src \<ge> 4096 then Panic ''uvmfirst: more than a page''
      else bnd (kalloc s) (\<lambda>pg s.
        let s = s\<lparr>mem := memset (mem s) pg 0 4096\<rparr>
        in bnd (mappages pagetable 0 PGSIZE pg (PTE_W OR PTE_R OR PTE_X OR PTE_U) s) (\<lambda>_ s.
             Ok () (s\<lparr>mem := write_bytes (mem s) pg src\<rparr>))))"

section \<open>Growing, shrinking, copying address spaces\<close>

definition uvmdealloc :: "u64 \<Rightarrow> u64 \<Rightarrow> u64 \<Rightarrow> 'z pmem_scheme \<Rightarrow> (u64, 'z pmem_scheme) res" where
  "uvmdealloc pagetable oldsz newsz s =
     (if newsz \<ge> oldsz then Ok oldsz s
      else if PGROUNDUP newsz < PGROUNDUP oldsz then
        let npages = (PGROUNDUP oldsz - PGROUNDUP newsz) div PGSIZE
        in bnd (uvmunmap pagetable (PGROUNDUP newsz) (scast (ucast npages :: u32)) True s) (\<lambda>_ s.
             Ok newsz s)
      else Ok newsz s)"

lemma mappages_one_Ok_bound:
  "mappages pagetable a PGSIZE pa perm s = Ok r s' \<Longrightarrow> a < MAXVA"
  by (auto simp: mappages_def mappages_loop.simps [of _ a] res_simps dest: walk_Ok_bound
        split: if_splits)

function uvmalloc_loop ::
  "u64 \<Rightarrow> u64 \<Rightarrow> u64 \<Rightarrow> u64 \<Rightarrow> u64 \<Rightarrow> 'z pmem_scheme \<Rightarrow> (u64, 'z pmem_scheme) res" where
  "uvmalloc_loop pagetable a oldsz newsz xperm s =
     (if a < newsz then
        bnd (kalloc s) (\<lambda>pg s.
          if pg = 0 then bnd (uvmdealloc pagetable a oldsz s) (\<lambda>_ s. Ok 0 s)
          else let s = s\<lparr>mem := memset (mem s) pg 0 4096\<rparr>
               in bnd (mappages pagetable a PGSIZE pg (PTE_R OR PTE_U OR xperm) s) (\<lambda>r s.
                    if r \<noteq> 0 then
                      bnd (kfree pg s) (\<lambda>_ s.
                      bnd (uvmdealloc pagetable a oldsz s) (\<lambda>_ s. Ok 0 s))
                    else uvmalloc_loop pagetable (a + PGSIZE) oldsz newsz xperm s))
      else Ok newsz s)"
  by pat_completeness auto
termination
  by (relation "measure (\<lambda>(pt, a, o', n, x, s). unat MAXVA - unat a)")
    (auto simp: page_measure dest: mappages_one_Ok_bound)

declare uvmalloc_loop.simps [simp del]

definition uvmalloc ::
  "u64 \<Rightarrow> u64 \<Rightarrow> u64 \<Rightarrow> u64 \<Rightarrow> 'z pmem_scheme \<Rightarrow> (u64, 'z pmem_scheme) res" where
  "uvmalloc pagetable oldsz newsz xperm s =
     (if newsz < oldsz then Ok oldsz s
      else uvmalloc_loop pagetable (PGROUNDUP oldsz) (PGROUNDUP oldsz) newsz xperm s)"

text \<open>
  \<open>freewalk d\<close> frees a table whose subtrees are at most \<open>d\<close> levels deep; a deeper tree is
  reported as out of fuel. \<open>k\<close> is the number of entries left to visit.
\<close>

fun freewalk :: "nat \<Rightarrow> u64 \<Rightarrow> 'z pmem_scheme \<Rightarrow> (unit, 'z pmem_scheme) res"
  and freewalk_loop :: "nat \<Rightarrow> u64 \<Rightarrow> nat \<Rightarrow> 'z pmem_scheme \<Rightarrow> (unit, 'z pmem_scheme) res" where
  "freewalk 0 pagetable s = Panic ''freewalk: out of fuel''"
| "freewalk (Suc d) pagetable s =
     bnd (freewalk_loop d pagetable 512 s) (\<lambda>_ s. kfree pagetable s)"
| "freewalk_loop d pagetable 0 s = Ok () s"
| "freewalk_loop d pagetable (Suc k) s =
     (let slot = pagetable + 8 * of_nat (511 - k);
          pte = load64 (mem s) slot
      in if pte AND PTE_V \<noteq> 0 \<and> pte AND (PTE_R OR PTE_W OR PTE_X) = 0 then
           bnd (freewalk d (PTE2PA pte) s) (\<lambda>_ s.
             freewalk_loop d pagetable k (s\<lparr>mem := store64 (mem s) slot 0\<rparr>))
         else if pte AND PTE_V \<noteq> 0 then Panic ''freewalk: leaf''
         else freewalk_loop d pagetable k s)"

definition uvmfree :: "u64 \<Rightarrow> u64 \<Rightarrow> 'z pmem_scheme \<Rightarrow> (unit, 'z pmem_scheme) res" where
  "uvmfree pagetable sz s =
     bnd (if sz > 0 then uvmunmap pagetable 0 (PGROUNDUP sz div PGSIZE) True s else Ok () s)
       (\<lambda>_ s. freewalk 3 pagetable s)"

function uvmcopy_loop ::
  "u64 \<Rightarrow> u64 \<Rightarrow> u64 \<Rightarrow> u64 \<Rightarrow> 'z pmem_scheme \<Rightarrow> (int, 'z pmem_scheme) res" where
  "uvmcopy_loop old new i sz s =
     (if i < sz then
        bnd (walk old i False s) (\<lambda>pte s.
          if pte = 0 then Panic ''uvmcopy: pte should exist''
          else let v = load64 (mem s) pte
               in if v AND PTE_V = 0 then Panic ''uvmcopy: page not present''
                  else bnd (kalloc s) (\<lambda>pg s.
                    if pg = 0 then
                      bnd (uvmunmap new 0 (i div PGSIZE) True s) (\<lambda>_ s. Ok (-1) s)
                    else let s = s\<lparr>mem := memmove (mem s) pg (PTE2PA v) 4096\<rparr>
                         in bnd (mappages new i PGSIZE pg (PTE_FLAGS v) s) (\<lambda>r s.
                              if r \<noteq> 0 then
                                bnd (kfree pg s) (\<lambda>_ s.
                                bnd (uvmunmap new 0 (i div PGSIZE) True s) (\<lambda>_ s. Ok (-1) s))
                              else uvmcopy_loop old new (i + PGSIZE) sz s)))
      else Ok 0 s)"
  by pat_completeness auto
termination
  by (relation "measure (\<lambda>(ol, n, i, sz, s). unat MAXVA - unat i)")
    (auto simp: page_measure dest: walk_Ok_bound)

declare uvmcopy_loop.simps [simp del]

definition uvmcopy :: "u64 \<Rightarrow> u64 \<Rightarrow> u64 \<Rightarrow> 'z pmem_scheme \<Rightarrow> (int, 'z pmem_scheme) res" where
  "uvmcopy old new sz s = uvmcopy_loop old new 0 sz s"

definition uvmclear :: "u64 \<Rightarrow> u64 \<Rightarrow> 'z pmem_scheme \<Rightarrow> (unit, 'z pmem_scheme) res" where
  "uvmclear pagetable va s =
     bnd (walk pagetable va False s) (\<lambda>pte s.
       if pte = 0 then Panic ''uvmclear''
       else Ok () (s\<lparr>mem := store64 (mem s) pte (load64 (mem s) pte AND NOT PTE_U)\<rparr>))"

section \<open>Copying between kernel and user space\<close>

text \<open>The size of the next chunk: to the end of the page, or what is left.\<close>

definition chunk :: "u64 \<Rightarrow> nat \<Rightarrow> nat" where
  "chunk va len = (let n = unat (PGSIZE - (va - PGROUNDDOWN va)) in if n > len then len else n)"

lemma page_offset_less: "unat (va - PGROUNDDOWN va) < 4096"
proof -
  have "va - PGROUNDDOWN va = va mod 4096" by (simp add: PGROUNDDOWN_eq)
  then show ?thesis by (simp add: unat_mod)
qed

lemma chunk_pos: "0 < len \<Longrightarrow> 0 < chunk va len"
proof -
  have "unat (PGSIZE - (va - PGROUNDDOWN va)) = 4096 - unat (va - PGROUNDDOWN va)"
    using page_offset_less [of va] by (simp add: PGSIZE_def unat_sub word_le_nat_alt)
  then show "0 < len \<Longrightarrow> 0 < chunk va len"
    using page_offset_less [of va] by (simp add: chunk_def Let_def)
qed

lemma chunk_le: "chunk va len \<le> len"
  by (simp add: chunk_def Let_def)

function copyout :: "u64 \<Rightarrow> u64 \<Rightarrow> u8 list \<Rightarrow> 'z pmem_scheme \<Rightarrow> (int, 'z pmem_scheme) res" where
  "copyout pagetable dstva src s =
     (if src = [] then Ok 0 s
      else let va0 = PGROUNDDOWN dstva
           in if va0 \<ge> MAXVA then Ok (-1) s
              else bnd (walk pagetable va0 False s) (\<lambda>pte s.
                let v = load64 (mem s) pte
                in if pte = 0 \<or> v AND PTE_V = 0 \<or> v AND PTE_U = 0 \<or> v AND PTE_W = 0
                   then Ok (-1) s
                   else let n = chunk dstva (length src)
                        in copyout pagetable (va0 + PGSIZE) (drop n src)
                             (s\<lparr>mem := write_bytes (mem s) (PTE2PA v + (dstva - va0)) (take n src)\<rparr>)))"
  by pat_completeness auto
termination
  by (relation "measure (\<lambda>(pt, va, src, s). length src)") (auto simp: chunk_pos)

declare copyout.simps [simp del]

text \<open>\<open>copyin\<close> and \<open>copyinstr\<close> return their code and the bytes stored in \<open>dst\<close>.\<close>

function copyin :: "u64 \<Rightarrow> u64 \<Rightarrow> nat \<Rightarrow> 'z pmem_scheme \<Rightarrow> (int \<times> u8 list, 'z pmem_scheme) res" where
  "copyin pagetable srcva len s =
     (if len = 0 then Ok (0, []) s
      else let va0 = PGROUNDDOWN srcva
           in bnd (walkaddr pagetable va0 s) (\<lambda>pa0 s.
                if pa0 = 0 then Ok (-1, []) s
                else let n = chunk srcva len;
                         bs = read_bytes (mem s) (pa0 + (srcva - va0)) n
                     in bnd (copyin pagetable (va0 + PGSIZE) (len - n) s) (\<lambda>(r, rest) s.
                          Ok (r, bs @ rest) s)))"
  by pat_completeness auto
termination
  by (relation "measure (\<lambda>(pt, va, len, s). len)") (auto simp: chunk_pos)

declare copyin.simps [simp del]

text \<open>The inner loop of \<open>copyinstr\<close>: the bytes stored and whether a NUL was met.\<close>

fun copy_until_nul :: "u8 list \<Rightarrow> u8 list \<times> bool" where
  "copy_until_nul [] = ([], False)"
| "copy_until_nul (c # cs) =
     (if c = 0 then ([0], True) else (let (ds, g) = copy_until_nul cs in (c # ds, g)))"

function copyinstr :: "u64 \<Rightarrow> u64 \<Rightarrow> nat \<Rightarrow> 'z pmem_scheme \<Rightarrow> (int \<times> u8 list, 'z pmem_scheme) res" where
  "copyinstr pagetable srcva max_n s =
     (if max_n = 0 then Ok (-1, []) s
      else let va0 = PGROUNDDOWN srcva
           in bnd (walkaddr pagetable va0 s) (\<lambda>pa0 s.
                if pa0 = 0 then Ok (-1, []) s
                else let n = chunk srcva max_n;
                         (ds, got) = copy_until_nul (read_bytes (mem s) (pa0 + (srcva - va0)) n)
                     in if got then Ok (0, ds) s
                        else bnd (copyinstr pagetable (va0 + PGSIZE) (max_n - n) s) (\<lambda>(r, rest) s.
                               Ok (r, ds @ rest) s)))"
  by pat_completeness auto
termination
  by (relation "measure (\<lambda>(pt, va, len, s). len)") (auto simp: chunk_pos)

declare copyinstr.simps [simp del]

end
