(* ===== verification/Pagetable.thy ===== *)
theory Pagetable
  imports Vm
begin

text \<open>
  Correctness of the Sv39 page tables of \<^verbatim>\<open>kernel/vm.c\<close>. A page-table page is named by the
  indices that lead to it from the root, the last one first; \<open>tbl\<close> reads its address from
  memory. The abstract view of a page table is the function \<open>pte_of\<close> from virtual addresses
  to leaf entries. The lemmas show that the tree stays a tree under every operation and
  that the operations change the abstract view exactly where they should.
\<close>

section \<open>Entries and addresses\<close>

lemma unat_PX: "unat (PX l va) = unat va div 2 ^ (12 + 9 * l) mod 512"
proof -
  have "(0x1FF :: u64) = mask 9" by (simp add: mask_eq_exp_minus_1)
  then have "PX l va = take_bit 9 (drop_bit (12 + 9 * l) va)"
    by (simp add: PX_def take_bit_eq_mask)
  moreover have "unat va < 2 ^ 64" using unsigned_less [of va] by simp
  ultimately show ?thesis
    by (simp only: unsigned_take_bit_eq unsigned_drop_bit_eq) (simp add: take_bit_eq_mod drop_bit_eq_div)
qed

definition px :: "nat \<Rightarrow> u64 \<Rightarrow> nat" where
  "px l va = unat (PX l va)"

lemma px_less [simp]: "px l va < 512"
  by (simp add: px_def unat_PX)

lemma of_nat_px [simp]: "of_nat (px l va) = PX l va"
  by (simp add: px_def)

lemma unat_less_MAXVA: "va < MAXVA \<longleftrightarrow> unat va < 2 ^ 38"
  by (simp add: MAXVA_val word_less_nat_alt)

lemma px_page:
  assumes "va < MAXVA"
  shows "unat va div 4096 = px 0 va + 512 * (px 1 va + 512 * px 2 va)"
proof -
  define n where "n = unat va div 4096"
  have n: "n < 2 ^ 26" using assms by (simp add: unat_less_MAXVA n_def less_mult_imp_div_less)
  have "px 0 va = n mod 512" "px 1 va = n div 512 mod 512" "px 2 va = n div 512 div 512 mod 512"
    by (simp_all add: px_def unat_PX n_def div_mult2_eq [symmetric])
  moreover have "n div 512 div 512 mod 512 = n div 512 div 512"
    using n by (simp add: div_mult2_eq [symmetric] less_mult_imp_div_less)
  moreover have "n = n mod 512 + 512 * (n div 512)"
    "n div 512 = n div 512 mod 512 + 512 * (n div 512 div 512)" by simp_all
  ultimately show ?thesis unfolding n_def [symmetric] by metis
qed

text \<open>Two addresses share their three indices exactly when they lie in the same page.\<close>

lemma px_eq_iff:
  assumes "va < MAXVA" "vb < MAXVA"
  shows "px 0 va = px 0 vb \<and> px 1 va = px 1 vb \<and> px 2 va = px 2 vb
    \<longleftrightarrow> unat va div 4096 = unat vb div 4096"
proof
  assume "px 0 va = px 0 vb \<and> px 1 va = px 1 vb \<and> px 2 va = px 2 vb"
  then show "unat va div 4096 = unat vb div 4096" using assms by (simp add: px_page)
next
  assume "unat va div 4096 = unat vb div 4096"
  then have "unat va div 2 ^ (12 + 9 * l) = unat vb div 2 ^ (12 + 9 * l)" for l
    by (simp add: power_add div_mult2_eq)
  then show "px 0 va = px 0 vb \<and> px 1 va = px 1 vb \<and> px 2 va = px 2 vb"
    unfolding px_def unat_PX by metis
qed

definition slot :: "u64 \<Rightarrow> nat \<Rightarrow> u64" where
  "slot a i = a + 8 * of_nat i"

lemma slot_px: "slot a (px l va) = a + 8 * PX l va"
  by (simp add: slot_def)

lemma slot_add: "slot a i + of_nat k = a + of_nat (8 * i + k)"
  by (simp add: slot_def)

lemma slot_byte_in_page: "i < 512 \<Longrightarrow> k < 8 \<Longrightarrow> in_page a (slot a i + of_nat k)"
  unfolding slot_add by (rule in_page_add) simp

lemma store_slot_out: "i < 512 \<Longrightarrow> \<not> in_page a x \<Longrightarrow> store64 m (slot a i) v x = m x"
proof (rule store64_other, rule ccontr)
  assume i: "i < 512" and x: "\<not> in_page a x" and "\<not> 8 \<le> off (slot a i) x"
  then obtain k where "k < 8" "off (slot a i) x = k" by auto
  then have "x = slot a i + of_nat k" by (simp add: off_eq_iff)
  with slot_byte_in_page [OF i \<open>k < 8\<close>] x show False by blast
qed

lemma load_slot_cong:
  assumes "i < 512" "\<And>x. in_page a x \<Longrightarrow> m' x = m x"
  shows "load64 m' (slot a i) = load64 m (slot a i)"
  using assms slot_byte_in_page by (intro load64_cong) auto

lemma load_store_slot:
  assumes "i < 512" "j < 512"
  shows "load64 (store64 m (slot a i) v) (slot a j) = (if i = j then v else load64 m (slot a j))"
proof (cases "i = j")
  case False
  have "store64 m (slot a i) v (slot a j + of_nat k) = m (slot a j + of_nat k)" if "k < 8" for k
  proof (rule store64_other, rule ccontr)
    assume "\<not> 8 \<le> off (slot a i) (slot a j + of_nat k)"
    then obtain d where d: "d < 8" "off (slot a i) (slot a j + of_nat k) = d" by auto
    then have "a + of_nat (8 * j + k) = a + (of_nat (8 * i + d) :: u64)"
      using off_eq_iff [of d "slot a i"] by (simp add: slot_add [symmetric] del: of_nat_add)
    then have "(of_nat (8 * j + k) :: u64) = of_nat (8 * i + d)" by simp
    then have "8 * j + k = 8 * i + d"
      using assms that d(1) unat_of_nat_lt [of "8 * j + k", where 'a = 64]
        unat_of_nat_lt [of "8 * i + d", where 'a = 64] by simp
    then have "(8 * j + k) div 8 = (8 * i + d) div 8" by simp
    with that d(1) False show False by simp
  qed
  with False show ?thesis by (simp cong: load64_cong)
qed simp

lemma load_zero_page: "i < 512 \<Longrightarrow> load64 (memset m p 0 4096) (slot p i) = 0"
proof -
  assume "i < 512"
  then have "load64 (memset m p 0 4096) (slot p i) = load64 (\<lambda>_. 0) (slot p i)"
    by (intro load64_cong) (simp add: memset_page slot_byte_in_page)
  then show ?thesis by simp
qed

text \<open>A leaf entry gives back the page and the permission bits it was made from.\<close>

lemma less_1024_bit: "f < 0x400 \<Longrightarrow> bit f n \<Longrightarrow> n < 10" for f :: u64
proof (rule ccontr)
  assume f: "f < 0x400" "bit f n" and "\<not> n < 10"
  have "f = take_bit 10 f"
    using f(1) by (simp add: take_bit_eq_mod word_arith_nat_mod word_less_nat_alt)
  with f(2) have "n < 10" by (metis bit_take_bit_iff)
  with \<open>\<not> n < 10\<close> show False by simp
qed

lemma PTE2PA_PA2PTE:
  assumes "f < 0x400"
  shows "PTE2PA (PA2PTE pa OR f) = PGROUNDDOWN pa"
proof -
  have "(4095 :: u64) = mask 12" by (simp add: mask_eq_exp_minus_1)
  then show ?thesis
    using less_1024_bit [OF assms]
    by (auto simp: PTE2PA_def PA2PTE_def PGROUNDDOWN_def PGSIZE_def bit_eq_iff bit_simps)
qed

lemma PTE_FLAGS_PA2PTE:
  assumes "f < 0x400"
  shows "PTE_FLAGS (PA2PTE pa OR f) = f"
proof -
  have "(0x3FF :: u64) = mask 10" by (simp add: mask_eq_exp_minus_1)
  then show ?thesis
    using less_1024_bit [OF assms]
    by (auto simp: PTE_FLAGS_def PA2PTE_def bit_eq_iff bit_simps)
qed

lemma PTE_V_OR [simp]: "(x OR PTE_V) AND PTE_V \<noteq> 0"
proof -
  have "(x OR PTE_V) AND PTE_V = PTE_V" by (auto simp: bit_eq_iff bit_simps)
  then show ?thesis by (simp add: PTE_V_def)
qed

lemma or_less_1024: "f < 0x400 \<Longrightarrow> g < 0x400 \<Longrightarrow> f OR g < 0x400" for f g :: u64
proof -
  assume "f < 0x400" "g < 0x400"
  then have "f OR g = take_bit 10 (f OR g)"
    using less_1024_bit by (auto simp: bit_eq_iff bit_simps)
  then have "unat (f OR g) = take_bit 10 (unat (f OR g))" by (metis unsigned_take_bit_eq)
  then show ?thesis by (simp add: word_less_nat_alt take_bit_eq_mod)
qed

text \<open>The entry \<open>mappages\<close> writes.\<close>

lemma leaf_entry:
  assumes "perm < 0x400" "page_aligned p"
  shows "PTE2PA (PA2PTE p OR perm OR PTE_V) = p" "PTE_FLAGS (PA2PTE p OR perm OR PTE_V) = perm OR PTE_V"
    "(PA2PTE p OR perm OR PTE_V) AND PTE_V \<noteq> 0"
proof -
  have "perm OR PTE_V < 0x400" using assms(1) by (intro or_less_1024) (simp_all add: PTE_V_def)
  then show "PTE2PA (PA2PTE p OR perm OR PTE_V) = p" "PTE_FLAGS (PA2PTE p OR perm OR PTE_V) = perm OR PTE_V"
    using PTE2PA_PA2PTE PTE_FLAGS_PA2PTE assms(2)
    by (simp_all add: PGROUNDDOWN_eq page_aligned_def PGSIZE_def)
  show "(PA2PTE p OR perm OR PTE_V) AND PTE_V \<noteq> 0"
    using PTE_V_OR [of "PA2PTE p OR perm"] by (simp add: or.assoc)
qed

section \<open>The tree\<close>

text \<open>\<open>same_on S\<close> and \<open>same_off S\<close>: two memories agree on, or outside, the pages of \<open>S\<close>.\<close>

definition same_on :: "u64 set \<Rightarrow> bytes \<Rightarrow> bytes \<Rightarrow> bool" where
  "same_on S m m' \<longleftrightarrow> (\<forall>a \<in> S. \<forall>x. in_page a x \<longrightarrow> m' x = m x)"

definition same_off :: "u64 set \<Rightarrow> bytes \<Rightarrow> bytes \<Rightarrow> bool" where
  "same_off S m m' \<longleftrightarrow> (\<forall>x. (\<forall>a \<in> S. \<not> in_page a x) \<longrightarrow> m' x = m x)"

lemma same_off_refl [simp]: "same_off S m m"
  by (simp add: same_off_def)

lemma same_off_trans: "same_off S m m1 \<Longrightarrow> same_off T m1 m2 \<Longrightarrow> same_off (S \<union> T) m m2"
  by (auto simp: same_off_def)

lemma same_off_mono: "same_off S m m' \<Longrightarrow> S \<subseteq> T \<Longrightarrow> same_off T m m'"
  by (auto simp: same_off_def)

lemma same_off_on:
  assumes "same_off S m m'" "S \<inter> T = {}" "\<And>a. a \<in> S \<union> T \<Longrightarrow> page_aligned a"
  shows "same_on T m m'"
  using assms unfolding same_on_def same_off_def by (metis UnI1 UnI2 disjoint_iff in_page_unique)

lemma same_off_memset: "same_off {p} m (memset m p c 4096)"
  by (auto simp: same_off_def memset_page)

lemma same_off_store: "i < 512 \<Longrightarrow> same_off {a} m (store64 m (slot a i) v)"
  by (auto simp: same_off_def store_slot_out)

fun tbl :: "bytes \<Rightarrow> u64 \<Rightarrow> nat list \<Rightarrow> u64 option" where
  "tbl m pt [] = Some pt"
| "tbl m pt (i # p) =
     (case tbl m pt p of
        None \<Rightarrow> None
      | Some a \<Rightarrow> let v = load64 m (slot a i) in if v AND PTE_V \<noteq> 0 then Some (PTE2PA v) else None)"

definition is_path :: "nat list \<Rightarrow> bool" where
  "is_path p \<longleftrightarrow> length p \<le> 2 \<and> (\<forall>i \<in> set p. i < 512)"

lemma is_path_simps [simp]:
  "is_path []" "is_path [px 1 va, px 2 va]" "is_path [px (Suc 0) va, px 2 va]" "is_path [px 2 va]"
  "is_path (i # p) \<longleftrightarrow> i < 512 \<and> is_path p \<and> length p < 2"
  by (auto simp: is_path_def)

definition tables :: "bytes \<Rightarrow> u64 \<Rightarrow> u64 set" where
  "tables m pt = {a. \<exists>p. is_path p \<and> tbl m pt p = Some a}"

text \<open>An entry above the leaves points to a table and grants nothing itself.\<close>

definition is_link :: "u64 \<Rightarrow> bool" where
  "is_link v \<longleftrightarrow> v AND PTE_V = 0 \<or> v AND (PTE_R OR PTE_W OR PTE_X) = 0"

definition pt_wf :: "bytes \<Rightarrow> u64 \<Rightarrow> bool" where
  "pt_wf m pt \<longleftrightarrow> (\<forall>a \<in> tables m pt. page_aligned a)
     \<and> (\<forall>p q a. is_path p \<longrightarrow> is_path q \<longrightarrow> tbl m pt p = Some a \<longrightarrow> tbl m pt q = Some a \<longrightarrow> p = q)
     \<and> (\<forall>p i a. is_path (i # p) \<longrightarrow> tbl m pt p = Some a \<longrightarrow> is_link (load64 m (slot a i)))"

text \<open>The address and the value of the leaf entry for a virtual address; 0 if there is none.\<close>

definition leaf :: "bytes \<Rightarrow> u64 \<Rightarrow> u64 \<Rightarrow> u64 option" where
  "leaf m pt va = map_option (\<lambda>a. slot a (px 0 va)) (tbl m pt [px 1 va, px 2 va])"

definition pte_of :: "bytes \<Rightarrow> u64 \<Rightarrow> u64 \<Rightarrow> u64" where
  "pte_of m pt va = (case leaf m pt va of None \<Rightarrow> 0 | Some a \<Rightarrow> load64 m a)"

lemma tablesI: "is_path p \<Longrightarrow> tbl m pt p = Some a \<Longrightarrow> a \<in> tables m pt"
  by (auto simp: tables_def)

lemma root_table [simp]: "pt \<in> tables m pt"
  by (auto simp: tables_def intro: exI [of _ "[]"])

lemma pt_wf_aligned: "pt_wf m pt \<Longrightarrow> a \<in> tables m pt \<Longrightarrow> page_aligned a"
  by (simp add: pt_wf_def)

lemma pt_wf_unique:
  "pt_wf m pt \<Longrightarrow> is_path p \<Longrightarrow> is_path q \<Longrightarrow> tbl m pt p = Some a \<Longrightarrow> tbl m pt q = Some a \<Longrightarrow> p = q"
  by (auto simp: pt_wf_def)

lemma pt_wf_link:
  "pt_wf m pt \<Longrightarrow> is_path (i # p) \<Longrightarrow> tbl m pt p = Some a \<Longrightarrow> is_link (load64 m (slot a i))"
  by (auto simp: pt_wf_def)

text \<open>Without allocation \<open>walk\<close> only reads.\<close>

lemma walk_ro:
  "va < MAXVA \<Longrightarrow> walk pt va False s = Ok (case leaf (mem s) pt va of None \<Rightarrow> 0 | Some a \<Rightarrow> a) s"
  by (auto simp: walk_def leaf_def numeral_2_eq_2 slot_px Let_def split: option.splits)

lemma tbl_cong:
  assumes "same_on (tables m pt) m m'" "is_path p"
  shows "tbl m' pt p = tbl m pt p"
  using assms(2)
proof (induction p)
  case (Cons i p)
  then have IH: "tbl m' pt p = tbl m pt p" and i: "i < 512" "is_path p" by auto
  show ?case
  proof (cases "tbl m pt p")
    case (Some a)
    then have "a \<in> tables m pt" using i by (auto simp: tables_def)
    then have "load64 m' (slot a i) = load64 m (slot a i)"
      using assms(1) i(1) by (intro load_slot_cong) (auto simp: same_on_def)
    with IH Some show ?thesis by simp
  qed (use IH in simp)
qed simp

lemma same_on_tree:
  assumes "same_on (tables m pt) m m'"
  shows "tables m' pt = tables m pt" "pt_wf m' pt = pt_wf m pt" "leaf m' pt va = leaf m pt va"
    "pte_of m' pt va = pte_of m pt va"
proof -
  note tc = tbl_cong [OF assms]
  show t: "tables m' pt = tables m pt" by (auto simp: tables_def tc)
  have ld: "load64 m' (slot a i) = load64 m (slot a i)"
    if "is_path (i # p)" "tbl m pt p = Some a" for a i p
    using assms that tablesI [of p m pt a] by (intro load_slot_cong) (auto simp: same_on_def)
  have "(\<forall>p i a. is_path (i # p) \<longrightarrow> tbl m' pt p = Some a \<longrightarrow> is_link (load64 m' (slot a i)))
    = (\<forall>p i a. is_path (i # p) \<longrightarrow> tbl m pt p = Some a \<longrightarrow> is_link (load64 m (slot a i)))"
  proof (intro iff_allI imp_cong refl)
    fix p i a assume "is_path (i # p)"
    then show "(tbl m' pt p = Some a) = (tbl m pt p = Some a)" by (simp add: tc)
    assume "tbl m pt p = Some a"
    with \<open>is_path (i # p)\<close> show "is_link (load64 m' (slot a i)) = is_link (load64 m (slot a i))"
      by (simp only: ld)
  qed
  then show "pt_wf m' pt = pt_wf m pt" by (simp add: pt_wf_def t tc cong: imp_cong)
  show l: "leaf m' pt va = leaf m pt va" by (simp add: leaf_def tc del: tbl.simps)
  show "pte_of m' pt va = pte_of m pt va"
  proof (cases "leaf m pt va")
    case (Some a)
    then obtain b where b: "tbl m pt [px 1 va, px 2 va] = Some b" "a = slot b (px 0 va)"
      by (auto simp: leaf_def simp del: tbl.simps)
    then have "b \<in> tables m pt" using tablesI [OF _ b(1)] by simp
    then have "load64 m' a = load64 m a"
      using assms unfolding b(2) by (intro load_slot_cong) (auto simp: same_on_def)
    with Some l show ?thesis by (simp add: pte_of_def)
  qed (use l in \<open>simp add: pte_of_def\<close>)
qed

text \<open>Storing one entry of a table.\<close>

lemma load_after_store:
  assumes wf: "pt_wf m pt" and p: "is_path p" "tbl m pt p = Some a" "i < 512"
    and q: "is_path q" "tbl m pt q = Some b" "j < 512"
  shows "load64 (store64 m (slot a i) v) (slot b j)
    = (if q = p \<and> j = i then v else load64 m (slot b j))"
proof (cases "q = p")
  case True
  with p q show ?thesis by (auto simp: load_store_slot)
next
  case False
  then have "a \<noteq> b" using pt_wf_unique [OF wf p(1) q(1) p(2)] q(2) by auto
  then have "\<not> in_page a x" if "in_page b x" for x
    using that pt_wf_aligned [OF wf tablesI [OF p(1,2)]] pt_wf_aligned [OF wf tablesI [OF q(1,2)]]
    by (blast dest: in_page_unique)
  then have "load64 (store64 m (slot a i) v) (slot b j) = load64 m (slot b j)"
    using p(3) q(3) by (intro load_slot_cong) (auto simp: store_slot_out)
  with False show ?thesis by simp
qed

lemma tbl_store_other:
  assumes wf: "pt_wf m pt" and p: "is_path p" "tbl m pt p = Some a" "i < 512"
  shows "is_path q \<Longrightarrow> \<nexists>r. q = r @ i # p \<Longrightarrow> tbl (store64 m (slot a i) v) pt q = tbl m pt q"
proof (induction q)
  case (Cons j q)
  have "\<nexists>r. q = r @ i # p" using Cons.prems(2) by (metis append_Cons)
  with Cons have IH: "tbl (store64 m (slot a i) v) pt q = tbl m pt q" by simp
  have ne: "\<not> (q = p \<and> j = i)" using Cons.prems(2) by auto
  show ?case
  proof (cases "tbl m pt q")
    case (Some b)
    have "load64 (store64 m (slot a i) v) (slot b j) = load64 m (slot b j)"
      using load_after_store [OF wf p _ Some, of j v] Cons.prems(1) ne by auto
    with IH Some show ?thesis by simp
  qed (use IH in simp)
qed simp

text \<open>Storing a leaf entry changes the view at one page only.\<close>

lemma leaf_SomeE:
  assumes "leaf m pt va = Some x"
  obtains a where "tbl m pt [px 1 va, px 2 va] = Some a" "x = slot a (px 0 va)"
  using assms by (auto simp: leaf_def simp del: tbl.simps)

lemma store_leaf:
  fixes v :: u64
  assumes wf: "pt_wf m pt" and l: "leaf m pt va = Some x"
  defines "m' \<equiv> store64 m x v"
  shows "tables m' pt = tables m pt" "pt_wf m' pt" "leaf m' pt = leaf m pt"
    "same_off (tables m pt) m m'"
    "va < MAXVA \<Longrightarrow> vb < MAXVA \<Longrightarrow>
       pte_of m' pt vb = (if unat vb div 4096 = unat va div 4096 then v else pte_of m pt vb)"
proof -
  from l obtain a where a: "tbl m pt [px 1 va, px 2 va] = Some a" "x = slot a (px 0 va)"
    by (rule leaf_SomeE)
  have pth: "is_path [px 1 va, px 2 va]" by simp
  have tc: "tbl m' pt q = tbl m pt q" if "is_path q" for q
  proof -
    have "q \<noteq> r @ px 0 va # [px 1 va, px 2 va]" for r using that by (auto simp: is_path_def)
    then show ?thesis
      using tbl_store_other [OF wf pth a(1) px_less that] unfolding m'_def a(2) by blast
  qed
  show t: "tables m' pt = tables m pt" by (auto simp: tables_def tc)
  have ld: "load64 m' (slot b j) = load64 m (slot b j)"
    if "is_path (j # q)" "tbl m pt q = Some b" for b j q
    using load_after_store [OF wf pth a(1) px_less _ that(2), of j] that(1) unfolding m'_def a(2) by auto
  have "is_link (load64 m' (slot b j))" if "is_path (j # q)" "tbl m' pt q = Some b" for b j q
    using that ld [of j q b] pt_wf_link [OF wf, of j q b] tc [of q] by simp
  then show "pt_wf m' pt"
    using pt_wf_aligned [OF wf] pt_wf_unique [OF wf] tc unfolding pt_wf_def t by metis
  show lf: "leaf m' pt = leaf m pt" by (simp add: leaf_def fun_eq_iff tc del: tbl.simps)
  have "same_off {a} m m'" unfolding m'_def a(2) by (simp add: same_off_store)
  then show "same_off (tables m pt) m m'"
    using tablesI [OF pth a(1)] by (auto intro: same_off_mono)
  show "pte_of m' pt vb = (if unat vb div 4096 = unat va div 4096 then v else pte_of m pt vb)"
    if "va < MAXVA" "vb < MAXVA"
  proof (cases "leaf m pt vb")
    case None
    have "unat vb div 4096 \<noteq> unat va div 4096"
    proof
      assume "unat vb div 4096 = unat va div 4096"
      then have "leaf m pt vb \<noteq> None"
        using px_eq_iff [OF that] a(1) by (simp add: leaf_def del: tbl.simps)
      with None show False by simp
    qed
    with None lf show ?thesis by (simp add: pte_of_def)
  next
    case (Some y)
    then obtain b where b: "tbl m pt [px 1 vb, px 2 vb] = Some b" "y = slot b (px 0 vb)"
      by (rule leaf_SomeE)
    have "load64 m' y = (if [px 1 vb, px 2 vb] = [px 1 va, px 2 va] \<and> px 0 vb = px 0 va then v
        else load64 m y)"
      unfolding m'_def a(2) b(2) by (rule load_after_store [OF wf pth a(1) px_less _ b(1)]) simp_all
    moreover have "[px 1 vb, px 2 vb] = [px 1 va, px 2 va] \<and> px 0 vb = px 0 va
        \<longleftrightarrow> unat vb div 4096 = unat va div 4096"
      unfolding px_eq_iff [OF that(2,1), symmetric] by auto
    ultimately show ?thesis using Some lf by (simp only: pte_of_def option.case)
  qed
qed

text \<open>Hanging a fresh zeroed page into an empty entry changes nothing in the view.\<close>

definition linkable :: "bytes \<Rightarrow> u64 \<Rightarrow> nat list \<Rightarrow> u64 \<Rightarrow> nat \<Rightarrow> u64 \<Rightarrow> bool" where
  "linkable m pt p a i n \<longleftrightarrow> pt_wf m pt \<and> is_path (i # p) \<and> tbl m pt p = Some a
     \<and> load64 m (slot a i) AND PTE_V = 0 \<and> page_aligned n \<and> n \<notin> tables m pt
     \<and> (\<forall>x. in_page n x \<longrightarrow> m x = 0)"

lemma linkableD:
  assumes "linkable m pt p a i n"
  shows "pt_wf m pt" "is_path p" "tbl m pt p = Some a" "i < 512" "is_path (i # p)" "length p < 2"
    "page_aligned n" "n \<notin> tables m pt" "a \<noteq> n" "tbl m pt (i # p) = None"
    "load64 m (slot a i) AND PTE_V = 0"
  using assms tablesI [of p m pt a] by (auto simp: linkable_def)

lemma AND_flags: "f AND 0x3FF = f \<Longrightarrow> v AND f = PTE_FLAGS v AND f"
  unfolding PTE_FLAGS_def by (metis and.assoc and.commute)

lemma is_link_PA2PTE: "is_link (PA2PTE n OR PTE_V)"
proof -
  have "(PA2PTE n OR PTE_V) AND (PTE_R OR PTE_W OR PTE_X) = PTE_V AND (PTE_R OR PTE_W OR PTE_X)"
    using AND_flags [of "PTE_R OR PTE_W OR PTE_X" "PA2PTE n OR PTE_V"] PTE_FLAGS_PA2PTE [of PTE_V n]
    by (simp add: kconst)
  then show ?thesis by (simp add: is_link_def kconst)
qed

lemma link_new_page:
  assumes L: "linkable m pt p a i n" and j: "j < 512"
  shows "load64 (store64 m (slot a i) v) (slot n j) = 0"
proof -
  note D = linkableD [OF L]
  have "store64 m (slot a i) v x = 0" if x: "in_page n x" for x
  proof -
    have "\<not> in_page a x"
      using x D(7,9) pt_wf_aligned [OF D(1) tablesI [OF D(2,3)]] by (blast dest: in_page_unique)
    then show ?thesis using x L D(4) by (simp add: store_slot_out linkable_def)
  qed
  then have "load64 (store64 m (slot a i) v) (slot n j) = load64 (\<lambda>_. 0) (slot n j)"
    using j by (intro load_slot_cong) auto
  then show ?thesis by simp
qed

lemma link_table:
  assumes L: "linkable m pt p a i n" and q: "is_path q"
  defines "m' \<equiv> store64 m (slot a i) (PA2PTE n OR PTE_V)"
  shows "tbl m' pt q = (if q = i # p then Some n else tbl m pt q)"
proof -
  note D = linkableD [OF L] and T = tbl_store_other [OF linkableD(1-4) [OF L]]
  have new: "tbl m' pt (i # p) = Some n"
  proof -
    have "p \<noteq> r @ i # p" for r using arg_cong [of p "r @ i # p" length] by auto
    then have "tbl m' pt p = Some a" using T [OF D(2)] D(3) unfolding m'_def by simp
    moreover have "PTE2PA (PA2PTE n OR PTE_V) = n"
      using D(7) PTE2PA_PA2PTE [of PTE_V n]
      by (simp add: PTE_V_def PGROUNDDOWN_eq page_aligned_def PGSIZE_def)
    ultimately show ?thesis by (simp add: m'_def load_store_slot D(4) Let_def PTE_V_def)
  qed
  show ?thesis
  proof (cases "\<exists>r. q = r @ i # p")
    case False
    then have "q \<noteq> i # p" by auto
    with False q show ?thesis using T [OF q] unfolding m'_def by simp
  next
    case True
    then obtain r where r: "q = r @ i # p" by blast
    then have "length r \<le> 1" using q by (simp add: is_path_def)
    then have "r = [] \<or> (\<exists>j. r = [j])" by (cases r) auto
    with r consider "q = i # p" | j where "q = j # i # p" by auto
    then show ?thesis
    proof cases
      case 2
      then have "j < 512" using q by simp
      with 2 new D(10) link_new_page [OF L] show ?thesis by (simp add: m'_def)
    qed (use new in simp)
  qed
qed

lemma link_pte:
  assumes L: "linkable m pt p a i n"
  defines "m' \<equiv> store64 m (slot a i) (PA2PTE n OR PTE_V)"
  shows "pte_of m' pt va = pte_of m pt va"
proof (cases "[px 1 va, px 2 va] = i # p")
  case True
  have "leaf m' pt va = Some (slot n (px 0 va))"
    using link_table [OF L, of "[px 1 va, px 2 va]"] True by (simp add: m'_def leaf_def del: tbl.simps)
  moreover have "leaf m pt va = None" using True linkableD(10) [OF L] by (simp add: leaf_def)
  ultimately show ?thesis using link_new_page [OF L] by (simp add: pte_of_def m'_def)
next
  case False
  then have l: "leaf m' pt va = leaf m pt va"
    using link_table [OF L, of "[px 1 va, px 2 va]"]
    by (auto simp: leaf_def m'_def simp del: tbl.simps)
  show ?thesis
  proof (cases "leaf m pt va")
    case (Some y)
    then obtain b where b: "tbl m pt [px 1 va, px 2 va] = Some b" "y = slot b (px 0 va)"
      by (rule leaf_SomeE)
    have "p \<noteq> [px 1 va, px 2 va]" using linkableD(6) [OF L] by auto
    then have "load64 m' y = load64 m y"
      unfolding m'_def b(2) using load_after_store [OF linkableD(1-4) [OF L] _ b(1) px_less] by auto
    with Some l show ?thesis by (simp add: pte_of_def)
  qed (use l in \<open>simp add: pte_of_def\<close>)
qed

lemma link_tables:
  assumes L: "linkable m pt p a i n"
  defines "m' \<equiv> store64 m (slot a i) (PA2PTE n OR PTE_V)"
  shows "tables m' pt = insert n (tables m pt)"
proof (intro equalityI subsetI)
  fix b assume "b \<in> tables m' pt"
  then obtain q where q: "is_path q" "tbl m' pt q = Some b" by (auto simp: tables_def)
  with link_table [OF L q(1)] show "b \<in> insert n (tables m pt)"
    by (auto simp: tables_def m'_def split: if_splits)
next
  fix b assume "b \<in> insert n (tables m pt)"
  then consider "b = n" | q where "is_path q" "tbl m pt q = Some b" by (auto simp: tables_def)
  then show "b \<in> tables m' pt"
  proof cases
    case 1
    have "tbl m' pt (i # p) = Some n" using link_table [OF L linkableD(5) [OF L]] unfolding m'_def by (simp del: tbl.simps)
    with 1 show ?thesis using tablesI [OF linkableD(5) [OF L]] by blast
  next
    case 2
    then have "q \<noteq> i # p" using linkableD(10) [OF L] by auto
    with 2 link_table [OF L, of q] show ?thesis by (auto simp: tables_def m'_def)
  qed
qed

lemma link_wf:
  assumes L: "linkable m pt p a i n"
  defines "m' \<equiv> store64 m (slot a i) (PA2PTE n OR PTE_V)"
  shows "pt_wf m' pt"
  unfolding pt_wf_def
proof (intro conjI allI impI ballI)
  fix b assume "b \<in> tables m' pt"
  then show "page_aligned b"
    using link_tables [OF L] linkableD(7) [OF L] pt_wf_aligned [OF linkableD(1) [OF L]]
    by (auto simp: m'_def)
next
  fix q r b assume q: "is_path q" "is_path r" "tbl m' pt q = Some b" "tbl m' pt r = Some b"
  have "tbl m pt x \<noteq> Some n" if "is_path x" for x using that linkableD(8) [OF L] tablesI by blast
  with q show "q = r"
    using link_table [OF L q(1)] link_table [OF L q(2)] pt_wf_unique [OF linkableD(1) [OF L] q(1,2)]
    by (auto simp: m'_def split: if_splits)
next
  fix q j b assume q: "is_path (j # q)" "tbl m' pt q = Some b"
  note D = linkableD [OF L]
  from q have qp: "is_path q" "j < 512" by auto
  show "is_link (load64 m' (slot b j))"
  proof (cases "q = i # p")
    case True
    with q link_table [OF L qp(1)] link_new_page [OF L qp(2)] show ?thesis
      by (simp add: m'_def is_link_def)
  next
    case False
    with q(2) link_table [OF L qp(1)] have b: "tbl m pt q = Some b" by (simp add: m'_def)
    from load_after_store [OF D(1-4) qp(1) b qp(2)] pt_wf_link [OF D(1) q(1) b] show ?thesis
      by (simp add: m'_def is_link_PA2PTE)
  qed
qed

section \<open>Walking with allocation\<close>

lemma free_pages_mem:
  assumes "free_pages s ps" "same_on (set ps) (mem s) m'"
  shows "free_pages (s\<lparr>mem := m'\<rparr>) ps"
proof -
  have "load64 m' x = load64 (mem s) x" if "x \<in> set ps" for x
    using that assms(2) by (intro load64_frame) (auto simp: same_on_def)
  then show ?thesis
    using assms(1) run_list_frame [of ps m' "mem s"] by (auto simp: free_pages_def kpage_def)
qed

lemma kpage_aligned: "kpage s p \<Longrightarrow> page_aligned p"
  by (simp add: kpage_def)

lemma kpage_mem [simp]: "kpage (s\<lparr>mem := m\<rparr>) = kpage s"
  by (simp add: kpage_def fun_eq_iff)

text \<open>
  \<open>vm_inv s pt ps\<close>: the free list holds the pages \<open>ps\<close>, the tables of \<open>pt\<close> form a tree of
  pages of physical memory, and none of them is free.
\<close>

definition vm_inv :: "'z pmem_scheme \<Rightarrow> u64 \<Rightarrow> u64 list \<Rightarrow> bool" where
  "vm_inv s pt ps \<longleftrightarrow> free_pages s ps \<and> pt_wf (mem s) pt
     \<and> (\<forall>a \<in> tables (mem s) pt. kpage s a \<and> a \<notin> set ps)"

lemma vm_invD:
  assumes "vm_inv s pt ps"
  shows "free_pages s ps" "pt_wf (mem s) pt" "tables (mem s) pt \<inter> set ps = {}"
    "a \<in> tables (mem s) pt \<Longrightarrow> kpage s a" "a \<in> set ps \<Longrightarrow> kpage s a" "kend s \<noteq> 0"
  using assms by (auto simp: vm_inv_def free_pages_def)

lemma kpage_nonzero: "kpage s a \<Longrightarrow> kend s \<noteq> 0 \<Longrightarrow> a \<noteq> 0"
  by (auto simp: kpage_def)

text \<open>Where an operation on \<open>pt\<close> may write: its tables, and pages it takes from the free list.\<close>

definition vm_frame :: "u64 \<Rightarrow> u64 list \<Rightarrow> 'z pmem_scheme \<Rightarrow> u64 list \<Rightarrow> 'z pmem_scheme \<Rightarrow> bool" where
  "vm_frame pt ps s ps' s' \<longleftrightarrow> (\<exists>qs. ps = qs @ ps' \<and> tables (mem s') pt = tables (mem s) pt \<union> set qs
      \<and> same_off (tables (mem s) pt \<union> set qs) (mem s) (mem s')) \<and> kend s' = kend s"

lemma vm_frame_refl [simp]: "vm_frame pt ps s ps s"
  by (simp add: vm_frame_def)

lemma vm_frame_trans:
  assumes "vm_frame pt ps s ps1 s1" "vm_frame pt ps1 s1 ps2 s2"
  shows "vm_frame pt ps s ps2 s2"
proof -
  from assms obtain q1 q2 where
    q1: "ps = q1 @ ps1" "tables (mem s1) pt = tables (mem s) pt \<union> set q1"
      "same_off (tables (mem s) pt \<union> set q1) (mem s) (mem s1)" and
    q2: "ps1 = q2 @ ps2" "tables (mem s2) pt = tables (mem s1) pt \<union> set q2"
      "same_off (tables (mem s1) pt \<union> set q2) (mem s1) (mem s2)" and k: "kend s2 = kend s"
    by (auto simp: vm_frame_def)
  have "same_off (tables (mem s) pt \<union> set (q1 @ q2)) (mem s) (mem s2)"
    using same_off_trans [OF q1(3) q2(3)] by (rule same_off_mono) (auto simp: q1 q2)
  with q1 q2 k show ?thesis
    unfolding vm_frame_def by (intro conjI exI [of _ "q1 @ q2"]) auto
qed

text \<open>One step down that allocates: the new table is empty, so the view stays.\<close>

lemma link_step:
  assumes inv: "vm_inv s pt (n # ps)"
    and p: "is_path (i # p)" "tbl (mem s) pt p = Some a"
    and empty: "load64 (mem s) (slot a i) AND PTE_V = 0"
    and k: "kalloc s = Ok n s1"
  defines "s2 \<equiv> s1\<lparr>mem := store64 (memset (mem s1) n 0 4096) (slot a i) (PA2PTE n OR PTE_V)\<rparr>"
  shows "vm_inv s2 pt ps" "vm_frame pt (n # ps) s ps s2" "tbl (mem s2) pt (i # p) = Some n"
    "pte_of (mem s2) pt va = pte_of (mem s) pt va"
proof -
  note I = vm_invD [OF inv]
  from kalloc_pop [OF I(1)] k have s1: "free_pages s1 ps" "kpage s n" "n \<notin> set ps" "kend s1 = kend s"
    "\<forall>x. \<not> in_page n x \<longrightarrow> mem s1 x = mem s x" by auto
  let ?m = "memset (mem s1) n 0 4096"
  have off: "same_off {n} (mem s) ?m" using s1(5) by (auto simp: same_off_def memset_page)
  have on: "same_on (tables (mem s) pt) (mem s) ?m"
    using I(3,4) s1(2) by (intro same_off_on [OF off]) (auto intro: kpage_aligned)
  note tm = same_on_tree [OF on]
  have pa: "i < 512" "is_path p" "a \<in> tables (mem s) pt" using p by (auto intro: tablesI)
  have "load64 ?m (slot a i) = load64 (mem s) (slot a i)"
    using on pa by (intro load_slot_cong) (auto simp: same_on_def)
  then have L: "linkable ?m pt p a i n"
    using I(2,3) tm p tbl_cong [OF on pa(2)] empty kpage_aligned [OF s1(2)]
    by (auto simp: linkable_def memset_page)
  have m2: "mem s2 = store64 ?m (slot a i) (PA2PTE n OR PTE_V)" by (simp add: s2_def)
  show "tbl (mem s2) pt (i # p) = Some n" using link_table [OF L p(1)] by (simp add: m2)
  show "pte_of (mem s2) pt va = pte_of (mem s) pt va" by (simp add: m2 link_pte [OF L] tm)
  have T: "tables (mem s2) pt = insert n (tables (mem s) pt)" by (simp add: m2 link_tables [OF L] tm)
  have "same_off {a, n} (mem s) (mem s2)"
    using same_off_trans [OF off same_off_store [OF pa(1), of a]] by (simp add: m2)
  then have "same_off (tables (mem s) pt \<union> set [n]) (mem s) (mem s2)"
    by (rule same_off_mono) (use pa in auto)
  then show "vm_frame pt (n # ps) s ps s2"
    unfolding vm_frame_def using T s1(4) by (intro conjI exI [of _ "[n]"]) (simp_all add: s2_def)
  have "same_off {a, n} (mem s1) (mem s2)"
    using same_off_trans [OF same_off_memset same_off_store [OF pa(1), of a]] by (simp add: m2)
  then have "same_on (set ps) (mem s1) (mem s2)"
    using s1(2,3) I(3-5) pa(3) by (intro same_off_on) (auto intro: kpage_aligned)
  from free_pages_mem [OF s1(1) this] have "free_pages s2 ps" by (simp add: s2_def)
  moreover have "kpage s2 = kpage s" using s1(4) by (auto simp: kpage_def s2_def fun_eq_iff)
  ultimately show "vm_inv s2 pt ps"
    using T I(3,4) s1(2,3) link_wf [OF L] by (auto simp: vm_inv_def m2)
qed

lemma slot_nonzero:
  assumes "kpage s a" "kend s \<noteq> 0" "i < 512"
  shows "slot a i \<noteq> 0"
proof
  assume "slot a i = 0"
  then have "in_page a 0" using slot_byte_in_page [OF assms(3), of 0 a] by simp
  moreover have "page_aligned 0" by (simp add: page_aligned_unat)
  ultimately have "a = 0" using in_page_unique [of a 0 0] kpage_aligned [OF assms(1)] by simp
  with kpage_nonzero [OF assms(1,2)] show False by simp
qed

text \<open>
  \<open>walk_result s ps va r s' ps'\<close>: \<open>walk\<close> with allocation has kept the tree and the view and
  returned the leaf entry of \<open>va\<close>, or the null pointer with the free list exhausted.
\<close>

definition walk_result ::
  "u64 \<Rightarrow> 'z pmem_scheme \<Rightarrow> u64 list \<Rightarrow> u64 \<Rightarrow> u64 \<Rightarrow> 'z pmem_scheme \<Rightarrow> u64 list \<Rightarrow> bool" where
  "walk_result pt s ps va r s' ps' \<longleftrightarrow> vm_inv s' pt ps' \<and> vm_frame pt ps s ps' s'
     \<and> (\<forall>vb. pte_of (mem s') pt vb = pte_of (mem s) pt vb)
     \<and> (if r = 0 then ps' = [] else leaf (mem s') pt va = Some r)"

lemma walk_levels_alloc:
  assumes "l \<le> 2" "vm_inv s pt ps" "tbl (mem s) pt (drop l [px 1 va, px 2 va]) = Some a"
  shows "\<exists>r s' ps'. walk_levels l a va True s = Ok r s' \<and> walk_result pt s ps va r s' ps'"
  using assms
proof (induction l arbitrary: s ps a)
  case 0
  then have a: "a \<in> tables (mem s) pt" using tablesI [of "[px 1 va, px 2 va]"] by simp
  then have "slot a (px 0 va) \<noteq> 0" using vm_invD [OF 0(2)] slot_nonzero px_less by blast
  with 0 show ?case
    by (auto simp: walk_result_def leaf_def slot_px [symmetric] simp del: tbl.simps)
next
  case (Suc l)
  let ?p = "drop (Suc l) [px 1 va, px 2 va]" and ?i = "px (Suc l) va"
  have l: "l = 0 \<or> l = 1" using Suc.prems(1) by auto
  then have pth: "drop l [px 1 va, px 2 va] = ?i # ?p" by (auto simp: numeral_2_eq_2)
  have p: "is_path (?i # ?p)" using l by (auto simp: is_path_def)
  show ?case
  proof (cases "load64 (mem s) (slot a ?i) AND PTE_V = 0")
    case False
    then have "tbl (mem s) pt (drop l [px 1 va, px 2 va]) = Some (PTE2PA (load64 (mem s) (slot a ?i)))"
      unfolding pth using Suc.prems(3) by (simp add: Let_def)
    from Suc.IH [OF _ Suc.prems(2) this] Suc.prems(1) False show ?thesis
      by (simp add: slot_px [symmetric] Let_def)
  next
    case True
    show ?thesis
    proof (cases ps)
      case Nil
      then have "kalloc s = Ok 0 s" using kalloc_empty vm_invD(1) [OF Suc.prems(2)] by blast
      with True Nil Suc.prems(2) show ?thesis
        by (simp add: slot_px [symmetric] Let_def walk_result_def)
    next
      case (Cons n qs)
      obtain s1 where k: "kalloc s = Ok n s1" and n: "n \<noteq> 0"
        using kalloc_pop vm_invD(1) [OF Suc.prems(2)] Cons by blast
      let ?s2 = "s1\<lparr>mem := store64 (memset (mem s1) n 0 4096) (slot a ?i) (PA2PTE n OR PTE_V)\<rparr>"
      note L = link_step [OF Suc.prems(2) [unfolded Cons] p Suc.prems(3) True k]
      have "tbl (mem ?s2) pt (drop l [px 1 va, px 2 va]) = Some n" unfolding pth by (rule L(3))
      from Suc.IH [OF _ L(1) this] Suc.prems(1) obtain r s' ps' where
        r: "walk_levels l n va True ?s2 = Ok r s'" "walk_result pt ?s2 qs va r s' ps'" by auto
      have "walk_result pt s ps va r s' ps'"
        using r(2) vm_frame_trans [OF L(2)] L(4) Cons unfolding walk_result_def by simp
      with r(1) True k n show ?thesis by (auto simp: slot_px [symmetric] Let_def)
    qed
  qed
qed

lemma walk_alloc:
  assumes "vm_inv s pt ps" "va < MAXVA"
  shows "\<exists>r s' ps'. walk pt va True s = Ok r s' \<and> walk_result pt s ps va r s' ps'"
  using walk_levels_alloc [of 2 s pt ps va pt] assms by (auto simp: walk_def)

section \<open>Mapping and unmapping pages\<close>

definition vpn :: "u64 \<Rightarrow> nat" where
  "vpn va = unat va div 4096"

lemma vm_inv_store_leaf:
  assumes inv: "vm_inv s pt ps" and l: "leaf (mem s) pt va = Some x"
  shows "vm_inv (s\<lparr>mem := store64 (mem s) x v\<rparr>) pt ps"
    "vm_frame pt ps s ps (s\<lparr>mem := store64 (mem s) x v\<rparr>)"
    "va < MAXVA \<Longrightarrow> vb < MAXVA \<Longrightarrow> pte_of (store64 (mem s) x v) pt vb
       = (if vpn vb = vpn va then v else pte_of (mem s) pt vb)"
proof -
  note I = vm_invD [OF inv] and S = store_leaf [OF vm_invD(2) [OF inv] l, where v = v]
  have "same_on (set ps) (mem s) (store64 (mem s) x v)"
    using S(4) I(3-5) by (intro same_off_on [OF S(4)]) (auto intro: kpage_aligned)
  from free_pages_mem [OF I(1) this] show "vm_inv (s\<lparr>mem := store64 (mem s) x v\<rparr>) pt ps"
    using S inv by (simp add: vm_inv_def)
  show "vm_frame pt ps s ps (s\<lparr>mem := store64 (mem s) x v\<rparr>)"
    using S by (simp add: vm_frame_def)
  show "pte_of (store64 (mem s) x v) pt vb = (if vpn vb = vpn va then v else pte_of (mem s) pt vb)"
    if "va < MAXVA" "vb < MAXVA"
    using S(5) [OF that] by (simp add: vpn_def)
qed

text \<open>The view \<open>f\<close> after \<open>k\<close> pages from \<open>a\<close> on have been mapped to the pages from \<open>pa\<close> on.\<close>

definition map_view :: "(u64 \<Rightarrow> u64) \<Rightarrow> u64 \<Rightarrow> nat \<Rightarrow> u64 \<Rightarrow> u64 \<Rightarrow> u64 \<Rightarrow> u64" where
  "map_view f a k pa perm va =
     (if vpn a \<le> vpn va \<and> vpn va < vpn a + k
      then PA2PTE (pa + of_nat (vpn va - vpn a) * PGSIZE) OR perm OR PTE_V
      else f va)"

lemma vpn_add_PGSIZE:
  "unat a + 4096 < 2 ^ 64 \<Longrightarrow> vpn (a + PGSIZE) = Suc (vpn a)"
  by (simp add: vpn_def PGSIZE_def unat_word_ariths)

lemma map_view_0 [simp]: "map_view f a 0 pa perm = f"
  by (auto simp: map_view_def fun_eq_iff)

lemma map_view_cong: "f va = g va \<Longrightarrow> map_view f a k pa perm va = map_view g a k pa perm va"
  by (simp add: map_view_def)

lemma map_view_Suc:
  assumes "unat a + 4096 < 2 ^ 64"
  shows "map_view (\<lambda>vb. if vpn vb = vpn a then PA2PTE pa OR perm OR PTE_V else f vb)
      (a + PGSIZE) k (pa + PGSIZE) perm va = map_view f a (Suc k) pa perm va"
proof (cases rule: linorder_cases [of "vpn a" "vpn va"])
  case less
  then obtain d where d: "vpn va = Suc (vpn a) + d" using less_imp_Suc_add [of "vpn a"] by auto
  then have "pa + PGSIZE + of_nat (vpn va - Suc (vpn a)) * PGSIZE = pa + of_nat (vpn va - vpn a) * PGSIZE"
    by (simp add: algebra_simps)
  then show ?thesis unfolding map_view_def vpn_add_PGSIZE [OF assms] using d by (simp only:) simp
qed (simp_all add: map_view_def vpn_add_PGSIZE [OF assms])

lemma unat_pages: "n * 4096 < 2 ^ 64 \<Longrightarrow> unat (of_nat n * PGSIZE) = n * 4096"
  using unat_of_nat_lt [of "n * 4096", where 'a = 64] by (simp add: PGSIZE_def)

lemma map_step:
  assumes inv: "vm_inv s pt ps" and a: "a < MAXVA" and free: "pte_of (mem s) pt a AND PTE_V = 0"
  obtains (oom) s1 where "walk pt a True s = Ok 0 s1" "vm_inv s1 pt []" "vm_frame pt ps s [] s1"
      "pte_of (mem s1) pt = pte_of (mem s) pt"
  | (ok) x s1 ps1 where "walk pt a True s = Ok x s1" "x \<noteq> 0" "load64 (mem s1) x AND PTE_V = 0"
      "vm_inv (s1\<lparr>mem := store64 (mem s1) x v\<rparr>) pt ps1"
      "vm_frame pt ps s ps1 (s1\<lparr>mem := store64 (mem s1) x v\<rparr>)"
      "\<And>va. va < MAXVA \<Longrightarrow> pte_of (store64 (mem s1) x v) pt va
         = (if vpn va = vpn a then v else pte_of (mem s) pt va)"
proof -
  from walk_alloc [OF inv a] obtain x s1 ps1 where
    w: "walk pt a True s = Ok x s1" "walk_result pt s ps a x s1 ps1" by blast
  show thesis
  proof (cases "x = 0")
    case True
    with w oom show thesis by (auto simp: walk_result_def fun_eq_iff)
  next
    case False
    with w(2) have l: "leaf (mem s1) pt a = Some x" and i1: "vm_inv s1 pt ps1"
      and f1: "vm_frame pt ps s ps1 s1" and v: "\<And>vb. pte_of (mem s1) pt vb = pte_of (mem s) pt vb"
      by (auto simp: walk_result_def)
    note S = vm_inv_store_leaf [OF i1 l, where v = v]
    have "load64 (mem s1) x AND PTE_V = 0" using free v [of a] l by (simp add: pte_of_def)
    with ok [OF w(1) False] S vm_frame_trans [OF f1 S(2)] a v show thesis by auto
  qed
qed

lemma mappages_loop_spec:
  assumes "vm_inv s pt ps" "unat a + (n + 1) * 4096 \<le> 2 ^ 38" "last_a = a + of_nat n * PGSIZE"
    "\<And>va. va < MAXVA \<Longrightarrow> vpn a \<le> vpn va \<Longrightarrow> vpn va \<le> vpn a + n \<Longrightarrow> pte_of (mem s) pt va AND PTE_V = 0"
  shows "\<exists>r s' ps' k. mappages_loop pt a last_a pa perm s = Ok r s' \<and> vm_inv s' pt ps'
    \<and> vm_frame pt ps s ps' s' \<and> (r = 0 \<and> k = n + 1 \<or> r = -1 \<and> k \<le> n \<and> ps' = [])
    \<and> (\<forall>va < MAXVA. pte_of (mem s') pt va = map_view (pte_of (mem s) pt) a k pa perm va)"
  using assms
proof (induction n arbitrary: a pa s ps)
  case (0 a pa s ps)
  then have a: "a < MAXVA" "unat a + 4096 < 2 ^ 64" by (simp_all add: unat_less_MAXVA)
  have "pte_of (mem s) pt a AND PTE_V = 0" using 0(4) [of a] a(1) by simp
  from 0(1) a(1) this show ?case
  proof (cases rule: map_step [where v = "PA2PTE pa OR perm OR PTE_V"])
    case (oom s1)
    then show ?thesis
      by (intro exI [of _ "-1"] exI [of _ s1] exI [of _ "[]"] exI [of _ 0])
        (simp add: mappages_loop.simps [of _ a])
  next
    case (ok x s1 ps1)
    then show ?thesis using 0(3)
      by (intro exI [of _ 0] exI [of _ "s1\<lparr>mem := store64 (mem s1) x (PA2PTE pa OR perm OR PTE_V)\<rparr>"]
            exI [of _ ps1] exI [of _ 1])
        (auto simp: mappages_loop.simps [of _ a] map_view_def Let_def)
  qed
next
  case (Suc n a pa s ps)
  then have a: "a < MAXVA" "unat a + 4096 < 2 ^ 64" by (simp_all add: unat_less_MAXVA)
  have "pte_of (mem s) pt a AND PTE_V = 0" using Suc.prems(4) [of a] a(1) by simp
  from Suc.prems(1) a(1) this show ?case
  proof (cases rule: map_step [where v = "PA2PTE pa OR perm OR PTE_V"])
    case (oom s1)
    then show ?thesis
      by (intro exI [of _ "-1"] exI [of _ s1] exI [of _ "[]"] exI [of _ 0])
        (simp add: mappages_loop.simps [of _ a])
  next
    case (ok x s1 ps1)
    let ?s2 = "s1\<lparr>mem := store64 (mem s1) x (PA2PTE pa OR perm OR PTE_V)\<rparr>"
    have "unat (of_nat (Suc n) * PGSIZE) = Suc n * 4096"
      using Suc.prems(2) by (intro unat_pages) simp
    then have ne: "a \<noteq> last_a" using Suc.prems(3) by auto
    have va: "vpn (a + PGSIZE) = Suc (vpn a)" "unat (a + PGSIZE) = unat a + 4096"
      using a(2) vpn_add_PGSIZE by (simp_all add: PGSIZE_def unat_word_ariths)
    have free: "pte_of (mem ?s2) pt va AND PTE_V = 0"
      if "va < MAXVA" "vpn (a + PGSIZE) \<le> vpn va" "vpn va \<le> vpn (a + PGSIZE) + n" for va
      using Suc.prems(4) [of va] that ok(6) [of va] va(1) by simp
    have lim: "unat (a + PGSIZE) + (n + 1) * 4096 \<le> 2 ^ 38"
      "last_a = a + PGSIZE + of_nat n * PGSIZE"
      using Suc.prems(2,3) va(2) by (simp_all add: algebra_simps)
    from Suc.IH [OF ok(4) lim free]
    obtain r s' ps' k where
      r: "mappages_loop pt (a + PGSIZE) last_a (pa + PGSIZE) perm ?s2 = Ok r s'" "vm_inv s' pt ps'"
        "vm_frame pt ps1 ?s2 ps' s'" "r = 0 \<and> k = n + 1 \<or> r = -1 \<and> k \<le> n \<and> ps' = []"
        "\<And>va. va < MAXVA \<Longrightarrow> pte_of (mem s') pt va
           = map_view (pte_of (mem ?s2) pt) (a + PGSIZE) k (pa + PGSIZE) perm va"
      by blast
    have "pte_of (mem s') pt va = map_view (pte_of (mem s) pt) a (Suc k) pa perm va"
      if "va < MAXVA" for va
      unfolding r(5) [OF that] map_view_Suc [OF a(2), symmetric]
      by (rule map_view_cong) (use ok(6) [OF that] in simp)
    moreover have "mappages_loop pt a last_a pa perm s = Ok r s'"
      using ok(1-3) ne r(1) by (subst mappages_loop.simps) (simp add: Let_def)
    ultimately show ?thesis
      using r(2,4) vm_frame_trans [OF ok(5) r(3)]
      by (intro exI [of _ r] exI [of _ s'] exI [of _ ps'] exI [of _ "Suc k"]) auto
  qed
qed

lemma empty_root:
  assumes pt: "page_aligned pt" and zero: "\<And>x. in_page pt x \<Longrightarrow> m x = 0"
  shows "tables m pt = {pt}" "pt_wf m pt" "pte_of m pt va = 0"
proof -
  have ld: "load64 m (slot pt i) = 0" if "i < 512" for i
  proof -
    have "load64 m (slot pt i) = load64 (\<lambda>_. 0) (slot pt i)"
      using that zero by (intro load_slot_cong) auto
    then show ?thesis by simp
  qed
  have tb: "tbl m pt p = (if p = [] then Some pt else None)" if "is_path p" for p
    using that ld by (induction p) (auto split: if_splits)
  have "a = pt" if "a \<in> tables m pt" for a using that tb by (auto simp: tables_def split: if_splits)
  then show T: "tables m pt = {pt}" using root_table [of pt m] by blast
  show "pt_wf m pt"
    unfolding pt_wf_def T
  proof (intro conjI allI impI)
    fix p i a assume "is_path (i # p)" "tbl m pt p = Some a"
    then have "a = pt" "i < 512" using tb [of p] by (auto split: if_splits)
    then show "is_link (load64 m (slot a i))" using ld by (simp add: is_link_def)
  qed (use pt tb in \<open>auto split: if_splits\<close>)
  show "pte_of m pt va = 0" using tb [of "[px 1 va, px 2 va]"] by (simp add: pte_of_def leaf_def)
qed

text \<open>A new page table is empty.\<close>

lemma uvmcreate_spec:
  assumes "free_pages s (p # ps)"
  shows "\<exists>s'. uvmcreate s = Ok p s' \<and> p \<noteq> 0 \<and> vm_inv s' p ps \<and> pte_of (mem s') p va = 0
    \<and> tables (mem s') p = {p} \<and> same_off {p} (mem s) (mem s') \<and> kend s' = kend s"
proof -
  from kalloc_pop [OF assms] obtain s1 where
    k: "kalloc s = Ok p s1" "free_pages s1 ps" "p \<noteq> 0" "kpage s p" "p \<notin> set ps" "kend s1 = kend s"
      "\<forall>x. \<not> in_page p x \<longrightarrow> mem s1 x = mem s x" by blast
  let ?m = "memset (mem s1) p 0 4096"
  note E = empty_root [OF kpage_aligned [OF k(4)], of ?m, simplified memset_page]
  have ps: "kpage s q" if "q \<in> set ps" for q using that assms by (auto simp: free_pages_def)
  have "same_on (set ps) (mem s1) ?m"
    using k(4,5) ps by (intro same_off_on [OF same_off_memset]) (auto intro: kpage_aligned)
  from free_pages_mem [OF k(2) this] have "free_pages (s1\<lparr>mem := ?m\<rparr>) ps" .
  moreover have "kpage s1 = kpage s" using k(6) by (simp add: kpage_def fun_eq_iff)
  ultimately have "vm_inv (s1\<lparr>mem := ?m\<rparr>) p ps"
    using E k(4,5) by (simp add: vm_inv_def)
  moreover have "same_off {p} (mem s) ?m" using k(7) by (auto simp: same_off_def memset_page)
  ultimately show ?thesis using k E by (simp add: uvmcreate_def)
qed

lemma vm_frame_page:
  assumes "vm_frame pt ps s ps' s'" "vm_inv s pt ps" "kpage s p" "p \<notin> set ps" "p \<notin> tables (mem s) pt"
    "in_page p x"
  shows "mem s' x = mem s x"
proof -
  from assms(1) obtain qs where qs: "ps = qs @ ps'"
    "same_off (tables (mem s) pt \<union> set qs) (mem s) (mem s')" by (auto simp: vm_frame_def)
  have "same_on {p} (mem s) (mem s')"
    using assms(3-5) qs(1) vm_invD(4,5) [OF assms(2)]
    by (intro same_off_on [OF qs(2)]) (auto intro: kpage_aligned)
  then show ?thesis using assms(6) by (simp add: same_on_def)
qed

text \<open>Writing to a page outside the tables and the free list keeps both.\<close>

lemma vm_inv_data:
  assumes inv: "vm_inv s pt ps" and off: "same_off S (mem s) m'"
    and S: "\<And>p. p \<in> S \<Longrightarrow> page_aligned p \<and> p \<notin> set ps \<and> p \<notin> tables (mem s) pt"
  shows "vm_inv (s\<lparr>mem := m'\<rparr>) pt ps" "tables m' pt = tables (mem s) pt" "pte_of m' pt = pte_of (mem s) pt"
proof -
  note I = vm_invD [OF inv]
  have on: "same_on (tables (mem s) pt) (mem s) m'"
    using S I(4) by (intro same_off_on [OF off]) (auto intro: kpage_aligned)
  have "same_on (set ps) (mem s) m'"
    using S I(5) by (intro same_off_on [OF off]) (auto intro: kpage_aligned)
  from free_pages_mem [OF I(1) this] same_on_tree [OF on] inv
  show "vm_inv (s\<lparr>mem := m'\<rparr>) pt ps" "tables m' pt = tables (mem s) pt" "pte_of m' pt = pte_of (mem s) pt"
    by (simp_all add: vm_inv_def fun_eq_iff)
qed

lemma vm_kalloc:
  assumes inv: "vm_inv s pt (p # ps)"
  obtains s1 where "kalloc s = Ok p s1" "p \<noteq> 0" "kpage s p" "p \<notin> set ps" "p \<notin> tables (mem s) pt"
    "vm_inv s1 pt ps" "tables (mem s1) pt = tables (mem s) pt" "pte_of (mem s1) pt = pte_of (mem s) pt"
    "same_off {p} (mem s) (mem s1)" "kend s1 = kend s"
proof -
  note I = vm_invD [OF inv]
  from kalloc_pop [OF I(1)] obtain s1 where
    k: "kalloc s = Ok p s1" "free_pages s1 ps" "p \<noteq> 0" "kpage s p" "p \<notin> set ps" "kend s1 = kend s"
      "\<forall>x. \<not> in_page p x \<longrightarrow> mem s1 x = mem s x" by blast
  have off: "same_off {p} (mem s) (mem s1)" using k(7) by (auto simp: same_off_def)
  have on: "same_on (tables (mem s) pt) (mem s) (mem s1)"
    using I(3,4) k(4) by (intro same_off_on [OF off]) (auto intro: kpage_aligned)
  have "kpage s1 = kpage s" using k(6) by (simp add: kpage_def fun_eq_iff)
  then have "vm_inv s1 pt ps" using inv k(2) same_on_tree [OF on] by (auto simp: vm_inv_def)
  then show thesis
    using k I(3) off same_on_tree [OF on] by (intro that [of s1]) (auto simp: fun_eq_iff)
qed

lemma vm_kfree:
  assumes inv: "vm_inv s pt ps" and p: "kpage s p" "p \<notin> set ps" "p \<notin> tables (mem s) pt"
  obtains s1 where "kfree p s = Ok () s1" "vm_inv s1 pt (p # ps)" "tables (mem s1) pt = tables (mem s) pt"
    "pte_of (mem s1) pt = pte_of (mem s) pt" "same_off {p} (mem s) (mem s1)" "kend s1 = kend s"
proof -
  note I = vm_invD [OF inv]
  from km.free_push [OF I(1) p(1,2)] obtain s1 where
    s1: "kfree p s = Ok () s1" "free_pages s1 (p # ps)" "kpage s1 = kpage s"
      "\<forall>y. \<not> in_page p y \<longrightarrow> mem s1 y = mem s y" by blast
  have off: "same_off {p} (mem s) (mem s1)" using s1(4) by (auto simp: same_off_def)
  have on: "same_on (tables (mem s) pt) (mem s) (mem s1)"
    using p I(4) by (intro same_off_on [OF off]) (auto intro: kpage_aligned)
  have "vm_inv s1 pt (p # ps)" using inv s1(2,3) p same_on_tree [OF on] by (auto simp: vm_inv_def)
  moreover have "kend s1 = kend s" using s1(1) p by (auto simp: kfree_Ok)
  ultimately show thesis
    using s1(1) off same_on_tree [OF on] by (intro that [of s1]) (auto simp: fun_eq_iff)
qed

lemma pte_of_vpn: "va < MAXVA \<Longrightarrow> vb < MAXVA \<Longrightarrow> vpn va = vpn vb \<Longrightarrow> pte_of m pt va = pte_of m pt vb"
  using px_eq_iff [of va vb] by (simp add: pte_of_def leaf_def vpn_def)

lemma mappages_one:
  assumes "vm_inv s pt ps" "page_aligned a" "a < MAXVA" "pte_of (mem s) pt a AND PTE_V = 0"
  obtains r s' ps' where "mappages pt a PGSIZE pa perm s = Ok r s'" "vm_inv s' pt ps'" "vm_frame pt ps s ps' s'"
    "r \<noteq> 0 \<Longrightarrow> r = -1 \<and> ps' = []"
    "\<And>va. va < MAXVA \<Longrightarrow> pte_of (mem s') pt va
       = (if r = 0 \<and> vpn va = vpn a then PA2PTE pa OR perm OR PTE_V else pte_of (mem s) pt va)"
proof -
  have u: "unat a + (0 + 1) * 4096 \<le> 2 ^ 38"
    using assms(2,3) by (auto simp: page_aligned_unat unat_less_MAXVA elim!: dvdE)
  have free: "pte_of (mem s) pt va AND PTE_V = 0"
    if "va < MAXVA" "vpn a \<le> vpn va" "vpn va \<le> vpn a + 0" for va
    using pte_of_vpn [OF that(1) assms(3)] that assms(4) by simp
  from mappages_loop_spec [OF assms(1) u _ free, of a pa perm] obtain r s' ps' k where
    r: "mappages_loop pt a a pa perm s = Ok r s'" "vm_inv s' pt ps'" "vm_frame pt ps s ps' s'"
      "r = 0 \<and> k = 1 \<or> r = -1 \<and> k = 0 \<and> ps' = []"
      "\<forall>va < MAXVA. pte_of (mem s') pt va = map_view (pte_of (mem s) pt) a k pa perm va" by auto
  have "mappages pt a PGSIZE pa perm s = Ok r s'"
    using assms(2) r(1) by (simp add: mappages_def page_aligned_def) (simp add: PGSIZE_def)
  with r show thesis by (intro that [of r s' ps']) (auto simp: map_view_def)
qed

text \<open>
  C18. \<open>mappages\<close> refines the update of the abstract view: for an aligned range of unmapped
  pages below \<open>MAXVA\<close> it does not panic; on success exactly the pages of the range are mapped,
  to consecutive physical pages with the given permissions; it fails only when the free list
  is exhausted, and then a prefix of the range is mapped. The tables remain a tree of pages
  that are not free, and memory outside them and the pages taken from the free list keeps its
  contents.
\<close>

theorem mappages_refines:
  assumes "vm_inv s pt ps" "page_aligned va" "page_aligned sz" "sz \<noteq> 0" "unat va + unat sz \<le> 2 ^ 38"
    "\<And>vb. vb < MAXVA \<Longrightarrow> va \<le> vb \<Longrightarrow> unat vb < unat va + unat sz \<Longrightarrow> pte_of (mem s) pt vb AND PTE_V = 0"
  shows "\<exists>r s' ps' k. mappages pt va sz pa perm s = Ok r s' \<and> vm_inv s' pt ps' \<and> vm_frame pt ps s ps' s'
    \<and> (r = 0 \<and> k = unat sz div 4096 \<or> r = -1 \<and> k < unat sz div 4096 \<and> ps' = [])
    \<and> (\<forall>vb < MAXVA. pte_of (mem s') pt vb = map_view (pte_of (mem s) pt) va k pa perm vb)"
proof -
  obtain i where i: "unat va = 4096 * i" using assms(2) by (auto simp: page_aligned_unat elim!: dvdE)
  obtain j where j: "unat sz = 4096 * j" using assms(3) by (auto simp: page_aligned_unat elim!: dvdE)
  have j0: "0 < j" using assms(4) j by (cases j) (auto simp: unat_eq_zero)
  have jlt: "j * 4096 < 2 ^ 64" using assms(5) i j by simp
  then have sz: "sz = of_nat j * PGSIZE" using unat_pages [OF jlt] j by (simp add: word_unat_eq_iff)
  have l: "va + sz - PGSIZE = va + of_nat (j - 1) * PGSIZE"
    using j0 by (simp add: sz of_nat_diff algebra_simps)
  have n: "unat va + (j - 1 + 1) * 4096 \<le> 2 ^ 38" using assms(5) j0 i j by simp
  have free: "pte_of (mem s) pt vb AND PTE_V = 0"
    if "vb < MAXVA" "vpn va \<le> vpn vb" "vpn vb \<le> vpn va + (j - 1)" for vb
  proof (rule assms(6) [OF that(1)])
    have "i \<le> unat vb div 4096" "unat vb div 4096 < i + j" using that(2,3) i j0 by (simp_all add: vpn_def)
    then have "i * 4096 \<le> unat vb" "unat vb < (i + j) * 4096"
      using less_eq_div_iff_mult_less_eq [of 4096 i "unat vb"] div_less_iff_less_mult [of 4096 "unat vb" "i + j"]
      by simp_all
    then show "va \<le> vb" "unat vb < unat va + unat sz" using i j by (simp_all add: word_le_nat_alt)
  qed
  from mappages_loop_spec [OF assms(1) n l free] j0 show ?thesis
    using assms(2-4) j unfolding mappages_def page_aligned_def
    by (simp add: less_Suc_eq_le [symmetric])
qed

text \<open>A small memory for examples: an empty table and two free pages.\<close>

definition vm_demo :: pmem where
  "vm_demo = \<lparr>mem = store64 (\<lambda>_. 0) 0x80002000 0x80003000, freelist = 0x80002000, kend = 0x80000000\<rparr>"

lemma vm_demo_zero: "page_aligned p \<Longrightarrow> p \<noteq> 0x80002000 \<Longrightarrow> in_page p x \<Longrightarrow> mem vm_demo x = 0"
proof -
  assume "page_aligned p" "p \<noteq> 0x80002000" "in_page p x"
  moreover have "page_aligned (0x80002000 :: u64)" by (simp add: page_aligned_unat)
  ultimately have "\<not> in_page 0x80002000 x" using in_page_unique by blast
  then show "mem vm_demo x = 0" by (simp add: vm_demo_def store64_out_page)
qed

lemma vm_demo_inv: "vm_inv vm_demo 0x80001000 [0x80002000, 0x80003000]"
proof -
  have al: "page_aligned (0x80001000 :: u64)" "page_aligned (0x80003000 :: u64)"
    by (simp_all add: page_aligned_unat)
  note E = empty_root [OF al(1), OF vm_demo_zero [OF al(1)], simplified]
  have "load64 (mem vm_demo) 0x80003000 = load64 (\<lambda>_. 0) 0x80003000"
    using vm_demo_zero [OF al(2)] by (intro load64_frame) simp
  then have "load64 (mem vm_demo) 0x80003000 = 0" by simp
  then have "free_pages vm_demo [0x80002000, 0x80003000]"
    by (simp add: free_pages_def kpage_def page_aligned_def PGSIZE_def PHYSTOP_val vm_demo_def)
  then show ?thesis
    using E by (simp add: vm_inv_def kpage_def page_aligned_def PGSIZE_def PHYSTOP_val vm_demo_def)
qed

lemma vm_demo_pte: "pte_of (mem vm_demo) 0x80001000 va = 0"
  using empty_root(3) [where pt = "0x80001000" and m = "mem vm_demo"] vm_demo_zero [of "0x80001000"]
  by (simp add: page_aligned_unat)

theorem mappages_refines_witness:
  "\<exists>r s' ps' k. mappages 0x80001000 0x1000 0x2000 0x80004000 (PTE_R OR PTE_W) vm_demo = Ok r s'
    \<and> vm_inv s' 0x80001000 ps' \<and> (r = 0 \<and> k = 2 \<or> r = -1 \<and> k < 2 \<and> ps' = [])
    \<and> (\<forall>vb < MAXVA. pte_of (mem s') 0x80001000 vb
         = map_view (\<lambda>_. 0) 0x1000 k 0x80004000 (PTE_R OR PTE_W) vb)"
  using mappages_refines [OF vm_demo_inv, where va = "0x1000" and sz = "0x2000" and pa = "0x80004000"
      and perm = "PTE_R OR PTE_W"]
  by (simp add: vm_demo_pte [abs_def] page_aligned_unat) blast

end
