(* ===== verification/Uspace.thy ===== *)
theory Uspace
  imports Pagetable
begin

text \<open>
  User address spaces: unmapping, growing and shrinking, and copying between kernel and user
  memory (\<^verbatim>\<open>kernel/vm.c\<close>). The lemmas build on the page-table tree of \<^theory_text>\<open>Pagetable\<close>; the notion
  \<open>owned\<close> says that a range of virtual pages has physical pages of its own.
\<close>

section \<open>Unmapping\<close>

lemma pte_of_leaf: "pte_of m pt va AND PTE_V \<noteq> 0 \<Longrightarrow> \<exists>x. leaf m pt va = Some x \<and> load64 m x = pte_of m pt va"
  by (cases "leaf m pt va") (auto simp: pte_of_def)

lemma leaf_nonzero:
  assumes "vm_inv s pt ps" "leaf (mem s) pt va = Some x"
  shows "x \<noteq> 0"
proof -
  from assms(2) obtain a where a: "tbl (mem s) pt [px 1 va, px 2 va] = Some a" "x = slot a (px 0 va)"
    by (rule leaf_SomeE)
  then have "a \<in> tables (mem s) pt" using tablesI [OF _ a(1)] by simp
  then show ?thesis using a(2) slot_nonzero vm_invD [OF assms(1)] px_less by metis
qed

text \<open>The physical pages behind \<open>n\<close> virtual pages from \<open>a\<close> on.\<close>

definition pages_at :: "bytes \<Rightarrow> u64 \<Rightarrow> u64 \<Rightarrow> nat \<Rightarrow> u64 list" where
  "pages_at m pt a n = map (\<lambda>k. PTE2PA (pte_of m pt (a + of_nat k * PGSIZE))) [0..<n]"

lemma pages_at_0 [simp]: "pages_at m pt a 0 = []"
  by (simp add: pages_at_def)

lemma pages_at_Suc:
  "pages_at m pt a (Suc n) = PTE2PA (pte_of m pt a) # pages_at m pt (a + PGSIZE) n"
  by (simp add: pages_at_def upt_conv_Cons map_Suc_upt [symmetric] comp_def algebra_simps del: upt_Suc map_Suc_upt)

text \<open>
  \<open>owned s pt ps a n\<close>: the \<open>n\<close> virtual pages from \<open>a\<close> on are mapped to distinct physical pages
  that are neither free nor tables of \<open>pt\<close>.
\<close>

definition owned :: "'z pmem_scheme \<Rightarrow> u64 \<Rightarrow> u64 list \<Rightarrow> u64 \<Rightarrow> nat \<Rightarrow> bool" where
  "owned s pt ps a n \<longleftrightarrow>
     (\<forall>k < n. pte_of (mem s) pt (a + of_nat k * PGSIZE) AND PTE_V \<noteq> 0
        \<and> PTE_FLAGS (pte_of (mem s) pt (a + of_nat k * PGSIZE)) \<noteq> PTE_V)
     \<and> distinct (pages_at (mem s) pt a n)
     \<and> (\<forall>p \<in> set (pages_at (mem s) pt a n). kpage s p \<and> p \<notin> set ps \<and> p \<notin> tables (mem s) pt)"

lemma owned_0 [simp]: "owned s pt ps a 0"
  by (simp add: owned_def)

lemma owned_Suc:
  "owned s pt ps a (Suc n) \<longleftrightarrow> owned s pt ps (a + PGSIZE) n
     \<and> pte_of (mem s) pt a AND PTE_V \<noteq> 0 \<and> PTE_FLAGS (pte_of (mem s) pt a) \<noteq> PTE_V
     \<and> (let p = PTE2PA (pte_of (mem s) pt a) in kpage s p \<and> p \<notin> set ps \<and> p \<notin> tables (mem s) pt
          \<and> p \<notin> set (pages_at (mem s) pt (a + PGSIZE) n))"
  by (auto simp: owned_def pages_at_Suc All_less_Suc2 Let_def algebra_simps)

lemma vpn_page:
  assumes "unat a + n * 4096 \<le> 2 ^ 38" "k < n"
  shows "a + of_nat k * PGSIZE < MAXVA" "vpn (a + of_nat k * PGSIZE) = vpn a + k"
proof -
  have k: "k * 4096 < n * 4096" using assms(2) by simp
  then have "unat (of_nat k * PGSIZE) = k * 4096" using assms(1) by (intro unat_pages) simp
  moreover have "unat a + k * 4096 < 2 ^ 64" using assms(1) k by simp
  ultimately have u: "unat (a + of_nat k * PGSIZE) = unat a + k * 4096"
    by (simp add: unat_word_ariths)
  then show "a + of_nat k * PGSIZE < MAXVA" using assms(1) k by (simp add: unat_less_MAXVA)
  show "vpn (a + of_nat k * PGSIZE) = vpn a + k" by (simp add: vpn_def u)
qed

lemma pages_at_cong:
  assumes "unat a + n * 4096 \<le> 2 ^ 38"
    "\<And>va. va < MAXVA \<Longrightarrow> vpn a \<le> vpn va \<Longrightarrow> vpn va < vpn a + n \<Longrightarrow> pte_of m' pt va = pte_of m pt va"
  shows "pages_at m' pt a n = pages_at m pt a n"
  unfolding pages_at_def
proof (rule map_cong [OF refl])
  fix k assume "k \<in> set [0..<n]"
  then have "k < n" by simp
  from vpn_page [OF assms(1) this] this show "PTE2PA (pte_of m' pt (a + of_nat k * PGSIZE))
    = PTE2PA (pte_of m pt (a + of_nat k * PGSIZE))" using assms(2) by simp
qed

lemma owned_cong:
  assumes own: "owned s pt ps a n" and lim: "unat a + n * 4096 \<le> 2 ^ 38"
    and view: "\<And>va. va < MAXVA \<Longrightarrow> vpn a \<le> vpn va \<Longrightarrow> vpn va < vpn a + n \<Longrightarrow>
      pte_of (mem s') pt va = pte_of (mem s) pt va"
    and T: "tables (mem s') pt \<inter> set (pages_at (mem s) pt a n) = {}" "kend s' = kend s"
    and ps: "set ps' \<inter> set (pages_at (mem s) pt a n) = {}"
  shows "owned s' pt ps' a n"
proof -
  have "pte_of (mem s') pt (a + of_nat k * PGSIZE) = pte_of (mem s) pt (a + of_nat k * PGSIZE)"
    if "k < n" for k using vpn_page [OF lim that] that view by simp
  moreover have "kpage s' = kpage s" using T(2) by (simp add: kpage_def fun_eq_iff)
  moreover have "pages_at (mem s') pt a n = pages_at (mem s) pt a n"
    by (rule pages_at_cong [OF lim view])
  ultimately show ?thesis using own T(1) ps by (auto simp: owned_def)
qed

text \<open>One iteration of \<open>uvmunmap\<close>.\<close>

lemma unmap_step:
  assumes inv: "vm_inv s pt ps" and a: "a < MAXVA" and v: "pte_of (mem s) pt a AND PTE_V \<noteq> 0"
    and p: "fr \<Longrightarrow> p = PTE2PA (pte_of (mem s) pt a) \<and> kpage s p \<and> p \<notin> set ps \<and> p \<notin> tables (mem s) pt"
  obtains x s1 where "walk pt a False s = Ok x s" "x \<noteq> 0" "load64 (mem s) x = pte_of (mem s) pt a"
    "(if fr then kfree (PTE2PA (pte_of (mem s) pt a)) s else Ok () s) = Ok () s1"
    "vm_inv (s1\<lparr>mem := store64 (mem s1) x 0\<rparr>) pt (if fr then p # ps else ps)"
    "tables (store64 (mem s1) x 0) pt = tables (mem s) pt" "kend s1 = kend s"
    "same_off (tables (mem s) pt \<union> (if fr then {p} else {})) (mem s) (store64 (mem s1) x 0)"
    "\<And>va. va < MAXVA \<Longrightarrow> pte_of (store64 (mem s1) x 0) pt va
       = (if vpn va = vpn a then 0 else pte_of (mem s) pt va)"
proof -
  note I = vm_invD [OF inv]
  obtain x where x: "leaf (mem s) pt a = Some x" "load64 (mem s) x = pte_of (mem s) pt a"
    using pte_of_leaf [OF v] by blast
  have "\<exists>s1. (if fr then kfree (PTE2PA (pte_of (mem s) pt a)) s else Ok () s) = Ok () s1
    \<and> vm_inv s1 pt (if fr then p # ps else ps) \<and> same_off (if fr then {p} else {}) (mem s) (mem s1)
    \<and> same_on (tables (mem s) pt) (mem s) (mem s1) \<and> kend s1 = kend s"
  proof (cases fr)
    case True
    note P = p [OF True]
    obtain s1 where s1: "kfree p s = Ok () s1" "vm_inv s1 pt (p # ps)"
        "same_off {p} (mem s) (mem s1)" "kend s1 = kend s"
      by (rule vm_kfree [OF inv, of p]) (use P in auto)
    moreover have "same_on (tables (mem s) pt) (mem s) (mem s1)"
      using P I(4) by (intro same_off_on [OF s1(3)]) (auto intro: kpage_aligned)
    ultimately show ?thesis using True P by auto
  next
    case False
    with inv show ?thesis by (auto simp: same_on_def)
  qed
  then obtain s1 where s1: "(if fr then kfree (PTE2PA (pte_of (mem s) pt a)) s else Ok () s) = Ok () s1"
      "vm_inv s1 pt (if fr then p # ps else ps)" "same_off (if fr then {p} else {}) (mem s) (mem s1)"
      "same_on (tables (mem s) pt) (mem s) (mem s1)" "kend s1 = kend s" by blast
  note tm = same_on_tree [OF s1(4)]
  have x1: "leaf (mem s1) pt a = Some x" using x(1) tm(3) by simp
  note S = vm_inv_store_leaf [OF s1(2) x1, where v = 0]
    and S' = store_leaf [OF vm_invD(2) [OF s1(2)] x1, where v = 0]
  show thesis
  proof (rule that [of x s1])
    show "walk pt a False s = Ok x s" using x(1) by (simp add: walk_ro [OF a])
    show "x \<noteq> 0" by (rule leaf_nonzero [OF inv x(1)])
    show "same_off (tables (mem s) pt \<union> (if fr then {p} else {})) (mem s) (store64 (mem s1) x 0)"
      using same_off_trans [OF s1(3) S'(4)] by (simp add: tm Un_commute)
  qed (use x(2) s1 S S' tm a in simp_all)
qed

definition unmap_view :: "(u64 \<Rightarrow> u64) \<Rightarrow> u64 \<Rightarrow> nat \<Rightarrow> u64 \<Rightarrow> u64" where
  "unmap_view f a n va = (if vpn a \<le> vpn va \<and> vpn va < vpn a + n then 0 else f va)"

text \<open>
  \<open>unmap_ok fr\<close>: the \<open>n\<close> pages from \<open>a\<close> on can be unmapped; when their memory is to be freed
  they must own it.
\<close>

definition unmap_ok :: "bool \<Rightarrow> 'z pmem_scheme \<Rightarrow> u64 \<Rightarrow> u64 list \<Rightarrow> u64 \<Rightarrow> nat \<Rightarrow> bool" where
  "unmap_ok fr s pt ps a n \<longleftrightarrow> (if fr then owned s pt ps a n
     else \<forall>k < n. pte_of (mem s) pt (a + of_nat k * PGSIZE) AND PTE_V \<noteq> 0
        \<and> PTE_FLAGS (pte_of (mem s) pt (a + of_nat k * PGSIZE)) \<noteq> PTE_V)"

lemma unmap_ok_Suc:
  assumes "unmap_ok fr s pt ps a (Suc n)"
  defines "p \<equiv> PTE2PA (pte_of (mem s) pt a)"
  shows "unmap_ok fr s pt ps (a + PGSIZE) n" "pte_of (mem s) pt a AND PTE_V \<noteq> 0"
    "PTE_FLAGS (pte_of (mem s) pt a) \<noteq> PTE_V"
    "fr \<Longrightarrow> kpage s p \<and> p \<notin> set ps \<and> p \<notin> tables (mem s) pt \<and> p \<notin> set (pages_at (mem s) pt (a + PGSIZE) n)"
  using assms by (auto simp: unmap_ok_def owned_Suc All_less_Suc2 Let_def algebra_simps split: if_splits)

lemma unmap_ok_cong:
  assumes ok: "unmap_ok fr s pt ps a n" and lim: "unat a + n * 4096 \<le> 2 ^ 38"
    and view: "\<And>va. va < MAXVA \<Longrightarrow> vpn a \<le> vpn va \<Longrightarrow> vpn va < vpn a + n \<Longrightarrow>
      pte_of (mem s') pt va = pte_of (mem s) pt va"
    and T: "tables (mem s') pt = tables (mem s) pt" "kend s' = kend s"
    and ps: "fr \<Longrightarrow> set ps' \<inter> set (pages_at (mem s) pt a n) = {}"
  shows "unmap_ok fr s' pt ps' a n"
proof (cases fr)
  case True
  then have own: "owned s pt ps a n" using ok by (simp add: unmap_ok_def)
  then have "tables (mem s') pt \<inter> set (pages_at (mem s) pt a n) = {}" using T(1) by (auto simp: owned_def)
  with owned_cong [OF own lim view _ T(2) ps] True show ?thesis by (simp add: unmap_ok_def)
next
  case False
  have "pte_of (mem s') pt (a + of_nat k * PGSIZE) = pte_of (mem s) pt (a + of_nat k * PGSIZE)"
    if "k < n" for k using vpn_page [OF lim that] that view by simp
  with False ok show ?thesis by (simp add: unmap_ok_def)
qed

lemma uvmunmap_loop_spec:
  assumes "vm_inv s pt ps" "unat a + n * 4096 \<le> 2 ^ 38" "unmap_ok fr s pt ps a n"
  defines "pgs \<equiv> if fr then pages_at (mem s) pt a n else []"
  shows "\<exists>s'. uvmunmap_loop pt a (a + of_nat n * PGSIZE) fr s = Ok () s' \<and> vm_inv s' pt (rev pgs @ ps)
    \<and> tables (mem s') pt = tables (mem s) pt \<and> kend s' = kend s
    \<and> same_off (tables (mem s) pt \<union> set pgs) (mem s) (mem s')
    \<and> (\<forall>va < MAXVA. pte_of (mem s') pt va = unmap_view (pte_of (mem s) pt) a n va)"
  using assms(1-3) unfolding pgs_def
proof (induction n arbitrary: a s ps)
  case 0
  then show ?case by (auto simp: uvmunmap_loop.simps [of _ a] unmap_view_def)
next
  case (Suc n)
  have a: "a < MAXVA" "unat a + 4096 < 2 ^ 64" using Suc.prems(2) by (simp_all add: unat_less_MAXVA)
  note O = unmap_ok_Suc [OF Suc.prems(3)]
  let ?p = "PTE2PA (pte_of (mem s) pt a)"
  obtain x s1 where w: "walk pt a False s = Ok x s" "x \<noteq> 0" "load64 (mem s) x = pte_of (mem s) pt a"
    "(if fr then kfree ?p s else Ok () s) = Ok () s1"
    "vm_inv (s1\<lparr>mem := store64 (mem s1) x 0\<rparr>) pt (if fr then ?p # ps else ps)"
    "tables (store64 (mem s1) x 0) pt = tables (mem s) pt" "kend s1 = kend s"
    "same_off (tables (mem s) pt \<union> (if fr then {?p} else {})) (mem s) (store64 (mem s1) x 0)"
    "\<And>va. va < MAXVA \<Longrightarrow> pte_of (store64 (mem s1) x 0) pt va
       = (if vpn va = vpn a then 0 else pte_of (mem s) pt va)"
    by (rule unmap_step [OF Suc.prems(1) a(1) O(2), of fr ?p]) (use O(4) in auto)
  let ?s2 = "s1\<lparr>mem := store64 (mem s1) x 0\<rparr>"
  have va: "vpn (a + PGSIZE) = Suc (vpn a)" "unat (a + PGSIZE) = unat a + 4096"
    using a(2) vpn_add_PGSIZE by (simp_all add: PGSIZE_def unat_word_ariths)
  have lim: "unat (a + PGSIZE) + n * 4096 \<le> 2 ^ 38" using Suc.prems(2) va(2) by simp
  have view: "pte_of (mem ?s2) pt va = pte_of (mem s) pt va"
    if "va < MAXVA" "vpn (a + PGSIZE) \<le> vpn va" for va
    using w(9) [OF that(1)] that(2) va(1) by simp
  have ok2: "unmap_ok fr ?s2 pt (if fr then ?p # ps else ps) (a + PGSIZE) n"
    using O(4) w(6,7) view O(1)
    by (intro unmap_ok_cong [OF O(1) lim]) (auto simp: unmap_ok_def owned_def)
  have pg: "pages_at (mem ?s2) pt (a + PGSIZE) n = pages_at (mem s) pt (a + PGSIZE) n"
    by (rule pages_at_cong [OF lim]) (rule view)
  from Suc.IH [OF w(5) lim ok2, unfolded pg] obtain s' where
    s': "uvmunmap_loop pt (a + PGSIZE) (a + PGSIZE + of_nat n * PGSIZE) fr ?s2 = Ok () s'"
      "vm_inv s' pt (rev (if fr then pages_at (mem s) pt (a + PGSIZE) n else []) @ (if fr then ?p # ps else ps))"
      "tables (mem s') pt = tables (mem s) pt" "kend s' = kend s"
      "same_off (tables (mem s) pt \<union> set (if fr then pages_at (mem s) pt (a + PGSIZE) n else []))
         (store64 (mem s1) x 0) (mem s')"
      "\<And>va. va < MAXVA \<Longrightarrow> pte_of (mem s') pt va = unmap_view (pte_of (mem ?s2) pt) (a + PGSIZE) n va"
    using w(6,7) by auto
  have lt: "a < a + of_nat (Suc n) * PGSIZE"
    using unat_pages [of "Suc n"] Suc.prems(2) by (simp add: word_less_nat_alt unat_word_ariths del: of_nat_Suc)
  have "uvmunmap_loop pt a (a + of_nat (Suc n) * PGSIZE) fr s = Ok () s'"
    using w(1-4) O(2,3) lt s'(1)
    by (subst uvmunmap_loop.simps) (cases fr; simp add: Let_def algebra_simps)
  moreover have "pte_of (mem s') pt va = unmap_view (pte_of (mem s) pt) a (Suc n) va"
    if "va < MAXVA" for va
    using s'(6) [OF that] w(9) [OF that] va(1) by (auto simp: unmap_view_def)
  moreover have "same_off (tables (mem s) pt \<union> set (if fr then pages_at (mem s) pt a (Suc n) else []))
      (mem s) (mem s')"
    using same_off_trans [OF w(8) s'(5)] by (rule same_off_mono) (auto simp: pages_at_Suc)
  ultimately show ?case using s'(2-4) by (auto simp: pages_at_Suc)
qed

text \<open>
  C19. \<open>uvmunmap\<close> of mapped pages removes exactly these mappings and does not panic; with
  \<open>do_free\<close> their physical pages, which nothing else may use, are put on the free list, each
  once; other memory, apart from the page tables, is unchanged.
\<close>

theorem uvmunmap_refines:
  assumes "vm_inv s pt ps" "page_aligned va" "unat va + unat npages * 4096 \<le> 2 ^ 38"
    "unmap_ok fr s pt ps va (unat npages)"
  defines "pgs \<equiv> if fr then pages_at (mem s) pt va (unat npages) else []"
  shows "\<exists>s'. uvmunmap pt va npages fr s = Ok () s' \<and> vm_inv s' pt (rev pgs @ ps)
    \<and> tables (mem s') pt = tables (mem s) pt \<and> kend s' = kend s
    \<and> same_off (tables (mem s) pt \<union> set pgs) (mem s) (mem s')
    \<and> (\<forall>vb < MAXVA. pte_of (mem s') pt vb = unmap_view (pte_of (mem s) pt) va (unat npages) vb)"
  using uvmunmap_loop_spec [OF assms(1,3,4)] assms(2)
  by (simp add: uvmunmap_def page_aligned_def pgs_def)

text \<open>For the example, a table with one page mapped at address 0.\<close>

definition demo_map :: bytes where
  "demo_map = store64 (store64 (store64 (\<lambda>_. 0) (slot 0x80001000 0) (PA2PTE 0x80002000 OR PTE_V))
     (slot 0x80002000 0) (PA2PTE 0x80003000 OR PTE_V))
     (slot 0x80003000 0) (PA2PTE 0x80004000 OR (PTE_R OR PTE_W OR PTE_U OR PTE_V))"

definition vm_demo1 :: pmem where
  "vm_demo1 = \<lparr>mem = demo_map, freelist = 0, kend = 0x80000000\<rparr>"

lemma demo_map_tree:
  "pt_wf demo_map 0x80001000" "tables demo_map 0x80001000 = {0x80001000, 0x80002000, 0x80003000}"
  "va < MAXVA \<Longrightarrow> pte_of demo_map 0x80001000 va
     = (if vpn va = 0 then PA2PTE 0x80004000 OR (PTE_R OR PTE_W OR PTE_U OR PTE_V) else 0)"
proof -
  let ?pt = "0x80001000 :: u64" and ?m0 = "\<lambda>_. 0 :: u8"
  let ?m1 = "store64 ?m0 (slot ?pt 0) (PA2PTE 0x80002000 OR PTE_V)"
  let ?m2 = "store64 ?m1 (slot 0x80002000 0) (PA2PTE 0x80003000 OR PTE_V)"
  have al: "page_aligned ?pt" "page_aligned (0x80002000 :: u64)" "page_aligned (0x80003000 :: u64)"
    by (simp_all add: page_aligned_unat)
  note E = empty_root [OF al(1), of ?m0, simplified]
  have L1: "linkable ?m0 ?pt [] ?pt 0 0x80002000" using E al by (simp add: linkable_def)
  have z: "?m1 x = 0" if "in_page 0x80003000 x" for x
    using that in_page_unique [OF al(1,3)] by (subst store_slot_out) auto
  have L2: "linkable ?m1 ?pt [0] 0x80002000 0 0x80003000"
    using link_wf [OF L1] link_tables [OF L1] link_table [OF L1, of "[0]"] link_new_page [OF L1, of 0] al z E
    by (simp add: linkable_def del: tbl.simps)
  have px: "px 0 0 = 0" "px 1 0 = 0" "px 2 0 = 0" by (simp_all add: px_def unat_PX)
  have l: "leaf ?m2 ?pt 0 = Some (slot 0x80003000 0)"
    using link_table [OF L2, of "[0, 0]"] px by (simp add: leaf_def del: tbl.simps)
  note S = store_leaf [OF link_wf [OF L2] l, where v = "PA2PTE 0x80004000 OR (PTE_R OR PTE_W OR PTE_U OR PTE_V)",
      folded demo_map_def]
  show "pt_wf demo_map ?pt" by (rule S)
  show "tables demo_map ?pt = {?pt, 0x80002000, 0x80003000}"
    using S(1) link_tables [OF L2] link_tables [OF L1] E by auto
  show "pte_of demo_map ?pt va = (if vpn va = 0 then PA2PTE 0x80004000 OR (PTE_R OR PTE_W OR PTE_U OR PTE_V) else 0)"
    if "va < MAXVA"
    using S(5) [of va] that link_pte [OF L2] link_pte [OF L1] E by (simp add: vpn_def MAXVA_val)
qed

lemma vm_demo1_inv: "vm_inv vm_demo1 0x80001000 []"
  using demo_map_tree by (simp add: vm_inv_def vm_demo1_def free_pages_def kpage_def page_aligned_unat PHYSTOP_val)

lemma vm_demo1_owned:
  "pages_at (mem vm_demo1) 0x80001000 0 1 = [0x80004000]" "owned vm_demo1 0x80001000 [] 0 1"
proof -
  let ?v = "PA2PTE 0x80004000 OR (PTE_R OR PTE_W OR PTE_U OR PTE_V)"
  have v: "pte_of (mem vm_demo1) 0x80001000 0 = ?v"
    using demo_map_tree(3) [of 0] by (simp add: vpn_def MAXVA_val vm_demo1_def)
  have f: "?v AND PTE_V \<noteq> 0" "PTE2PA ?v = 0x80004000" "PTE_FLAGS ?v \<noteq> PTE_V"
    using PTE_V_OR [of "PA2PTE 0x80004000 OR (PTE_R OR PTE_W OR PTE_U)"]
      PTE2PA_PA2PTE [of "PTE_R OR PTE_W OR PTE_U OR PTE_V" "0x80004000"]
      PTE_FLAGS_PA2PTE [of "PTE_R OR PTE_W OR PTE_U OR PTE_V" "0x80004000"]
    by (simp_all add: or.assoc PGROUNDDOWN_eq PTE_R_def PTE_W_def PTE_U_def PTE_V_def)
  have pg: "pages_at (mem vm_demo1) 0x80001000 0 1 = [0x80004000]"
    by (simp add: pages_at_def v f)
  then show "pages_at (mem vm_demo1) 0x80001000 0 1 = [0x80004000]" .
  show "owned vm_demo1 0x80001000 [] 0 1"
    using pg v f demo_map_tree(2)
    by (simp add: owned_def kpage_def page_aligned_unat PHYSTOP_val vm_demo1_def)
qed

theorem uvmunmap_refines_witness:
  "\<exists>s'. uvmunmap 0x80001000 0 1 True vm_demo1 = Ok () s' \<and> vm_inv s' 0x80001000 [0x80004000]"
  using uvmunmap_refines [OF vm_demo1_inv, where va = 0 and npages = 1 and fr = True] vm_demo1_owned
  by (auto simp: page_aligned_unat unmap_ok_def)

section \<open>Growing an address space\<close>

text \<open>
  \<open>grown s0 ps0 pt base perm n s ps\<close>: since state \<open>s0\<close> the \<open>n\<close> pages from \<open>base\<close> on have been
  mapped to fresh pages of zeros, and no page was lost.
\<close>

definition grown :: "'z pmem_scheme \<Rightarrow> u64 list \<Rightarrow> u64 \<Rightarrow> u64 \<Rightarrow> u64 \<Rightarrow> nat \<Rightarrow> 'z pmem_scheme \<Rightarrow> u64 list \<Rightarrow> bool"
  where "grown s0 ps0 pt base perm n s ps \<longleftrightarrow> vm_inv s pt ps \<and> owned s pt ps base n \<and> kend s = kend s0
     \<and> set ps \<union> tables (mem s) pt \<union> set (pages_at (mem s) pt base n) = set ps0 \<union> tables (mem s0) pt
     \<and> tables (mem s0) pt \<subseteq> tables (mem s) pt
     \<and> same_off (set ps0 \<union> tables (mem s0) pt) (mem s0) (mem s)
     \<and> (\<forall>va < MAXVA. vpn va < vpn base \<or> vpn base + n \<le> vpn va \<longrightarrow>
          pte_of (mem s) pt va = pte_of (mem s0) pt va)
     \<and> (\<forall>p \<in> set (pages_at (mem s) pt base n). \<forall>x. in_page p x \<longrightarrow> mem s x = 0)
     \<and> (\<forall>k < n. PTE_FLAGS (pte_of (mem s) pt (base + of_nat k * PGSIZE)) = perm OR PTE_V)"

lemma grown_0: "vm_inv s pt ps \<Longrightarrow> grown s ps pt base perm 0 s ps"
  by (simp add: grown_def)

lemma pages_at_snoc:
  "pages_at m pt a (Suc n) = pages_at m pt a n @ [PTE2PA (pte_of m pt (a + of_nat n * PGSIZE))]"
  by (simp add: pages_at_def)

lemma owned_snoc:
  "owned s pt ps a (Suc n) \<longleftrightarrow> owned s pt ps a n
     \<and> (let v = pte_of (mem s) pt (a + of_nat n * PGSIZE); p = PTE2PA v
        in v AND PTE_V \<noteq> 0 \<and> PTE_FLAGS v \<noteq> PTE_V \<and> kpage s p \<and> p \<notin> set ps
          \<and> p \<notin> tables (mem s) pt \<and> p \<notin> set (pages_at (mem s) pt a n))"
  by (auto simp: owned_def pages_at_snoc All_less_Suc Let_def)

lemma grownD:
  assumes "grown s0 ps0 pt base perm n s ps"
  shows "vm_inv s pt ps" "owned s pt ps base n" "kend s = kend s0"
    "set ps \<union> tables (mem s) pt \<union> set (pages_at (mem s) pt base n) = set ps0 \<union> tables (mem s0) pt"
    "tables (mem s0) pt \<subseteq> tables (mem s) pt"
    "same_off (set ps0 \<union> tables (mem s0) pt) (mem s0) (mem s)"
    "va < MAXVA \<Longrightarrow> vpn va < vpn base \<or> vpn base + n \<le> vpn va \<Longrightarrow>
       pte_of (mem s) pt va = pte_of (mem s0) pt va"
    "p \<in> set (pages_at (mem s) pt base n) \<Longrightarrow> in_page p x \<Longrightarrow> mem s x = 0"
    "k < n \<Longrightarrow> PTE_FLAGS (pte_of (mem s) pt (base + of_nat k * PGSIZE)) = perm OR PTE_V"
  using assms by (auto simp: grown_def)

lemma ownedD:
  assumes "owned s pt ps a n" "p \<in> set (pages_at (mem s) pt a n)"
  shows "kpage s p" "p \<notin> set ps" "p \<notin> tables (mem s) pt"
  using assms by (auto simp: owned_def)

text \<open>Operations that keep the view of the mapped pages and their contents keep \<open>grown\<close>.\<close>

lemma grown_keep:
  assumes g: "grown s0 ps0 pt base perm n s ps" and lim: "unat base + n * 4096 \<le> 2 ^ 38"
    and inv: "vm_inv s' pt ps'" and k: "kend s' = kend s"
    and cons: "set ps' \<union> tables (mem s') pt = set ps \<union> tables (mem s) pt" "tables (mem s) pt \<subseteq> tables (mem s') pt"
    and off: "same_off (set ps \<union> tables (mem s) pt) (mem s) (mem s')"
    and view: "\<And>va. va < MAXVA \<Longrightarrow> pte_of (mem s') pt va = pte_of (mem s) pt va"
  shows "grown s0 ps0 pt base perm n s' ps'"
proof -
  note G = grownD [OF g] and O = ownedD [OF grownD(2) [OF g]]
  have pg: "pages_at (mem s') pt base n = pages_at (mem s) pt base n"
    by (rule pages_at_cong [OF lim]) (rule view)
  have dis: "(set ps' \<union> tables (mem s') pt) \<inter> set (pages_at (mem s) pt base n) = {}"
    unfolding cons(1) using O by auto
  have "owned s' pt ps' base n"
    using dis by (intro owned_cong [OF G(2) lim view _ k]) auto
  moreover have "mem s' x = 0" if "p \<in> set (pages_at (mem s) pt base n)" "in_page p x" for p x
  proof -
    have "same_on {p} (mem s) (mem s')"
      using O [OF that(1)] vm_invD(4,5) [OF G(1)] by (intro same_off_on [OF off]) (auto intro: kpage_aligned)
    then show ?thesis using G(8) [OF that] that(2) by (simp add: same_on_def)
  qed
  moreover have "pte_of (mem s') pt (base + of_nat k * PGSIZE) = pte_of (mem s) pt (base + of_nat k * PGSIZE)"
    if "k < n" for k using vpn_page [OF lim that] view by simp
  moreover have "same_off (set ps0 \<union> tables (mem s0) pt) (mem s0) (mem s')"
    using same_off_trans [OF G(6) off] by (rule same_off_mono) (use G(4) in auto)
  moreover have "set ps' \<union> tables (mem s') pt \<union> set (pages_at (mem s) pt base n) = set ps0 \<union> tables (mem s0) pt"
    unfolding cons(1) by (rule G(4))
  ultimately show ?thesis
    unfolding grown_def pg using inv k G(3,5,7,9) cons(2) view by auto
qed

lemma unat_add_page:
  assumes "unat base + Suc n * 4096 \<le> 2 ^ 38" "page_aligned base"
  shows "page_aligned (base + of_nat n * PGSIZE)"
proof -
  have "unat (of_nat n * PGSIZE) = n * 4096" using assms(1) by (intro unat_pages) simp
  then have "unat (base + of_nat n * PGSIZE) = unat base + n * 4096"
    using assms(1) by (simp add: unat_word_ariths)
  with assms(2) show ?thesis by (simp add: page_aligned_unat)
qed

text \<open>What mapping one more page does.\<close>

lemma grown_Suc:
  assumes g: "grown s0 ps0 pt base perm n s (p # ps)" and lim: "unat base + Suc n * 4096 \<le> 2 ^ 38"
    and perm: "perm < 0x400" "perm OR PTE_V \<noteq> PTE_V"
    and inv: "vm_inv s' pt ps'" "kend s' = kend s"
    and T: "set ps' \<union> tables (mem s') pt = set ps \<union> tables (mem s) pt" "tables (mem s) pt \<subseteq> tables (mem s') pt"
    and off: "same_off (insert p (set ps \<union> tables (mem s) pt)) (mem s) (mem s')"
    and zero: "\<And>x. in_page p x \<Longrightarrow> mem s' x = 0"
    and view: "\<And>va. va < MAXVA \<Longrightarrow> pte_of (mem s') pt va
      = (if vpn va = vpn base + n then PA2PTE p OR perm OR PTE_V else pte_of (mem s) pt va)"
  shows "grown s0 ps0 pt base perm (Suc n) s' ps'"
proof -
  note G = grownD [OF g] and O = ownedD [OF grownD(2) [OF g]] and I = vm_invD [OF grownD(1) [OF g]]
  let ?B = "pages_at (mem s) pt base n" and ?a = "base + of_nat n * PGSIZE"
  have lim': "unat base + n * 4096 \<le> 2 ^ 38" using lim by simp
  have p: "kpage s p" "p \<notin> set ps" "p \<notin> tables (mem s) pt" "p \<notin> set ?B"
    using I(1,3,5) O(2) [of p] by (auto simp: free_pages_def)
  have v: "pte_of (mem s') pt ?a = PA2PTE p OR perm OR PTE_V"
    using view vpn_page [OF lim, of n] by simp
  note f = leaf_entry [OF perm(1) kpage_aligned [OF p(1)]]
  have vn: "pte_of (mem s') pt va = pte_of (mem s) pt va" if "va < MAXVA" "vpn va < vpn base + n" for va
    using view that by simp
  have pg: "pages_at (mem s') pt base n = ?B" by (rule pages_at_cong [OF lim']) (rule vn)
  have dis: "(set ps' \<union> tables (mem s') pt) \<inter> set ?B = {}" unfolding T(1) using O by auto
  have "owned s' pt ps' base n" using dis by (intro owned_cong [OF G(2) lim' vn _ inv(2)]) auto
  moreover have "p \<notin> set ps' \<union> tables (mem s') pt" unfolding T(1) using p by simp
  moreover have "kpage s' = kpage s" using inv(2) by (simp add: kpage_def fun_eq_iff)
  ultimately have own: "owned s' pt ps' base (Suc n)"
    using p perm(2) by (simp add: owned_snoc v f pg Let_def)
  have "mem s' x = 0" if "q \<in> set ?B" "in_page q x" for q x
  proof -
    have "same_on {q} (mem s) (mem s')"
      using O [OF that(1)] p I(4,5) that(1) by (intro same_off_on [OF off]) (auto intro: kpage_aligned)
    then show ?thesis using G(8) [OF that] that(2) by (simp add: same_on_def)
  qed
  then have z: "\<forall>q \<in> set (pages_at (mem s') pt base (Suc n)). \<forall>x. in_page q x \<longrightarrow> mem s' x = 0"
    using zero by (simp add: pages_at_snoc pg v f)
  have "pte_of (mem s') pt (base + of_nat k * PGSIZE) = pte_of (mem s) pt (base + of_nat k * PGSIZE)"
    if "k < n" for k using vpn_page [OF lim' that] vn that by simp
  then have fl: "\<forall>k < Suc n. PTE_FLAGS (pte_of (mem s') pt (base + of_nat k * PGSIZE)) = perm OR PTE_V"
    using G(9) by (simp add: less_Suc_eq v f)
  have o: "same_off (set ps0 \<union> tables (mem s0) pt) (mem s0) (mem s')"
    using same_off_trans [OF G(6) off] by (rule same_off_mono) (use G(4) in auto)
  have "set ps' \<union> tables (mem s') pt \<union> set (pages_at (mem s') pt base (Suc n)) = set ps0 \<union> tables (mem s0) pt"
    using G(4) unfolding T(1) by (auto simp: pages_at_snoc pg v f)
  with own z fl o show ?thesis
    unfolding grown_def using inv G(3,5,7) T(2) view by auto
qed

lemma grown_step:
  assumes g: "grown s0 ps0 pt base perm n s (p # ps)" and lim: "unat base + Suc n * 4096 \<le> 2 ^ 38"
    and al: "page_aligned base" and free: "pte_of (mem s0) pt (base + of_nat n * PGSIZE) AND PTE_V = 0"
    and perm: "perm < 0x400" "perm OR PTE_V \<noteq> PTE_V"
  obtains s1 r s3 where "kalloc s = Ok p s1" "p \<noteq> 0"
    "mappages pt (base + of_nat n * PGSIZE) PGSIZE p perm (s1\<lparr>mem := memset (mem s1) p 0 4096\<rparr>) = Ok r s3"
    "r = 0 \<Longrightarrow> \<exists>ps3. grown s0 ps0 pt base perm (Suc n) s3 ps3"
    "r \<noteq> 0 \<Longrightarrow> \<exists>s4. kfree p s3 = Ok () s4 \<and> grown s0 ps0 pt base perm n s4 [p]"
proof -
  let ?a = "base + of_nat n * PGSIZE"
  note a = vpn_page [OF lim lessI] and al' = unat_add_page [OF lim al]
  have lim': "unat base + n * 4096 \<le> 2 ^ 38" using lim by simp
  obtain s1 where s1: "kalloc s = Ok p s1" "p \<noteq> 0" "kpage s p" "p \<notin> set ps" "p \<notin> tables (mem s) pt"
    "vm_inv s1 pt ps" "tables (mem s1) pt = tables (mem s) pt" "pte_of (mem s1) pt = pte_of (mem s) pt"
    "same_off {p} (mem s) (mem s1)" "kend s1 = kend s"
    by (rule vm_kalloc [OF grownD(1) [OF g]])
  let ?s2 = "s1\<lparr>mem := memset (mem s1) p 0 4096\<rparr>"
  have D: "vm_inv ?s2 pt ps" "tables (mem ?s2) pt = tables (mem s) pt" "pte_of (mem ?s2) pt = pte_of (mem s) pt"
    using vm_inv_data [OF s1(6) same_off_memset, of p 0] s1(3-5,7,8) by (auto intro: kpage_aligned)
  have off2: "same_off {p} (mem s) (mem ?s2)"
    using same_off_trans [OF s1(9) same_off_memset, of p 0] by simp
  have "pte_of (mem ?s2) pt ?a AND PTE_V = 0" using grownD(7) [OF g a(1)] a(2) free D(3) by simp
  from mappages_one [OF D(1) al' a(1) this, of p perm] obtain r s3 ps3 where
    m: "mappages pt ?a PGSIZE p perm ?s2 = Ok r s3" "vm_inv s3 pt ps3" "vm_frame pt ps ?s2 ps3 s3"
      "r \<noteq> 0 \<Longrightarrow> r = -1 \<and> ps3 = []"
      "\<And>va. va < MAXVA \<Longrightarrow> pte_of (mem s3) pt va
         = (if r = 0 \<and> vpn va = vpn ?a then PA2PTE p OR perm OR PTE_V else pte_of (mem ?s2) pt va)"
    by blast
  obtain qs where qs: "ps = qs @ ps3" "tables (mem s3) pt = tables (mem s) pt \<union> set qs"
    "same_off (tables (mem s) pt \<union> set qs) (mem ?s2) (mem s3)" "kend s3 = kend s"
    using m(3) D(2) s1(10) by (auto simp: vm_frame_def)
  have off3: "same_off (insert p (set ps \<union> tables (mem s) pt)) (mem s) (mem s3)"
    using same_off_trans [OF off2 qs(3)] by (rule same_off_mono) (use qs(1) in auto)
  have kp: "kpage ?s2 = kpage s" "kpage s3 = kpage s" using s1(10) qs(4) by (simp_all add: kpage_def fun_eq_iff)
  have zero: "mem s3 x = 0" if "in_page p x" for x
    using vm_frame_page [OF m(3) D(1) _ s1(4) _ that] s1(3,5) kp D(2) that by (simp add: memset_page)
  show thesis
  proof (rule that [OF s1(1,2) m(1)])
    assume "r = 0"
    then have view: "pte_of (mem s3) pt va
        = (if vpn va = vpn base + n then PA2PTE p OR perm OR PTE_V else pte_of (mem s) pt va)"
      if "va < MAXVA" for va using m(5) [OF that] a(2) D(3) by simp
    have "set ps3 \<union> tables (mem s3) pt = set ps \<union> tables (mem s) pt" "tables (mem s) pt \<subseteq> tables (mem s3) pt"
      using qs(1,2) by auto
    from grown_Suc [OF g lim perm m(2) qs(4) this off3 zero view]
    show "\<exists>ps3. grown s0 ps0 pt base perm (Suc n) s3 ps3" by blast
  next
    assume "r \<noteq> 0"
    with m(4) qs(1) have r: "ps3 = []" "tables (mem s3) pt = tables (mem s) pt \<union> set ps" using qs(2) by auto
    obtain s4 where s4: "kfree p s3 = Ok () s4" "vm_inv s4 pt (p # ps3)" "tables (mem s4) pt = tables (mem s3) pt"
      "pte_of (mem s4) pt = pte_of (mem s3) pt" "same_off {p} (mem s3) (mem s4)" "kend s4 = kend s3"
      by (rule vm_kfree [OF m(2), of p]) (use s1(3-5) kp r in auto)
    have "same_off (set (p # ps) \<union> tables (mem s) pt) (mem s) (mem s4)"
      using same_off_trans [OF off3 s4(5)] by (rule same_off_mono) auto
    moreover have "pte_of (mem s4) pt va = pte_of (mem s) pt va" if "va < MAXVA" for va
      using m(5) [OF that] s4(4) D(3) \<open>r \<noteq> 0\<close> by simp
    moreover have "set [p] \<union> tables (mem s4) pt = set (p # ps) \<union> tables (mem s) pt"
      "tables (mem s) pt \<subseteq> tables (mem s4) pt" "kend s4 = kend s" "vm_inv s4 pt [p]"
      using s4 r qs(4) by auto
    ultimately have "grown s0 ps0 pt base perm n s4 [p]" by (intro grown_keep [OF g lim'])
    with s4(1) show "\<exists>s4. kfree p s3 = Ok () s4 \<and> grown s0 ps0 pt base perm n s4 [p]" by blast
  qed
qed

lemma scast_ucast_npages: "unat x < 2 ^ 31 \<Longrightarrow> scast (ucast x :: u32) = (x :: u64)"
proof -
  assume x: "unat x < 2 ^ 31"
  have "int (unat x) < 2 ^ 31" using x by (metis of_nat_less_iff of_nat_numeral of_nat_power)
  then have xi: "uint x < 2 ^ 31" by (simp only: uint_nat)
  then have "uint (ucast x :: u32) = uint x" by (simp add: unsigned_ucast_eq take_bit_int_eq_self)
  then have "sint (ucast x :: u32) = uint x" using xi by (simp add: sint_u32)
  then have "word_of_int (sint (ucast x :: u32)) = x" by simp
  then show ?thesis by (simp only: signed_eq_0_iff of_int_sint)
qed

lemma uvmdealloc_spec:
  assumes inv: "vm_inv s pt ps" and lim: "unat oldsz \<le> 2 ^ 38" "newsz < oldsz"
    and n: "unat (PGROUNDUP newsz) + n * 4096 = unat (PGROUNDUP oldsz)"
    and own: "owned s pt ps (PGROUNDUP newsz) n"
  defines "pgs \<equiv> pages_at (mem s) pt (PGROUNDUP newsz) n"
  shows "\<exists>s'. uvmdealloc pt oldsz newsz s = Ok newsz s' \<and> vm_inv s' pt (rev pgs @ ps)
    \<and> tables (mem s') pt = tables (mem s) pt \<and> kend s' = kend s
    \<and> same_off (tables (mem s) pt \<union> set pgs) (mem s) (mem s')
    \<and> (\<forall>va < MAXVA. pte_of (mem s') pt va = unmap_view (pte_of (mem s) pt) (PGROUNDUP newsz) n va)"
proof (cases "n = 0")
  case True
  then have "PGROUNDUP newsz = PGROUNDUP oldsz" using n by (simp add: word_unat_eq_iff)
  with True inv lim show ?thesis by (auto simp: uvmdealloc_def pgs_def unmap_view_def)
next
  case False
  have r: "unat (PGROUNDUP oldsz) = (unat oldsz + 4095) div 4096 * 4096"
    using lim by (intro unat_PGROUNDUP) simp
  then have le: "unat (PGROUNDUP newsz) + n * 4096 \<le> 2 ^ 38" using lim(1) n by simp
  have lt: "PGROUNDUP newsz < PGROUNDUP oldsz" using False n by (simp add: word_less_nat_alt)
  have "n = unat ((PGROUNDUP oldsz - PGROUNDUP newsz) div PGSIZE)"
    using lt n by (simp add: unat_div unat_sub PGSIZE_def less_imp_le)
  then have np: "(PGROUNDUP oldsz - PGROUNDUP newsz) div PGSIZE = of_nat n" by simp
  have "n < 2 ^ 31" using le by simp
  then have u: "unat (of_nat n :: u64) = n" "unat (of_nat n :: u64) < 2 ^ 31" by (simp_all add: unat_of_nat_lt)
  have "\<not> oldsz \<le> newsz" using lim(2) by simp
  then have "uvmdealloc pt oldsz newsz s = bnd (uvmunmap_loop pt (PGROUNDUP newsz)
      (PGROUNDUP newsz + of_nat n * PGSIZE) True s) (\<lambda>_ s. Ok newsz s)"
    using lt page_aligned_PGROUNDUP [of newsz]
    by (simp only: uvmdealloc_def uvmunmap_def Let_def np scast_ucast_npages [OF u(2)] page_aligned_def) simp
  moreover have "unmap_ok True s pt ps (PGROUNDUP newsz) n" using own by (simp add: unmap_ok_def)
  ultimately show ?thesis
    using uvmunmap_loop_spec [OF inv le, of True] by (simp only: if_True pgs_def) (metis bnd.simps(1))
qed

lemma PGROUNDUP_aligned: "page_aligned a \<Longrightarrow> unat a + 4095 < 2 ^ 64 \<Longrightarrow> PGROUNDUP a = a"
proof -
  assume a: "page_aligned a" "unat a + 4095 < 2 ^ 64"
  then obtain k where "unat a = 4096 * k" by (auto simp: page_aligned_unat elim!: dvdE)
  then have "unat (PGROUNDUP a) = unat a" using unat_PGROUNDUP [OF a(2)] by simp
  then show ?thesis by (simp add: word_unat_eq_iff)
qed

text \<open>
  \<open>as_before s ps pt s' ps'\<close>: the view of \<open>pt\<close> is that of \<open>s\<close> and no page is lost, though
  tables may have been added.
\<close>

definition as_before :: "'z pmem_scheme \<Rightarrow> u64 list \<Rightarrow> u64 \<Rightarrow> 'z pmem_scheme \<Rightarrow> u64 list \<Rightarrow> bool" where
  "as_before s ps pt s' ps' \<longleftrightarrow> vm_inv s' pt ps' \<and> kend s' = kend s
     \<and> set ps' \<union> tables (mem s') pt = set ps \<union> tables (mem s) pt
     \<and> same_off (set ps \<union> tables (mem s) pt) (mem s) (mem s')
     \<and> (\<forall>va < MAXVA. pte_of (mem s') pt va = pte_of (mem s) pt va)"

text \<open>The clean-up after a failed allocation.\<close>

lemma grown_dealloc:
  assumes g: "grown s0 ps0 pt base perm n s ps" and lim: "unat base + n * 4096 \<le> 2 ^ 38" "page_aligned base"
    and free: "\<And>va. va < MAXVA \<Longrightarrow> vpn base \<le> vpn va \<Longrightarrow> vpn va < vpn base + n \<Longrightarrow> pte_of (mem s0) pt va = 0"
  shows "\<exists>r s' ps'. uvmdealloc pt (base + of_nat n * PGSIZE) base s = Ok r s' \<and> as_before s0 ps0 pt s' ps'"
proof (cases "n = 0")
  case True
  then have "as_before s0 ps0 pt s ps" using g by (auto simp: as_before_def grown_def)
  with True show ?thesis by (auto simp: uvmdealloc_def)
next
  case False
  note G = grownD [OF g]
  let ?a = "base + of_nat n * PGSIZE"
  have "n * 4096 < 2 ^ 64" using lim by simp
  then have u: "unat ?a = unat base + n * 4096"
    using lim unat_pages [of n] by (simp add: unat_word_ariths)
  have al: "page_aligned ?a" using lim(2) by (simp add: page_aligned_unat u)
  have R: "PGROUNDUP base = base" "PGROUNDUP ?a = ?a"
    using lim al u by (simp_all add: PGROUNDUP_aligned)
  have lt: "base < ?a" using False u by (simp add: word_less_nat_alt)
  from uvmdealloc_spec [OF G(1) _ lt, of n] u R lim(1) G(2) obtain s' where
    s': "uvmdealloc pt ?a base s = Ok base s'" "vm_inv s' pt (rev (pages_at (mem s) pt base n) @ ps)"
      "tables (mem s') pt = tables (mem s) pt" "kend s' = kend s"
      "same_off (tables (mem s) pt \<union> set (pages_at (mem s) pt base n)) (mem s) (mem s')"
      "\<forall>va < MAXVA. pte_of (mem s') pt va = unmap_view (pte_of (mem s) pt) base n va" by auto
  have "pte_of (mem s') pt va = pte_of (mem s0) pt va" if "va < MAXVA" for va
    using s'(6) that free [OF that] G(7) [OF that] by (auto simp: unmap_view_def not_less not_le)
  moreover have "same_off (set ps0 \<union> tables (mem s0) pt) (mem s0) (mem s')"
    using same_off_trans [OF G(6) s'(5)] by (rule same_off_mono) (use G(4) in auto)
  moreover have "set (rev (pages_at (mem s) pt base n) @ ps) \<union> tables (mem s') pt = set ps0 \<union> tables (mem s0) pt"
    using G(4) s'(3) by auto
  ultimately have "as_before s0 ps0 pt s' (rev (pages_at (mem s) pt base n) @ ps)"
    using s'(2,4) G(3) by (simp add: as_before_def)
  with s'(1) show ?thesis by blast
qed

lemma user_perm:
  assumes "xperm < 0x400"
  shows "PTE_R OR PTE_U OR xperm < 0x400" "(PTE_R OR PTE_U OR xperm) OR PTE_V \<noteq> PTE_V"
proof -
  show "PTE_R OR PTE_U OR xperm < 0x400"
    using assms by (intro or_less_1024) (simp_all add: PTE_R_def PTE_U_def)
  show "(PTE_R OR PTE_U OR xperm) OR PTE_V \<noteq> PTE_V"
  proof
    assume "(PTE_R OR PTE_U OR xperm) OR PTE_V = PTE_V"
    then have "bit ((PTE_R OR PTE_U OR xperm) OR PTE_V) 1 = bit PTE_V 1" by simp
    then show False by (simp add: bit_simps PTE_R_def PTE_V_def)
  qed
qed

lemma uvmalloc_loop_spec:
  assumes g: "grown s0 ps0 pt base (PTE_R OR PTE_U OR xperm) n s ps"
    and lim: "unat base + N * 4096 \<le> 2 ^ 38" "page_aligned base" "xperm < 0x400" "n \<le> N"
    and N: "\<And>k. k \<le> N \<Longrightarrow> base + of_nat k * PGSIZE < newsz \<longleftrightarrow> k < N"
    and free: "\<And>va. va < MAXVA \<Longrightarrow> vpn base \<le> vpn va \<Longrightarrow> vpn va < vpn base + N \<Longrightarrow> pte_of (mem s0) pt va = 0"
  shows "\<exists>s' ps'. uvmalloc_loop pt (base + of_nat n * PGSIZE) base newsz xperm s = Ok newsz s'
        \<and> grown s0 ps0 pt base (PTE_R OR PTE_U OR xperm) N s' ps'
     \<or> uvmalloc_loop pt (base + of_nat n * PGSIZE) base newsz xperm s = Ok 0 s' \<and> as_before s0 ps0 pt s' ps'"
  using g lim(4)
proof (induction "N - n" arbitrary: n s ps)
  case 0
  then have "n = N" by simp
  with 0 N [of N] show ?case by (subst (1 2) uvmalloc_loop.simps) auto
next
  case (Suc d)
  then have n: "n < N" by simp
  let ?a = "base + of_nat n * PGSIZE" and ?perm = "PTE_R OR PTE_U OR xperm"
  have lt: "?a < newsz" using N [of n] n by simp
  have lim': "unat base + n * 4096 \<le> 2 ^ 38" "unat base + Suc n * 4096 \<le> 2 ^ 38" using lim(1) n by simp_all
  have free': "pte_of (mem s0) pt va = 0" if "va < MAXVA" "vpn base \<le> vpn va" "vpn va < vpn base + n" for va
    using free that n by simp
  show ?case
  proof (cases ps)
    case Nil
    then have "kalloc s = Ok 0 s" using kalloc_empty vm_invD(1) [OF grownD(1) [OF Suc.prems(1)]] by blast
    moreover obtain r s' ps' where "uvmdealloc pt ?a base s = Ok r s'" "as_before s0 ps0 pt s' ps'"
      using grown_dealloc [OF Suc.prems(1) lim'(1) lim(2) free'] by blast
    ultimately have "uvmalloc_loop pt ?a base newsz xperm s = Ok 0 s' \<and> as_before s0 ps0 pt s' ps'"
      using lt by (subst uvmalloc_loop.simps) simp
    then show ?thesis by blast
  next
    case (Cons p qs)
    have "pte_of (mem s0) pt ?a AND PTE_V = 0"
      using free [OF vpn_page(1) [OF lim(1) n]] vpn_page(2) [OF lim(1) n] n by simp
    from grown_step [OF Suc.prems(1) [unfolded Cons] lim'(2) lim(2) this user_perm [OF lim(3)]]
    obtain s1 r s3 where k: "kalloc s = Ok p s1" "p \<noteq> 0"
      "mappages pt ?a PGSIZE p ?perm (s1\<lparr>mem := memset (mem s1) p 0 4096\<rparr>) = Ok r s3"
      "r = 0 \<Longrightarrow> \<exists>ps3. grown s0 ps0 pt base ?perm (Suc n) s3 ps3"
      "r \<noteq> 0 \<Longrightarrow> \<exists>s4. kfree p s3 = Ok () s4 \<and> grown s0 ps0 pt base ?perm n s4 [p]" by blast
    show ?thesis
    proof (cases "r = 0")
      case True
      with k(4) obtain ps3 where "grown s0 ps0 pt base ?perm (Suc n) s3 ps3" by blast
      moreover have "uvmalloc_loop pt ?a base newsz xperm s
          = uvmalloc_loop pt (base + of_nat (Suc n) * PGSIZE) base newsz xperm s3"
        using lt k(1-3) True by (subst uvmalloc_loop.simps) (simp add: Let_def algebra_simps)
      ultimately show ?thesis using Suc.hyps(1) [of "Suc n" s3 ps3] Suc.hyps(2) n by simp
    next
      case False
      with k(5) obtain s4 where s4: "kfree p s3 = Ok () s4" "grown s0 ps0 pt base ?perm n s4 [p]" by blast
      obtain r' s' ps' where "uvmdealloc pt ?a base s4 = Ok r' s'" "as_before s0 ps0 pt s' ps'"
        using grown_dealloc [OF s4(2) lim'(1) lim(2) free'] by blast
      then have "uvmalloc_loop pt ?a base newsz xperm s = Ok 0 s' \<and> as_before s0 ps0 pt s' ps'"
        using lt k(1-3) False s4(1) by (subst uvmalloc_loop.simps) (simp add: Let_def)
      then show ?thesis by blast
    qed
  qed
qed

text \<open>
  C20. Growing an address space is all or nothing: if the pages above the old size are
  unmapped, \<open>uvmalloc\<close> either returns the new size with every page of the added range mapped,
  readable by the user, to its own fresh page of zeros, or returns 0 with the mappings as
  before. In both cases no physical page is lost or shared.
\<close>

theorem uvmalloc_atomic:
  assumes "vm_inv s pt ps" "oldsz \<le> newsz" "unat newsz \<le> unat TRAPFRAME" "xperm < 0x400"
    "\<And>va. va < MAXVA \<Longrightarrow> PGROUNDUP oldsz \<le> va \<Longrightarrow> va < PGROUNDUP newsz \<Longrightarrow> pte_of (mem s) pt va = 0"
  shows "\<exists>s' ps'. uvmalloc pt oldsz newsz xperm s = Ok newsz s'
        \<and> grown s ps pt (PGROUNDUP oldsz) (PTE_R OR PTE_U OR xperm)
            ((unat (PGROUNDUP newsz) - unat (PGROUNDUP oldsz)) div 4096) s' ps'
     \<or> uvmalloc pt oldsz newsz xperm s = Ok 0 s' \<and> as_before s ps pt s' ps'"
proof -
  define i j where "i = (unat oldsz + 4095) div 4096" and "j = (unat newsz + 4095) div 4096"
  have w: "unat newsz \<le> 2 ^ 38 - 8192" "unat oldsz \<le> unat newsz"
    using assms(2,3) by (simp_all add: TRAPFRAME_def TRAMPOLINE_def MAXVA_val PGSIZE_def word_le_nat_alt)
  have u: "unat (PGROUNDUP oldsz) = 4096 * i" "unat (PGROUNDUP newsz) = 4096 * j"
    using w by (simp_all add: unat_PGROUNDUP i_def j_def)
  have ij: "i \<le> j" "unat newsz \<le> 4096 * j" "0 < j \<Longrightarrow> 4096 * (j - 1) < unat newsz" "4096 * j \<le> 2 ^ 38"
    using w by (auto simp: i_def j_def intro!: div_le_mono)
  have N: "PGROUNDUP oldsz + of_nat k * PGSIZE < newsz \<longleftrightarrow> k < j - i" if "k \<le> j - i" for k
  proof -
    have "k * 4096 < 2 ^ 64" using that ij by simp
    then have "unat (PGROUNDUP oldsz + of_nat k * PGSIZE) = 4096 * (i + k)"
      using unat_pages [of k] u that ij by (simp add: unat_word_ariths)
    moreover have "4096 * (i + k) < unat newsz" if "k < j - i"
    proof -
      have "4096 * (i + k) \<le> 4096 * (j - 1)" "0 < j" using that by simp_all
      then show ?thesis using ij(3) by simp
    qed
    moreover have "k = j - i \<Longrightarrow> unat newsz \<le> 4096 * (i + k)" using ij by simp
    ultimately show ?thesis using that by (auto simp: word_less_nat_alt le_less)
  qed
  have free: "pte_of (mem s) pt va = 0"
    if "va < MAXVA" "vpn (PGROUNDUP oldsz) \<le> vpn va" "vpn va < vpn (PGROUNDUP oldsz) + (j - i)" for va
  proof (rule assms(5) [OF that(1)])
    have "i \<le> unat va div 4096" "unat va div 4096 < j" using that(2,3) u ij(1) by (simp_all add: vpn_def)
    then have "i * 4096 \<le> unat va" "unat va < j * 4096"
      using less_eq_div_iff_mult_less_eq [of 4096 i "unat va"] div_less_iff_less_mult [of 4096 "unat va" j]
      by simp_all
    then show "PGROUNDUP oldsz \<le> va" "va < PGROUNDUP newsz"
      using u by (simp_all add: word_le_nat_alt word_less_nat_alt)
  qed
  have lim: "unat (PGROUNDUP oldsz) + (j - i) * 4096 \<le> 2 ^ 38" using u ij by simp
  have n: "(unat (PGROUNDUP newsz) - unat (PGROUNDUP oldsz)) div 4096 = j - i"
    using u by (simp add: diff_mult_distrib2 [symmetric])
  have "\<not> newsz < oldsz" using assms(2) by simp
  then have e: "uvmalloc pt oldsz newsz xperm s
      = uvmalloc_loop pt (PGROUNDUP oldsz + of_nat 0 * PGSIZE) (PGROUNDUP oldsz) newsz xperm s"
    by (simp add: uvmalloc_def)
  show ?thesis
    unfolding n e
    by (rule uvmalloc_loop_spec [OF grown_0 [OF assms(1)] lim page_aligned_PGROUNDUP assms(4) le0 N free])
qed

theorem uvmalloc_atomic_witness:
  "\<exists>s' ps'. uvmalloc 0x80001000 0x1000 0x2800 PTE_W vm_demo = Ok 0x2800 s'
        \<and> grown vm_demo [0x80002000, 0x80003000] 0x80001000 0x1000 (PTE_R OR PTE_U OR PTE_W) 2 s' ps'
     \<or> uvmalloc 0x80001000 0x1000 0x2800 PTE_W vm_demo = Ok 0 s'
        \<and> as_before vm_demo [0x80002000, 0x80003000] 0x80001000 s' ps'"
proof -
  have "PGROUNDUP 0x1000 = 0x1000" "PGROUNDUP 0x2800 = 0x3000" by (simp_all add: PGROUNDUP_def PGSIZE_def)
  then show ?thesis
    using uvmalloc_atomic [OF vm_demo_inv, of "0x1000" "0x2800" PTE_W] vm_demo_pte
    by (simp add: PTE_W_def TRAPFRAME_def TRAMPOLINE_def MAXVA_val PGSIZE_def)
qed

end
