(* ===== verification/Usercopy.thy ===== *)
theory Usercopy
  imports Uspace
begin

text \<open>
  Copying between kernel and user memory: \<open>copyin\<close>, \<open>copyinstr\<close> and \<open>copyout\<close> of
  \<^verbatim>\<open>kernel/vm.c\<close> related to a byte-wise view of user memory. \<open>uaddr\<close> is the physical page of
  a virtual address the user may read, 0 if there is none; \<open>upa\<close> is the physical address of
  the byte.
\<close>

definition uaddr :: "bytes \<Rightarrow> u64 \<Rightarrow> u64 \<Rightarrow> u64" where
  "uaddr m pt va =
     (if va < MAXVA \<and> pte_of m pt va AND PTE_V \<noteq> 0 \<and> pte_of m pt va AND PTE_U \<noteq> 0
      then PTE2PA (pte_of m pt va) else 0)"

definition upa :: "bytes \<Rightarrow> u64 \<Rightarrow> u64 \<Rightarrow> u64" where
  "upa m pt va = PTE2PA (pte_of m pt va) + (va - PGROUNDDOWN va)"

definition ubyte :: "bytes \<Rightarrow> u64 \<Rightarrow> u64 \<Rightarrow> u8" where
  "ubyte m pt va = m (upa m pt va)"

section \<open>Positions in a page\<close>

lemma vpn_PGROUNDDOWN [simp]: "vpn (PGROUNDDOWN va) = vpn va"
  by (simp add: vpn_def unat_PGROUNDDOWN)

lemma PGROUNDDOWN_less_MAXVA: "PGROUNDDOWN va < MAXVA \<longleftrightarrow> va < MAXVA"
proof -
  have "unat va div 4096 * 4096 < 67108864 * 4096 \<longleftrightarrow> unat va div 4096 < 67108864" by simp
  also have "\<dots> \<longleftrightarrow> unat va < 67108864 * 4096" using div_less_iff_less_mult [of 4096 "unat va" 67108864] by simp
  finally show ?thesis by (simp add: unat_less_MAXVA unat_PGROUNDDOWN)
qed

lemma page_offset: "unat (va - PGROUNDDOWN va) = unat va mod 4096"
proof -
  have "va - PGROUNDDOWN va = va mod 4096" by (simp add: PGROUNDDOWN_eq)
  then show ?thesis by (simp add: unat_mod)
qed

lemma chunk_eq: "chunk va len = min len (4096 - unat va mod 4096)"
proof -
  have "unat (PGSIZE - (va - PGROUNDDOWN va)) = 4096 - unat va mod 4096"
    using page_offset_less [of va] by (simp add: PGSIZE_def unat_sub word_le_nat_alt page_offset)
  then show ?thesis by (simp add: chunk_def Let_def min_def)
qed

text \<open>The bytes of a chunk lie in one page, at consecutive offsets.\<close>

lemma unat_in_chunk:
  assumes "i < chunk va len"
  shows "unat (va + of_nat i) = unat va + i" "vpn (va + of_nat i) = vpn va"
    "PGROUNDDOWN (va + of_nat i) = PGROUNDDOWN va"
proof -
  define q r where "q = unat va div 4096" and "r = unat va mod 4096"
  have va: "unat va = 4096 * q + r" "r < 4096" by (simp_all add: q_def r_def)
  have "i < 4096 - r" using assms by (simp add: chunk_eq r_def)
  then have i: "r + i < 4096" by simp
  have "unat va < 2 ^ 64" using unsigned_less [of va] by simp
  then have "q < 2 ^ 52" using va(1) by simp
  then have lt: "unat va + i < 2 ^ 64" using va(1) i by simp
  then have "unat (of_nat i :: u64) = i" by (intro unat_of_nat_lt) simp
  with lt show u: "unat (va + of_nat i) = unat va + i" by (simp add: unat_word_ariths)
  have "(unat va + i) div 4096 = unat va div 4096" using i va by simp
  then show v: "vpn (va + of_nat i) = vpn va" by (simp add: vpn_def u)
  then have "unat (PGROUNDDOWN (va + of_nat i)) = unat (PGROUNDDOWN va)"
    by (simp add: unat_PGROUNDDOWN vpn_def)
  then show "PGROUNDDOWN (va + of_nat i) = PGROUNDDOWN va" by (simp add: word_unat_eq_iff)
qed

lemma next_page:
  assumes "chunk va len < len"
  shows "PGROUNDDOWN va + PGSIZE = va + of_nat (chunk va len)"
proof -
  have c: "chunk va len = 4096 - unat va mod 4096" using assms by (simp add: chunk_eq)
  have "of_nat (unat va mod 4096) = va mod (4096 :: u64)"
    by (simp add: word_arith_nat_mod)
  then have "(of_nat (4096 - unat va mod 4096) :: u64) = 4096 - va mod 4096"
    using mod_less_divisor [of 4096 "unat va"] by (subst of_nat_diff) simp_all
  then show ?thesis by (simp add: c PGROUNDDOWN_eq PGSIZE_def)
qed

lemma upa_in_chunk:
  assumes "i < chunk va len" "va < MAXVA"
  shows "va + of_nat i < MAXVA" "pte_of m pt (va + of_nat i) = pte_of m pt va"
    "uaddr m pt (va + of_nat i) = uaddr m pt va" "upa m pt (va + of_nat i) = upa m pt va + of_nat i"
proof -
  note c = unat_in_chunk [OF assms(1)]
  show lt: "va + of_nat i < MAXVA"
    using PGROUNDDOWN_less_MAXVA [of "va + of_nat i"] PGROUNDDOWN_less_MAXVA [of va] c(3) assms(2) by simp
  show pte: "pte_of m pt (va + of_nat i) = pte_of m pt va" by (rule pte_of_vpn [OF lt assms(2) c(2)])
  show "uaddr m pt (va + of_nat i) = uaddr m pt va" using lt assms(2) by (simp add: uaddr_def pte)
  show "upa m pt (va + of_nat i) = upa m pt va + of_nat i" by (simp add: upa_def pte c(3) algebra_simps)
qed

section \<open>Reading user memory\<close>

lemma walkaddr_uaddr:
  assumes inv: "vm_inv s pt ps"
  shows "walkaddr pt (PGROUNDDOWN va) s = Ok (uaddr (mem s) pt va) s"
proof (cases "va < MAXVA")
  case False
  then have "\<not> PGROUNDDOWN va < MAXVA" by (simp only: PGROUNDDOWN_less_MAXVA not_False_eq_True)
  then have "MAXVA \<le> PGROUNDDOWN va" by (simp only: not_less)
  with False show ?thesis by (simp add: walkaddr_def uaddr_def)
next
  case True
  then have lt: "PGROUNDDOWN va < MAXVA" by (simp add: PGROUNDDOWN_less_MAXVA)
  then have nle: "\<not> MAXVA \<le> PGROUNDDOWN va" by (simp only: not_le)
  have p: "pte_of (mem s) pt (PGROUNDDOWN va) = pte_of (mem s) pt va"
    by (rule pte_of_vpn [OF lt True]) simp
  show ?thesis
  proof (cases "leaf (mem s) pt (PGROUNDDOWN va)")
    case None
    then have "pte_of (mem s) pt va = 0" using p by (simp add: pte_of_def)
    with None True nle lt show ?thesis by (simp add: walkaddr_def walk_ro uaddr_def)
  next
    case (Some x)
    then have "x \<noteq> 0" "load64 (mem s) x = pte_of (mem s) pt va"
      using leaf_nonzero [OF inv Some] p by (auto simp: pte_of_def)
    with Some True nle lt show ?thesis by (simp add: walkaddr_def walk_ro uaddr_def Let_def)
  qed
qed

lemma read_bytes_eq: "read_bytes m a n = map (\<lambda>i. m (a + of_nat i)) [0..<n]"
proof (induction n arbitrary: a)
  case (Suc n)
  then show ?case
    by (simp add: upt_conv_Cons map_Suc_upt [symmetric] comp_def algebra_simps del: upt_Suc map_Suc_upt)
qed simp

lemma map_upt_split:
  "k \<le> n \<Longrightarrow> map f [0..<n] = map f [0..<k] @ map (\<lambda>i. f (k + i)) [0..<n - k]"
  by (rule nth_equalityI) (auto simp: nth_append)

text \<open>\<open>ureadable m pt va n\<close>: the user may read the \<open>n\<close> bytes from \<open>va\<close> on.\<close>

definition ureadable :: "bytes \<Rightarrow> u64 \<Rightarrow> u64 \<Rightarrow> nat \<Rightarrow> bool" where
  "ureadable m pt va n \<longleftrightarrow> (\<forall>i < n. uaddr m pt (va + of_nat i) \<noteq> 0)"

lemma all_less_split:
  fixes n len :: nat
  assumes "n \<le> len" "\<And>i. i < n \<Longrightarrow> P i"
  shows "(\<forall>i < len. P i) \<longleftrightarrow> (\<forall>j < len - n. P (n + j))"
proof (intro iffI allI impI)
  fix i assume r: "\<forall>j < len - n. P (n + j)" and i: "i < len"
  show "P i"
  proof (cases "i < n")
    case False
    then show ?thesis using r [rule_format, of "i - n"] i by (simp add: diff_less_mono)
  qed (rule assms(2))
next
  fix j assume "\<forall>i < len. P i" "j < len - n"
  then show "P (n + j)" by (simp add: less_diff_conv add.commute)
qed



section \<open>Writing user memory\<close>


text \<open>\<open>uwritable m pt va n\<close>: the user may write the \<open>n\<close> bytes from \<open>va\<close> on.\<close>

definition wr_ok :: "bytes \<Rightarrow> u64 \<Rightarrow> u64 \<Rightarrow> bool" where
  "wr_ok m pt va \<longleftrightarrow> va < MAXVA \<and> pte_of m pt va AND PTE_V \<noteq> 0 \<and> pte_of m pt va AND PTE_U \<noteq> 0
     \<and> pte_of m pt va AND PTE_W \<noteq> 0"

definition uwritable :: "bytes \<Rightarrow> u64 \<Rightarrow> u64 \<Rightarrow> nat \<Rightarrow> bool" where
  "uwritable m pt va n \<longleftrightarrow> (\<forall>i < n. wr_ok m pt (va + of_nat i))"










lemma uwritable_0 [simp]: "uwritable m pt va 0"
  by (simp add: uwritable_def)







section \<open>Reading user strings\<close>

lemma copy_until_nul_eq:
  "copy_until_nul bs = (takeWhile (\<lambda>c. c \<noteq> 0) bs @ (if 0 \<in> set bs then [0] else []), 0 \<in> set bs)"
  by (induction bs) auto

lemma first_nul:
  assumes "(0 :: u8) \<in> set (map b [0..<n])"
  obtains k where "k < n" "b k = 0" "\<And>j. j < k \<Longrightarrow> b j \<noteq> 0"
    "takeWhile (\<lambda>c. c \<noteq> 0) (map b [0..<n]) @ [0] = map b [0..<Suc k]"
proof -
  define k where "k = (LEAST i. i < n \<and> b i = 0)"
  have "\<exists>i. i < n \<and> b i = 0" using assms by auto
  then have k: "k < n" "b k = 0" using LeastI_ex [of "\<lambda>i. i < n \<and> b i = 0"] by (auto simp: k_def)
  have nz: "b j \<noteq> 0" if "j < k" for j using not_less_Least [of j "\<lambda>i. i < n \<and> b i = 0"] that k(1) by (auto simp: k_def)
  have "[0..<n] = [0..<k] @ k # [Suc k..<n]"
    using k(1) upt_add_eq_append [of 0 k "n - k"] by (simp add: upt_conv_Cons)
  moreover have "takeWhile (\<lambda>c. c \<noteq> 0) (map b [0..<k] @ 0 # xs) = map b [0..<k]" for xs
    using nz by (subst takeWhile_append2) auto
  ultimately have "takeWhile (\<lambda>c. c \<noteq> 0) (map b [0..<n]) = map b [0..<k]"
    using k(2) by simp
  then show thesis using that [OF k nz] k(2) by simp
qed

text \<open>\<open>ustr m pt va max_n k\<close>: a string of \<open>k\<close> bytes and its NUL lie at \<open>va\<close> within \<open>max_n\<close> bytes.\<close>

definition ustr :: "bytes \<Rightarrow> u64 \<Rightarrow> u64 \<Rightarrow> nat \<Rightarrow> nat \<Rightarrow> bool" where
  "ustr m pt va max_n k \<longleftrightarrow> k < max_n \<and> ureadable m pt va (Suc k) \<and> ubyte m pt (va + of_nat k) = 0
     \<and> (\<forall>j < k. ubyte m pt (va + of_nat j) \<noteq> 0)"

lemma ureadable_in_chunk:
  assumes "uaddr m pt va \<noteq> 0" "k \<le> chunk va len"
  shows "ureadable m pt va k"
proof -
  have va: "va < MAXVA" using assms(1) by (auto simp: uaddr_def split: if_splits)
  show ?thesis
    unfolding ureadable_def using upa_in_chunk(3) [OF _ va] assms by (metis less_le_trans)
qed

lemma ureadable_mono: "ureadable m pt va k \<Longrightarrow> j \<le> k \<Longrightarrow> ureadable m pt va j"
  by (auto simp: ureadable_def)

lemma ureadable_add:
  assumes "ureadable m pt va n"
  shows "ureadable m pt va (n + k) \<longleftrightarrow> ureadable m pt (va + of_nat n) k"
  using all_less_split [of n "n + k" "\<lambda>i. uaddr m pt (va + of_nat i) \<noteq> 0"] assms
  by (simp add: ureadable_def add.assoc)

text \<open>A chunk without NUL is skipped.\<close>

lemma ustr_skip:
  assumes n: "n \<le> max_n" "ureadable m pt va n" and nz: "\<And>j. j < n \<Longrightarrow> ubyte m pt (va + of_nat j) \<noteq> 0"
  shows "ustr m pt va max_n k \<longleftrightarrow> n \<le> k \<and> ustr m pt (va + of_nat n) (max_n - n) (k - n)"
proof (cases "n \<le> k")
  case True
  then obtain d where d: "k = n + d" using le_Suc_ex by blast
  have "(\<forall>j < n + d. ubyte m pt (va + of_nat j) \<noteq> 0) \<longleftrightarrow> (\<forall>j < d. ubyte m pt (va + of_nat (n + j)) \<noteq> 0)"
    using all_less_split [of n "n + d" "\<lambda>j. ubyte m pt (va + of_nat j) \<noteq> 0"] nz by simp
  then show ?thesis
    using n ureadable_add [OF n(2), of "Suc d"] d
    by (simp add: ustr_def less_diff_conv ac_simps)
qed (use nz [of k] in \<open>auto simp: ustr_def\<close>)

lemma copyinstr_spec:
  assumes inv: "vm_inv s pt ps"
  shows "\<exists>r bs. copyinstr pt va max_n s = Ok (r, bs) s
    \<and> (if \<exists>k. ustr (mem s) pt va max_n k
       then r = 0 \<and> (\<exists>k. ustr (mem s) pt va max_n k
              \<and> bs = map (\<lambda>i. ubyte (mem s) pt (va + of_nat i)) [0..<Suc k])
       else r = -1)"
proof (induction max_n arbitrary: va rule: less_induct)
  case (less max_n)
  let ?b = "\<lambda>i. ubyte (mem s) pt (va + of_nat i)" and ?n = "chunk va max_n"
  show ?case
  proof (cases "max_n = 0 \<or> uaddr (mem s) pt va = 0")
    case True
    then have "\<not> ustr (mem s) pt va max_n k" for k
      unfolding ustr_def ureadable_def by (auto dest!: spec [of _ 0])
    moreover have "copyinstr pt va max_n s = Ok (-1, []) s"
      using True walkaddr_uaddr [OF inv, of va] by (subst copyinstr.simps) auto
    ultimately show ?thesis by simp
  next
    case False
    have va: "va < MAXVA" "uaddr (mem s) pt va = PTE2PA (pte_of (mem s) pt va)"
      using False by (auto simp: uaddr_def split: if_splits)
    have n: "0 < ?n" "?n \<le> max_n" using False chunk_pos chunk_le by auto
    have rd: "ureadable (mem s) pt va k" if "k \<le> ?n" for k using ureadable_in_chunk that False by blast
    have bs: "read_bytes (mem s) (uaddr (mem s) pt va + (va - PGROUNDDOWN va)) ?n = map ?b [0..<?n]"
      unfolding read_bytes_eq ubyte_def va(2)
      by (rule map_cong [OF refl]) (simp add: upa_in_chunk(4) [OF _ va(1)] upa_def [of _ _ va])
    have step: "copyinstr pt va max_n s =
        (let (ds, got) = copy_until_nul (map ?b [0..<?n]) in
         if got then Ok (0, ds) s
         else bnd (copyinstr pt (PGROUNDDOWN va + PGSIZE) (max_n - ?n) s) (\<lambda>(r, rest) s. Ok (r, ds @ rest) s))"
      using False walkaddr_uaddr [OF inv, of va] bs by (subst copyinstr.simps) (simp add: Let_def)
    show ?thesis
    proof (cases "0 \<in> set (map ?b [0..<?n])")
      case True
      from first_nul [OF True] obtain k where k: "k < ?n" "?b k = 0" "\<And>j. j < k \<Longrightarrow> ?b j \<noteq> 0"
        "takeWhile (\<lambda>c. c \<noteq> 0) (map ?b [0..<?n]) @ [0] = map ?b [0..<Suc k]" by blast
      then have u: "ustr (mem s) pt va max_n k" using n rd by (simp add: ustr_def)
      have "copyinstr pt va max_n s = Ok (0, map ?b [0..<Suc k]) s"
        unfolding step copy_until_nul_eq using True k(4) by (simp only: Let_def prod.case if_True)
      with u show ?thesis by auto
    next
      case nul: False
      have nz: "?b j \<noteq> 0" if "j < ?n" for j using nul that by (auto simp: image_iff)
      have tw: "takeWhile (\<lambda>c. c \<noteq> 0) (map ?b [0..<?n]) = map ?b [0..<?n]"
        using nz by (intro takeWhile_eq_all_conv [THEN iffD2]) auto
      have nx: "copyinstr pt (PGROUNDDOWN va + PGSIZE) (max_n - ?n) s = copyinstr pt (va + of_nat ?n) (max_n - ?n) s"
        using next_page [of va max_n] by (cases "?n < max_n") (auto simp: copyinstr.simps)
      have lt: "max_n - ?n < max_n" using n by simp
      from less.IH [OF lt, of "va + of_nat ?n"] obtain r cs where
        cs: "copyinstr pt (va + of_nat ?n) (max_n - ?n) s = Ok (r, cs) s"
          "if \<exists>k. ustr (mem s) pt (va + of_nat ?n) (max_n - ?n) k
           then r = 0 \<and> (\<exists>k. ustr (mem s) pt (va + of_nat ?n) (max_n - ?n) k
              \<and> cs = map (\<lambda>i. ubyte (mem s) pt (va + of_nat ?n + of_nat i)) [0..<Suc k])
           else r = -1" by blast
      have e: "copyinstr pt va max_n s = Ok (r, map ?b [0..<?n] @ cs) s"
        unfolding step copy_until_nul_eq using nul tw nx cs(1) by simp
      have skip: "ustr (mem s) pt va max_n k \<longleftrightarrow> ?n \<le> k \<and> ustr (mem s) pt (va + of_nat ?n) (max_n - ?n) (k - ?n)" for k
        by (rule ustr_skip [OF n(2) rd [OF order_refl] nz])
      show ?thesis
      proof (cases "\<exists>k. ustr (mem s) pt (va + of_nat ?n) (max_n - ?n) k")
        case True
        with cs(2) obtain k where k: "r = 0" "ustr (mem s) pt (va + of_nat ?n) (max_n - ?n) k"
          "cs = map (\<lambda>i. ubyte (mem s) pt (va + of_nat ?n + of_nat i)) [0..<Suc k]" by auto
        have "ustr (mem s) pt va max_n (?n + k)" using skip [of "?n + k"] k(2) by simp
        moreover have "map ?b [0..<?n] @ cs = map ?b [0..<Suc (?n + k)]"
          using map_upt_split [of ?n "Suc (?n + k)" ?b] k(3) by (simp add: add.assoc Suc_diff_le del: upt_Suc)
        ultimately show ?thesis using e k(1) by auto
      next
        case False
        then have "\<not> ustr (mem s) pt va max_n k" for k using skip [of k] by blast
        with False cs(2) e show ?thesis by auto
      qed
    qed
  qed
qed

text \<open>
  C22. \<open>copyinstr\<close> returns 0 exactly when a NUL-terminated string that the user may read starts
  at the given address and ends within the bound; the bytes it has stored are then that string
  with its NUL. Otherwise it returns -1. It never panics and never writes user memory.
\<close>

theorem copyinstr_string:
  assumes "vm_inv s pt ps"
  shows "\<exists>r bs. copyinstr pt va max_n s = Ok (r, bs) s
    \<and> (if \<exists>k. ustr (mem s) pt va max_n k
       then r = 0 \<and> (\<exists>k. ustr (mem s) pt va max_n k
              \<and> bs = map (\<lambda>i. ubyte (mem s) pt (va + of_nat i)) [0..<Suc k])
       else r = -1)"
  using assms by (rule copyinstr_spec)

theorem copyinstr_string_witness:
  "\<exists>bs. copyinstr 0x80001000 0 16 vm_demo = Ok (-1, bs) vm_demo"
proof -
  have "\<not> ustr (mem vm_demo) 0x80001000 0 16 k" for k
    unfolding ustr_def ureadable_def by (auto simp: uaddr_def vm_demo_pte)
  with copyinstr_string [OF vm_demo_inv, of 0 16] show ?thesis by simp
qed

end
