(* ===== verification/Spinlock.thy ===== *)
theory Spinlock
  imports Prelude
begin

text \<open>
  Spin locks and interrupt nesting, \<^verbatim>\<open>kernel/spinlock.c\<close> with \<^verbatim>\<open>struct spinlock\<close> and
  \<^verbatim>\<open>struct cpu\<close>. \<open>c_sie\<close> is the interrupt-enable bit of the hart's \<^verbatim>\<open>sstatus\<close>
  register, which \<^verbatim>\<open>intr_get\<close>, \<^verbatim>\<open>intr_on\<close> and \<^verbatim>\<open>intr_off\<close> read and write; a pointer to a
  \<^verbatim>\<open>struct cpu\<close> is the hart number. The operations are first given for a single caller;
  then their atomic accesses (the \<^verbatim>\<open>amoswap\<close>, the write of \<open>lk->cpu\<close>, the clearing store) are
  interleaved over any number of harts, for which mutual exclusion, the absence of
  panics and the masking of interrupts inside a critical section are proved.
\<close>

section \<open>Definitions\<close>

record cpu =
  c_proc :: "nat option"
  c_noff :: int
  c_intena :: bool
  c_sie :: bool

record spinlock =
  lk_locked :: bool
  lk_name :: string
  lk_cpu :: "nat option"

definition initlock :: "spinlock \<Rightarrow> string \<Rightarrow> spinlock" where
  "initlock lk name = lk\<lparr>lk_name := name, lk_locked := False, lk_cpu := None\<rparr>"

definition intr_get :: "cpu \<Rightarrow> bool" where
  "intr_get c = c_sie c"

definition intr_on :: "cpu \<Rightarrow> cpu" where
  "intr_on c = c\<lparr>c_sie := True\<rparr>"

definition intr_off :: "cpu \<Rightarrow> cpu" where
  "intr_off c = c\<lparr>c_sie := False\<rparr>"

definition holding :: "nat \<Rightarrow> spinlock \<Rightarrow> bool" where
  "holding h lk \<longleftrightarrow> lk_locked lk \<and> lk_cpu lk = Some h"

definition push_off :: "cpu \<Rightarrow> cpu" where
  "push_off c =
     (let old = intr_get c;
          c1 = intr_off c;
          c2 = (if c_noff c1 = 0 then c1\<lparr>c_intena := old\<rparr> else c1)
      in c2\<lparr>c_noff := c_noff c2 + 1\<rparr>)"

definition pop_off :: "cpu \<Rightarrow> (unit, cpu) res" where
  "pop_off c =
     (if intr_get c then Panic ''pop_off - interruptible''
      else if c_noff c < 1 then Panic ''pop_off''
      else let c1 = c\<lparr>c_noff := c_noff c - 1\<rparr>
           in Ok () (if c_noff c1 = 0 \<and> c_intena c1 then intr_on c1 else c1))"

text \<open>\<open>Blocked\<close>: the lock is taken, the caller is still spinning.\<close>

definition acquire :: "nat \<Rightarrow> cpu \<Rightarrow> spinlock \<Rightarrow> (unit, cpu \<times> spinlock) res" where
  "acquire h c lk =
     (let c1 = push_off c
      in if holding h lk then Panic ''acquire''
         else if lk_locked lk then Blocked
         else Ok () (c1, lk\<lparr>lk_locked := True, lk_cpu := Some h\<rparr>))"

definition release :: "nat \<Rightarrow> cpu \<Rightarrow> spinlock \<Rightarrow> (unit, cpu \<times> spinlock) res" where
  "release h c lk =
     (if \<not> holding h lk then Panic ''release''
      else let lk1 = lk\<lparr>lk_cpu := None, lk_locked := False\<rparr>
           in bnd (pop_off c) (\<lambda>_ c. Ok () (c, lk1)))"

section \<open>One caller\<close>

lemmas intr_defs = intr_get_def intr_on_def intr_off_def

lemma push_off_noff [simp]: "c_noff (push_off c) = c_noff c + 1"
  by (simp add: push_off_def Let_def intr_defs)

lemma push_off_sie [simp]: "\<not> c_sie (push_off c)"
  by (simp add: push_off_def Let_def intr_defs)

lemma push_off_proc [simp]: "c_proc (push_off c) = c_proc c"
  by (simp add: push_off_def Let_def intr_defs)

text \<open>A \<open>pop_off\<close> undoes a \<open>push_off\<close>: nesting level and interrupt state come back.\<close>

lemma pop_push:
  assumes "0 \<le> c_noff c" and "0 < c_noff c \<Longrightarrow> \<not> c_sie c"
  shows "\<exists>c'. pop_off (push_off c) = Ok () c' \<and> c_noff c' = c_noff c \<and> c_sie c' = c_sie c
    \<and> c_proc c' = c_proc c"
  using assms by (auto simp: push_off_def pop_off_def Let_def intr_defs)

fun push_n :: "nat \<Rightarrow> cpu \<Rightarrow> cpu" where
  "push_n 0 c = c"
| "push_n (Suc n) c = push_n n (push_off c)"

fun pop_n :: "nat \<Rightarrow> cpu \<Rightarrow> (unit, cpu) res" where
  "pop_n 0 c = Ok () c"
| "pop_n (Suc n) c = bnd (pop_off c) (\<lambda>_ c. pop_n n c)"

lemma push_n_facts:
  "c_noff (push_n n c) = c_noff c + int n"
  "c_proc (push_n n c) = c_proc c"
  "c_sie (push_n n c) \<longleftrightarrow> n = 0 \<and> c_sie c"
  "0 \<le> c_noff c \<Longrightarrow> c_intena (push_n n c) = (if c_noff c = 0 \<and> 0 < n then c_sie c else c_intena c)"
  by (induction n arbitrary: c) (auto simp: push_off_def Let_def intr_defs)

lemma pop_n_noff:
  "0 < n \<Longrightarrow> int n \<le> c_noff c \<Longrightarrow> \<not> c_sie c \<Longrightarrow>
   \<exists>c'. pop_n n c = Ok () c' \<and> c_noff c' = c_noff c - int n \<and> c_proc c' = c_proc c
        \<and> c_sie c' = (c_noff c = int n \<and> c_intena c)"
proof (induction n arbitrary: c)
  case 0
  then show ?case by simp
next
  case (Suc n)
  let ?c = "c\<lparr>c_noff := c_noff c - 1\<rparr>"
  show ?case
  proof (cases "n = 0")
    case True
    with Suc.prems show ?thesis by (auto simp: pop_off_def Let_def intr_defs)
  next
    case False
    with Suc.prems have "pop_off c = Ok () ?c" by (auto simp: pop_off_def Let_def intr_defs)
    with Suc.IH [of ?c] Suc.prems False show ?thesis by auto
  qed
qed

section \<open>Any number of harts\<close>

datatype lock_pc = Outside | Spinning | Got | Inside | Releasing | Panicked string

record lock_sys =
  ls_cpus :: "nat \<Rightarrow> cpu"
  ls_lock :: spinlock
  ls_pc :: "nat \<Rightarrow> lock_pc"

definition move :: "nat \<Rightarrow> lock_pc \<Rightarrow> lock_sys \<Rightarrow> lock_sys" where
  "move h p s = s\<lparr>ls_pc := (ls_pc s)(h := p)\<rparr>"

definition set_cpu :: "nat \<Rightarrow> cpu \<Rightarrow> lock_sys \<Rightarrow> lock_sys" where
  "set_cpu h c s = s\<lparr>ls_cpus := (ls_cpus s)(h := c)\<rparr>"

text \<open>
  \<open>acquire\<close> is \<open>enter\<close>, any number of failed swaps, the successful swap and the recording
  of the owner; \<open>release\<close> clears the owner, then the lock word, and pops the interrupt
  nesting. A hart outside may also turn its interrupts on or off.
\<close>

inductive lock_step :: "lock_sys \<Rightarrow> lock_sys \<Rightarrow> bool" where
  enter: "ls_pc s h = Outside \<Longrightarrow> \<not> holding h (ls_lock s) \<Longrightarrow>
    lock_step s (move h Spinning (set_cpu h (push_off (ls_cpus s h)) s))"
| enter_panic: "ls_pc s h = Outside \<Longrightarrow> holding h (ls_lock s) \<Longrightarrow>
    lock_step s (move h (Panicked ''acquire'') s)"
| swap_busy: "ls_pc s h = Spinning \<Longrightarrow> lk_locked (ls_lock s) \<Longrightarrow> lock_step s s"
| swap: "ls_pc s h = Spinning \<Longrightarrow> \<not> lk_locked (ls_lock s) \<Longrightarrow>
    lock_step s (move h Got (s\<lparr>ls_lock := (ls_lock s)\<lparr>lk_locked := True\<rparr>\<rparr>))"
| record_cpu: "ls_pc s h = Got \<Longrightarrow>
    lock_step s (move h Inside (s\<lparr>ls_lock := (ls_lock s)\<lparr>lk_cpu := Some h\<rparr>\<rparr>))"
| clear_cpu: "ls_pc s h = Inside \<Longrightarrow> holding h (ls_lock s) \<Longrightarrow>
    lock_step s (move h Releasing (s\<lparr>ls_lock := (ls_lock s)\<lparr>lk_cpu := None\<rparr>\<rparr>))"
| clear_panic: "ls_pc s h = Inside \<Longrightarrow> \<not> holding h (ls_lock s) \<Longrightarrow>
    lock_step s (move h (Panicked ''release'') s)"
| unlock: "ls_pc s h = Releasing \<Longrightarrow> pop_off (ls_cpus s h) = Ok () c \<Longrightarrow>
    lock_step s (move h Outside (set_cpu h c (s\<lparr>ls_lock := (ls_lock s)\<lparr>lk_locked := False\<rparr>\<rparr>)))"
| unlock_panic: "ls_pc s h = Releasing \<Longrightarrow> pop_off (ls_cpus s h) = Panic e \<Longrightarrow>
    lock_step s (move h (Panicked e) (s\<lparr>ls_lock := (ls_lock s)\<lparr>lk_locked := False\<rparr>\<rparr>))"
| intr: "ls_pc s h = Outside \<Longrightarrow>
    lock_step s (set_cpu h ((ls_cpus s h)\<lparr>c_sie := b\<rparr>) s)"

inductive lock_reach :: "lock_sys \<Rightarrow> lock_sys \<Rightarrow> bool" for s0 where
  start: "lock_reach s0 s0"
| step: "lock_reach s0 s \<Longrightarrow> lock_step s t \<Longrightarrow> lock_reach s0 t"

definition lock_start :: "lock_sys \<Rightarrow> bool" where
  "lock_start s \<longleftrightarrow> (\<forall>h. ls_pc s h = Outside \<and> c_noff (ls_cpus s h) = 0)
     \<and> \<not> lk_locked (ls_lock s) \<and> lk_cpu (ls_lock s) = None"

fun owns :: "lock_pc \<Rightarrow> bool" where
  "owns Outside = False"
| "owns Spinning = False"
| "owns Got = True"
| "owns Inside = True"
| "owns Releasing = True"
| "owns (Panicked e) = False"

fun cpu_ok :: "lock_pc \<Rightarrow> cpu \<Rightarrow> bool" where
  "cpu_ok Outside c \<longleftrightarrow> c_noff c = 0"
| "cpu_ok (Panicked e) c \<longleftrightarrow> False"
| "cpu_ok p c \<longleftrightarrow> c_noff c = 1 \<and> \<not> c_sie c"

text \<open>\<open>owned_by s w\<close>: hart \<open>w\<close> (or nobody) is between the successful swap and the store that
  frees the lock, and the lock's fields say so.\<close>

definition owned_by :: "lock_sys \<Rightarrow> nat option \<Rightarrow> bool" where
  "owned_by s w \<longleftrightarrow> (\<forall>h. owns (ls_pc s h) \<longleftrightarrow> w = Some h)
     \<and> lk_locked (ls_lock s) = (w \<noteq> None)
     \<and> lk_cpu (ls_lock s) =
         (case w of None \<Rightarrow> None | Some h \<Rightarrow> if ls_pc s h = Inside then Some h else None)"

definition lock_inv :: "lock_sys \<Rightarrow> bool" where
  "lock_inv s \<longleftrightarrow> (\<exists>w. owned_by s w) \<and> (\<forall>h. cpu_ok (ls_pc s h) (ls_cpus s h))"

lemma lock_inv_start: "lock_start s \<Longrightarrow> lock_inv s"
  by (auto simp: lock_start_def lock_inv_def owned_by_def intro!: exI [of _ None])

lemma lock_inv_cpu: "lock_inv s \<Longrightarrow> cpu_ok (ls_pc s h) (ls_cpus s h)"
  by (simp add: lock_inv_def)

lemma lock_inv_owner: "lock_inv s \<Longrightarrow> owns (ls_pc s h) \<Longrightarrow> owns (ls_pc s k) \<Longrightarrow> k = h"
  by (auto simp: lock_inv_def owned_by_def)

lemma owned_by_owns: "owned_by s w \<Longrightarrow> owns (ls_pc s h) \<longleftrightarrow> w = Some h"
  by (simp add: owned_by_def)

lemma lock_inv_owned: "lock_inv s \<Longrightarrow> owns (ls_pc s h) \<Longrightarrow> owned_by s (Some h)"
  by (auto simp: lock_inv_def) (metis owned_by_owns)

lemma lock_inv_holding: "lock_inv s \<Longrightarrow> holding h (ls_lock s) \<longleftrightarrow> ls_pc s h = Inside"
proof -
  assume inv: "lock_inv s"
  then obtain w where w: "owned_by s w" by (auto simp: lock_inv_def)
  then have lk: "lk_locked (ls_lock s) = (w \<noteq> None)" "lk_cpu (ls_lock s) =
      (case w of None \<Rightarrow> None | Some h \<Rightarrow> if ls_pc s h = Inside then Some h else None)"
    by (simp_all add: owned_by_def)
  show ?thesis
  proof (cases "w = Some h")
    case True
    then show ?thesis by (simp add: holding_def lk)
  next
    case False
    with owned_by_owns [OF w, of h] have "ls_pc s h \<noteq> Inside" by auto
    with False show ?thesis by (cases w) (simp_all add: holding_def lk)
  qed
qed

lemma frame_simps [simp]:
  "ls_pc (move h p s) = (ls_pc s)(h := p)"
  "ls_cpus (move h p s) = ls_cpus s"
  "ls_lock (move h p s) = ls_lock s"
  "ls_pc (set_cpu h c s) = ls_pc s"
  "ls_cpus (set_cpu h c s) = (ls_cpus s)(h := c)"
  "ls_lock (set_cpu h c s) = ls_lock s"
  by (simp_all add: move_def set_cpu_def)

lemma owned_by_other:
  assumes "owned_by s w" and "\<not> owns (ls_pc s h)" and "\<not> owns p"
    and "ls_pc t = (ls_pc s)(h := p)" and "ls_lock t = ls_lock s"
  shows "owned_by t w"
proof -
  have "w \<noteq> Some h" using assms(1,2) by (simp add: owned_by_def)
  then show ?thesis using assms by (cases w) (auto simp: owned_by_def)
qed

text \<open>A step of hart \<open>h\<close> keeps the invariant when it says who owns the lock afterwards.\<close>

lemma lock_invI:
  assumes "lock_inv s" and "owned_by t w"
    and "ls_pc t = (ls_pc s)(h := p)" and "ls_cpus t = (ls_cpus s)(h := c)" and "cpu_ok p c"
  shows "lock_inv t"
  using assms by (auto simp: lock_inv_def)

lemma pop_off_one:
  "c_noff c = 1 \<Longrightarrow> \<not> c_sie c \<Longrightarrow> \<exists>c'. pop_off c = Ok () c' \<and> c_noff c' = 0"
  by (simp add: pop_off_def Let_def intr_defs)

lemma lock_step_inv:
  assumes "lock_step s t" and "lock_inv s"
  shows "lock_inv t"
  using assms
proof (induction rule: lock_step.induct)
  case (enter s h)
  then obtain w where w: "owned_by s w" by (auto simp: lock_inv_def)
  have "owned_by (move h Spinning (set_cpu h (push_off (ls_cpus s h)) s)) w"
    using enter by (intro owned_by_other [OF w, of h Spinning]) auto
  then show ?case
    using enter lock_inv_cpu [OF enter(3), of h]
    by (intro lock_invI [OF enter(3), of _ w h Spinning "push_off (ls_cpus s h)"]) auto
next
  case (enter_panic s h)
  then show ?case by (simp add: lock_inv_holding)
next
  case (swap_busy s h)
  then show ?case by simp
next
  case (swap s h)
  then have "owned_by s None" by (auto simp: lock_inv_def owned_by_def)
  with swap lock_inv_cpu [OF swap(3), of h] show ?case
    by (intro lock_invI [OF swap(3), of _ "Some h" h Got "ls_cpus s h"])
      (auto simp: owned_by_def)
next
  case (record_cpu s h)
  then have "owned_by s (Some h)" by (simp add: lock_inv_owned)
  with record_cpu lock_inv_cpu [OF record_cpu(2), of h] show ?case
    by (intro lock_invI [OF record_cpu(2), of _ "Some h" h Inside "ls_cpus s h"])
      (auto simp: owned_by_def)
next
  case (clear_cpu s h)
  then have "owned_by s (Some h)" by (simp add: lock_inv_owned)
  with clear_cpu lock_inv_cpu [OF clear_cpu(3), of h] show ?case
    by (intro lock_invI [OF clear_cpu(3), of _ "Some h" h Releasing "ls_cpus s h"])
      (auto simp: owned_by_def)
next
  case (clear_panic s h)
  then show ?case by (simp add: lock_inv_holding)
next
  case (unlock s h c)
  then have o: "owned_by s (Some h)" by (simp add: lock_inv_owned)
  have "c_noff c = 0"
    using unlock lock_inv_cpu [OF unlock(3), of h] pop_off_one [of "ls_cpus s h"] by auto
  with unlock o show ?case
    by (intro lock_invI [OF unlock(3), of _ None h Outside c])
      (auto simp: owned_by_def)
next
  case (unlock_panic s h e)
  then show ?case
    using lock_inv_cpu [OF unlock_panic(3), of h] pop_off_one [of "ls_cpus s h"] by auto
next
  case (intr s h b)
  let ?c = "(ls_cpus s h)\<lparr>c_sie := b\<rparr>"
  obtain w where w: "owned_by s w" using intr by (auto simp: lock_inv_def)
  have "owned_by (set_cpu h ?c s) w"
    using intr by (intro owned_by_other [OF w, of h Outside]) auto
  then show ?case
    using intr lock_inv_cpu [OF intr(2), of h]
    by (intro lock_invI [OF intr(2), of _ w h Outside ?c]) auto
qed

lemma lock_reach_inv: "lock_reach s0 s \<Longrightarrow> lock_start s0 \<Longrightarrow> lock_inv s"
  by (induction rule: lock_reach.induct) (auto intro: lock_inv_start lock_step_inv)

section \<open>Properties\<close>

text \<open>
  C10. Mutual exclusion: however the harts interleave the individual stores and swaps of
  \<open>acquire\<close> and \<open>release\<close>, at most one hart is between them, its interrupts are off,
  \<open>holding\<close> answers yes exactly to the hart inside the critical section, and no hart hits
  one of the panics.
\<close>

theorem mutual_exclusion:
  assumes "lock_start s0" "lock_reach s0 s"
  shows "(owns (ls_pc s h) \<and> owns (ls_pc s k) \<longrightarrow> h = k)
    \<and> (owns (ls_pc s h) \<longrightarrow> \<not> intr_get (ls_cpus s h))
    \<and> (holding h (ls_lock s) \<longleftrightarrow> ls_pc s h = Inside)
    \<and> ls_pc s h \<noteq> Panicked e"
proof -
  have inv: "lock_inv s" using lock_reach_inv assms by blast
  show ?thesis
    using lock_inv_owner [OF inv, of h k] lock_inv_holding [OF inv, of h]
      lock_inv_cpu [OF inv, of h]
    by (cases "ls_pc s h") (auto simp: intr_get_def)
qed

theorem mutual_exclusion_witness:
  "\<exists>s0 s. lock_start s0 \<and> lock_reach s0 s \<and> owns (ls_pc s 3) \<and> \<not> owns (ls_pc s 4)"
proof -
  let ?s0 = "\<lparr>ls_cpus = (\<lambda>_. \<lparr>c_proc = None, c_noff = 0, c_intena = False, c_sie = True\<rparr>),
    ls_lock = \<lparr>lk_locked = False, lk_name = ''x'', lk_cpu = None\<rparr>, ls_pc = (\<lambda>_. Outside)\<rparr>"
  let ?s1 = "move 3 Spinning (set_cpu 3 (push_off (ls_cpus ?s0 3)) ?s0)"
  let ?s2 = "move 3 Got (?s1\<lparr>ls_lock := (ls_lock ?s1)\<lparr>lk_locked := True\<rparr>\<rparr>)"
  have s0: "lock_start ?s0" by (simp add: lock_start_def)
  have "lock_step ?s0 ?s1" by (rule enter) (simp_all add: holding_def)
  moreover have "lock_step ?s1 ?s2" by (rule swap) simp_all
  ultimately have r: "lock_reach ?s0 ?s2" by (blast intro: start step)
  have o: "owns (ls_pc ?s2 3)" by simp
  with mutual_exclusion [OF s0 r, of 3 4] have "\<not> owns (ls_pc ?s2 4)"
    by (auto simp del: frame_simps)
  with s0 r o show ?thesis by blast
qed

text \<open>
  C14. Interrupt nesting: after any number of nested \<open>push_off\<close> calls interrupts are off, and
  the same number of \<open>pop_off\<close> calls, none of which panics, restores the nesting level, the
  interrupt enable bit and the process of the hart.
\<close>

theorem push_pop_nesting:
  assumes "0 \<le> c_noff c" "0 < c_noff c \<Longrightarrow> \<not> intr_get c" "0 < n"
  shows "\<not> intr_get (push_n n c)
    \<and> (\<exists>c'. pop_n n (push_n n c) = Ok () c' \<and> c_noff c' = c_noff c
         \<and> intr_get c' = intr_get c \<and> c_proc c' = c_proc c)"
proof -
  have "\<not> c_sie (push_n n c)" using assms(3) by (simp add: push_n_facts)
  moreover from pop_n_noff [of n "push_n n c"] this assms
  have "\<exists>c'. pop_n n (push_n n c) = Ok () c' \<and> c_noff c' = c_noff c
         \<and> c_sie c' = c_sie c \<and> c_proc c' = c_proc c"
    by (auto simp: push_n_facts intr_get_def)
  ultimately show ?thesis by (simp add: intr_get_def)
qed

theorem push_pop_nesting_witness:
  "\<exists>c'. pop_n 2 (push_n 2 \<lparr>c_proc = None, c_noff = 0, c_intena = False, c_sie = True\<rparr>) = Ok () c'
     \<and> intr_get c'"
  using push_pop_nesting [of "\<lparr>c_proc = None, c_noff = 0, c_intena = False, c_sie = True\<rparr>" 2]
  by (auto simp: intr_get_def)

end
