(* ===== verification/Sched.thy ===== *)
theory Sched
  imports Spinlock Vm
begin

text \<open>
  The process table and the multi-level feedback queue scheduler: \<^verbatim>\<open>kernel/proc.h\<close>, the
  scheduling half of \<^verbatim>\<open>kernel/proc.c\<close> and the timer accounting of \<^verbatim>\<open>kernel/trap.c\<close>.

  A pointer into the process table is its index, a null pointer \<open>None\<close>; a sleep channel
  (the address of a kernel object) is a value of \<open>chan\<close> naming that object. \<open>hart\<close> is the
  hart that executes the code, as the \<^verbatim>\<open>tp\<close> register says. The saved registers of a
  kernel thread (\<^verbatim>\<open>struct context\<close>, exchanged by \<^verbatim>\<open>swtch.S\<close>) are represented by the point
  at which the thread will continue and the value of \<open>intena\<close> that \<open>sched\<close> keeps on its
  stack. An \<open>acquire\<close>/\<open>release\<close> pair around straight-line code of one table entry is one
  atomic step and is not written out; the lock of a process is modelled where it is held
  across \<open>swtch\<close> (\<open>scheduler\<close>, \<open>sched\<close>, \<open>yield\<close>, \<open>sleep\<close>, \<open>forkret\<close>).
\<close>

section \<open>Data\<close>

datatype procstate = UNUSED | USED | SLEEPING | RUNNABLE | RUNNING | ZOMBIE

datatype chan = NullChan | ChTicks | ChProc nat | ChBufLock nat | ChInodeLock nat | ChLog
  | ChPipeRead u64 | ChPipeWrite u64 | ChDiskFree | ChBuf nat | ChUartTx | ChCons

text \<open>Where a kernel thread that is not running will continue.\<close>

datatype resume = AfterYield | AfterSleep | AfterExit

datatype kcontext = NoContext | AtForkret | InSched bool resume

record proc =
  p_lock :: spinlock
  p_state :: procstate
  p_chan :: chan
  p_killed :: int
  p_xstate :: int
  p_pid :: int
  p_parent :: "nat option"
  p_kstack :: u64
  p_sz :: u64
  p_pagetable :: u64
  p_trapframe :: u64
  p_context :: kcontext
  p_ofile :: "nat option list"
  p_cwd :: "nat option"
  p_name :: "u8 list"
  p_priority :: int
  p_ticks_used :: int
  p_ticks_total :: int
  p_last_run_time :: u64
  p_num_scheduled :: int
  p_num_demoted :: int
  p_num_boosted :: int

record kproc = pmem +
  hart :: nat
  cpus :: "cpu list"
  procs :: "proc list"
  initproc :: "nat option"
  nextpid :: int
  ticks :: u32
  mlfq_ticks :: u64
  last_boost_tick :: int

definition mycpu :: "'z kproc_scheme \<Rightarrow> cpu" where
  "mycpu s = cpus s ! hart s"

definition myproc :: "'z kproc_scheme \<Rightarrow> nat option" where
  "myproc s = c_proc (mycpu s)"

definition set_mycpu :: "cpu \<Rightarrow> 'z kproc_scheme \<Rightarrow> 'z kproc_scheme" where
  "set_mycpu c s = s\<lparr>cpus := (cpus s)[hart s := c]\<rparr>"

definition upd_proc :: "nat \<Rightarrow> (proc \<Rightarrow> proc) \<Rightarrow> 'z kproc_scheme \<Rightarrow> 'z kproc_scheme" where
  "upd_proc i f s = s\<lparr>procs := (procs s)[i := f (procs s ! i)]\<rparr>"

text \<open>
  The table as the loader leaves it (static storage is zero) and after \<open>procinit\<close>; the
  global locks \<open>pid_lock\<close>, \<open>wait_lock\<close> and \<open>mlfq_lock\<close> guard single steps and have no
  state of their own here.
\<close>

definition zero_proc :: proc where
  "zero_proc = \<lparr>p_lock = \<lparr>lk_locked = False, lk_name = [], lk_cpu = None\<rparr>, p_state = UNUSED,
     p_chan = NullChan, p_killed = 0, p_xstate = 0, p_pid = 0, p_parent = None, p_kstack = 0,
     p_sz = 0, p_pagetable = 0, p_trapframe = 0, p_context = NoContext,
     p_ofile = replicate NOFILE None, p_cwd = None, p_name = replicate 16 0, p_priority = 0,
     p_ticks_used = 0, p_ticks_total = 0, p_last_run_time = 0, p_num_scheduled = 0,
     p_num_demoted = 0, p_num_boosted = 0\<rparr>"

definition procinit :: "'z kproc_scheme \<Rightarrow> 'z kproc_scheme" where
  "procinit s = s\<lparr>procs := mapi (\<lambda>i p. p\<lparr>p_lock := initlock (p_lock p) ''proc'',
     p_state := UNUSED, p_kstack := KSTACK i\<rparr>) (procs s)\<rparr>"

section \<open>Feedback rules\<close>

definition get_time_slice :: "int \<Rightarrow> int" where
  "get_time_slice priority =
     (if priority = 0 then MLFQ_TICKS_0
      else if priority = 1 then MLFQ_TICKS_1
      else if priority = 2 then MLFQ_TICKS_2
      else MLFQ_TICKS_2)"

definition boost_proc :: "proc \<Rightarrow> proc" where
  "boost_proc p =
     (if p_state p \<noteq> UNUSED then
        (if p_priority p > 0 then p\<lparr>p_num_boosted := p_num_boosted p + 1\<rparr> else p)
          \<lparr>p_priority := 0, p_ticks_used := 0\<rparr>
      else p)"

definition priority_boost :: "'z kproc_scheme \<Rightarrow> 'z kproc_scheme" where
  "priority_boost s =
     s\<lparr>last_boost_tick := sint (ticks s), procs := map boost_proc (procs s)\<rparr>"

text \<open>The part of \<open>yield\<close> that applies the feedback rule.\<close>

definition yield_demote :: "proc \<Rightarrow> proc" where
  "yield_demote p =
     (let time_slice = get_time_slice (p_priority p)
      in if p_ticks_used p \<ge> time_slice then
           (if p_priority p < NMLFQ - 1
            then p\<lparr>p_priority := p_priority p + 1, p_num_demoted := p_num_demoted p + 1\<rparr>
            else p)\<lparr>p_ticks_used := 0\<rparr>
         else p)"

definition tick_proc :: "proc \<Rightarrow> proc" where
  "tick_proc p = p\<lparr>p_ticks_used := p_ticks_used p + 1, p_ticks_total := p_ticks_total p + 1\<rparr>"

definition mlfq_check_timer :: "'z kproc_scheme \<Rightarrow> 'z kproc_scheme" where
  "mlfq_check_timer s =
     (case myproc s of
        None \<Rightarrow> s
      | Some i \<Rightarrow> (upd_proc i tick_proc s)\<lparr>mlfq_ticks := mlfq_ticks s + 1\<rparr>)"

section \<open>Choosing a process\<close>

definition runnable_at :: "int \<Rightarrow> proc \<Rightarrow> bool" where
  "runnable_at priority p \<longleftrightarrow> p_state p = RUNNABLE \<and> p_priority p = priority"

text \<open>The two nested loops of \<open>scheduler\<close>: \<open>n\<close> levels are left, starting with \<open>priority\<close>.\<close>

fun select_from :: "nat \<Rightarrow> int \<Rightarrow> proc list \<Rightarrow> nat option" where
  "select_from 0 priority ps = None"
| "select_from (Suc n) priority ps =
     (case find_idx (runnable_at priority) ps of
        Some i \<Rightarrow> Some i
      | None \<Rightarrow> select_from n (priority + 1) ps)"

definition select_proc :: "proc list \<Rightarrow> nat option" where
  "select_proc ps = select_from (nat NMLFQ) 0 ps"

section \<open>Context switches\<close>

definition acquire_p :: "nat \<Rightarrow> 'z kproc_scheme \<Rightarrow> (unit, 'z kproc_scheme) res" where
  "acquire_p i s =
     bnd (acquire (hart s) (mycpu s) (p_lock (procs s ! i))) (\<lambda>_ (c, lk).
       Ok () (upd_proc i (\<lambda>p. p\<lparr>p_lock := lk\<rparr>) (set_mycpu c s)))"

definition release_p :: "nat \<Rightarrow> 'z kproc_scheme \<Rightarrow> (unit, 'z kproc_scheme) res" where
  "release_p i s =
     bnd (release (hart s) (mycpu s) (p_lock (procs s ! i))) (\<lambda>_ (c, lk).
       Ok () (upd_proc i (\<lambda>p. p\<lparr>p_lock := lk\<rparr>) (set_mycpu c s)))"

text \<open>What the scheduler thread does when a process switches back to it.\<close>

definition scheduler_return :: "nat \<Rightarrow> 'z kproc_scheme \<Rightarrow> (unit, 'z kproc_scheme) res" where
  "scheduler_return selected s =
     release_p selected (set_mycpu ((mycpu s)\<lparr>c_proc := None\<rparr>) s)"

text \<open>\<open>sched\<close> up to \<open>swtch\<close>, which continues in the scheduler thread of this hart.\<close>

definition sched :: "resume \<Rightarrow> 'z kproc_scheme \<Rightarrow> (unit, 'z kproc_scheme) res" where
  "sched k s =
     (case myproc s of
        None \<Rightarrow> Panic ''null pointer''
      | Some i \<Rightarrow>
          if \<not> holding (hart s) (p_lock (procs s ! i)) then Panic ''sched p->lock''
          else if c_noff (mycpu s) \<noteq> 1 then Panic ''sched locks''
          else if p_state (procs s ! i) = RUNNING then Panic ''sched running''
          else if intr_get (mycpu s) then Panic ''sched interruptible''
          else scheduler_return i
                 (upd_proc i (\<lambda>p. p\<lparr>p_context := InSched (c_intena (mycpu s)) k\<rparr>) s))"

definition yield :: "'z kproc_scheme \<Rightarrow> (unit, 'z kproc_scheme) res" where
  "yield s =
     (case myproc s of
        None \<Rightarrow> Panic ''null pointer''
      | Some i \<Rightarrow>
          bnd (acquire_p i s) (\<lambda>_ s.
            sched AfterYield
              (upd_proc i (\<lambda>p. (yield_demote p)\<lparr>p_state := RUNNABLE\<rparr>) s)))"

text \<open>\<open>sleep\<close> up to the switch; the second result is the caller's lock, released.\<close>

definition sleep :: "chan \<Rightarrow> spinlock \<Rightarrow> 'z kproc_scheme \<Rightarrow> (spinlock, 'z kproc_scheme) res" where
  "sleep ch lk s =
     (case myproc s of
        None \<Rightarrow> Panic ''null pointer''
      | Some i \<Rightarrow>
          bnd (acquire_p i s) (\<lambda>_ s.
          bnd (release (hart s) (mycpu s) lk) (\<lambda>_ (c, lk).
          bnd (sched AfterSleep
                (upd_proc i (\<lambda>p. p\<lparr>p_ticks_used := 0, p_chan := ch, p_state := SLEEPING\<rparr>)
                  (set_mycpu c s))) (\<lambda>_ s.
          Ok lk s))))"

text \<open>
  The instructions a process executes when the scheduler has switched to it: the end of
  \<open>sched\<close> and the rest of \<open>yield\<close> or \<open>sleep\<close> (whose last step, reacquiring the caller's
  lock, is left to that caller), or \<open>forkret\<close> for a process that never ran.
\<close>

definition resume_proc :: "nat \<Rightarrow> 'z kproc_scheme \<Rightarrow> (unit, 'z kproc_scheme) res" where
  "resume_proc i s =
     (case p_context (procs s ! i) of
        NoContext \<Rightarrow> Panic ''null pointer''
      | AtForkret \<Rightarrow> release_p i s
      | InSched intena k \<Rightarrow>
          let s = set_mycpu ((mycpu s)\<lparr>c_intena := intena\<rparr>) s
          in (case k of
                AfterYield \<Rightarrow> release_p i s
              | AfterSleep \<Rightarrow> release_p i (upd_proc i (\<lambda>p. p\<lparr>p_chan := NullChan\<rparr>) s)
              | AfterExit \<Rightarrow> Panic ''zombie exit''))"

text \<open>One iteration of the scheduler loop of a hart, with the switch it makes.\<close>

definition boost_check :: "'z kproc_scheme \<Rightarrow> 'z kproc_scheme" where
  "boost_check s =
     (if mlfq_ticks s \<ge> BOOST_INTERVAL then priority_boost (s\<lparr>mlfq_ticks := 0\<rparr>) else s)"

definition scheduler_pick :: "'z kproc_scheme \<Rightarrow> (nat option, 'z kproc_scheme) res" where
  "scheduler_pick s =
     (let s = boost_check (set_mycpu (intr_on (mycpu s)) s)
      in (case select_proc (procs s) of
            None \<Rightarrow> Ok None s
          | Some i \<Rightarrow>
              bnd (acquire_p i s) (\<lambda>_ s.
                let s = upd_proc i
                      (\<lambda>p. p\<lparr>p_state := RUNNING, p_num_scheduled := p_num_scheduled p + 1\<rparr>) s
                in Ok (Some i) (set_mycpu ((mycpu s)\<lparr>c_proc := Some i\<rparr>) s))))"

definition scheduler :: "'z kproc_scheme \<Rightarrow> (nat option, 'z kproc_scheme) res" where
  "scheduler s =
     bnd (scheduler_pick s) (\<lambda>r s.
       case r of None \<Rightarrow> Ok None s
       | Some i \<Rightarrow> bnd (resume_proc i s) (\<lambda>_ s. Ok (Some i) s))"

section \<open>Waking, killing, priorities\<close>

definition wakeup :: "chan \<Rightarrow> 'z kproc_scheme \<Rightarrow> 'z kproc_scheme" where
  "wakeup ch s =
     s\<lparr>procs := mapi (\<lambda>i p.
         if Some i \<noteq> myproc s \<and> p_state p = SLEEPING \<and> p_chan p = ch
         then p\<lparr>p_state := RUNNABLE\<rparr> else p) (procs s)\<rparr>"

definition kill_proc :: "proc \<Rightarrow> proc" where
  "kill_proc p =
     (let p = p\<lparr>p_killed := 1\<rparr>
      in if p_state p = SLEEPING then p\<lparr>p_state := RUNNABLE\<rparr> else p)"

definition kill :: "int \<Rightarrow> 'z kproc_scheme \<Rightarrow> int \<times> 'z kproc_scheme" where
  "kill pid s =
     (case find_idx (\<lambda>p. p_pid p = pid) (procs s) of
        Some i \<Rightarrow> (0, upd_proc i kill_proc s)
      | None \<Rightarrow> (-1, s))"

definition setkilled :: "nat \<Rightarrow> 'z kproc_scheme \<Rightarrow> 'z kproc_scheme" where
  "setkilled i s = upd_proc i (\<lambda>p. p\<lparr>p_killed := 1\<rparr>) s"

definition killed :: "nat \<Rightarrow> 'z kproc_scheme \<Rightarrow> int" where
  "killed i s = p_killed (procs s ! i)"

definition setprocpriority :: "int \<Rightarrow> int \<Rightarrow> 'z kproc_scheme \<Rightarrow> int \<times> 'z kproc_scheme" where
  "setprocpriority pid priority s =
     (if priority < 0 \<or> priority > 2 then (-1, s)
      else case find_idx (\<lambda>p. p_pid p = pid \<and> p_state p \<noteq> UNUSED) (procs s) of
             Some i \<Rightarrow> (0, upd_proc i (\<lambda>p. p\<lparr>p_priority := priority, p_ticks_used := 0\<rparr>) s)
           | None \<Rightarrow> (-1, s))"

definition clockintr :: "'z kproc_scheme \<Rightarrow> 'z kproc_scheme" where
  "clockintr s = wakeup ChTicks (s\<lparr>ticks := ticks s + 1\<rparr>)"

text \<open>The timer branch of \<open>usertrap\<close> and \<open>kerneltrap\<close>.\<close>

definition timer_yield :: "'z kproc_scheme \<Rightarrow> (unit, 'z kproc_scheme) res" where
  "timer_yield s = yield (mlfq_check_timer s)"

section \<open>Selection\<close>

lemma select_from_Some:
  "select_from n q ps = Some i \<longleftrightarrow>
     i < length ps \<and> p_state (ps ! i) = RUNNABLE
   \<and> q \<le> p_priority (ps ! i) \<and> p_priority (ps ! i) < q + int n
   \<and> (\<forall>j < length ps. p_state (ps ! j) = RUNNABLE \<longrightarrow> q \<le> p_priority (ps ! j) \<longrightarrow>
        p_priority (ps ! i) < p_priority (ps ! j)
        \<or> (p_priority (ps ! i) = p_priority (ps ! j) \<and> i \<le> j))"
proof (induction n arbitrary: q)
  case 0
  show ?case by auto
next
  case (Suc n)
  show ?case
  proof (cases "find_idx (runnable_at q) ps")
    case None
    then have no: "\<not> runnable_at q (ps ! j)" if "j < length ps" for j
      using that by (blast dest: find_idx_NoneD)
    have eq: "p_state (ps ! j) = RUNNABLE \<Longrightarrow> j < length ps \<Longrightarrow>
        q \<le> p_priority (ps ! j) \<longleftrightarrow> q + 1 \<le> p_priority (ps ! j)" for j
      using no [of j] by (auto simp: runnable_at_def)
    show ?thesis using None Suc.IH [of "q + 1"] eq by (auto simp: algebra_simps)
  next
    case (Some k)
    note k = find_idx_SomeD [OF Some]
    have "(i < length ps \<and> p_state (ps ! i) = RUNNABLE
       \<and> q \<le> p_priority (ps ! i) \<and> p_priority (ps ! i) < q + int (Suc n)
       \<and> (\<forall>j < length ps. p_state (ps ! j) = RUNNABLE \<longrightarrow> q \<le> p_priority (ps ! j) \<longrightarrow>
            p_priority (ps ! i) < p_priority (ps ! j)
            \<or> (p_priority (ps ! i) = p_priority (ps ! j) \<and> i \<le> j))) \<longleftrightarrow> i = k" (is "?R \<longleftrightarrow> _")
    proof
      assume r: ?R
      then have "p_priority (ps ! i) = q" "i \<le> k"
        using k by (auto simp: runnable_at_def)
      moreover have "runnable_at q (ps ! i)" using r \<open>p_priority (ps ! i) = q\<close>
        by (simp add: runnable_at_def)
      ultimately show "i = k" using k(3) [of i] by force
    next
      assume "i = k"
      then show ?R
        using k by (force simp: runnable_at_def not_less [symmetric])
    qed
    with Some show ?thesis by auto
  qed
qed

lemma select_from_None:
  "select_from n q ps = None \<longleftrightarrow>
     (\<forall>j < length ps. p_state (ps ! j) = RUNNABLE \<longrightarrow>
        \<not> (q \<le> p_priority (ps ! j) \<and> p_priority (ps ! j) < q + int n))"
proof (induction n arbitrary: q)
  case 0
  show ?case by simp
next
  case (Suc n)
  show ?case
  proof (cases "find_idx (runnable_at q) ps")
    case None
    then have no: "\<not> runnable_at q (ps ! j)" if "j < length ps" for j
      using that by (blast dest: find_idx_NoneD)
    have eq: "p_state (ps ! j) = RUNNABLE \<Longrightarrow> j < length ps \<Longrightarrow>
        q \<le> p_priority (ps ! j) \<longleftrightarrow> q + 1 \<le> p_priority (ps ! j)" for j
      using no [of j] by (auto simp: runnable_at_def)
    then show ?thesis using None Suc.IH [of "q + 1"] by (auto simp: algebra_simps)
  next
    case (Some k)
    from find_idx_SomeD [OF Some] Some show ?thesis by (auto simp: runnable_at_def)
  qed
qed

section \<open>Frame rules\<close>

lemma mycpu_simps [simp]:
  "hart s < length (cpus s) \<Longrightarrow> mycpu (set_mycpu c s) = c"
  "mycpu (upd_proc i f s) = mycpu s"
  by (simp_all add: mycpu_def set_mycpu_def upd_proc_def)

lemma sched_frame [simp]:
  "hart (set_mycpu c s) = hart s" "procs (set_mycpu c s) = procs s"
  "cpus (set_mycpu c s) = (cpus s)[hart s := c]"
  "hart (upd_proc i f s) = hart s" "cpus (upd_proc i f s) = cpus s"
  "procs (upd_proc i f s) = (procs s)[i := f (procs s ! i)]"
  "ticks (set_mycpu c s) = ticks s" "ticks (upd_proc i f s) = ticks s"
  "mlfq_ticks (set_mycpu c s) = mlfq_ticks s" "mlfq_ticks (upd_proc i f s) = mlfq_ticks s"
  by (simp_all add: set_mycpu_def upd_proc_def)

lemma upd_proc_twice [simp]:
  "i < length (procs s) \<Longrightarrow> upd_proc i f (upd_proc i g s) = upd_proc i (\<lambda>p. f (g p)) s"
  by (simp add: upd_proc_def)

lemma upd_proc_cong:
  "f (procs s ! i) = g (procs s ! i) \<Longrightarrow> upd_proc i f s = upd_proc i g s"
  by (simp add: upd_proc_def)

lemma set_mycpu_twice [simp]: "set_mycpu c (set_mycpu d s) = set_mycpu c s"
  by (simp add: set_mycpu_def)

lemma set_mycpu_upd_proc: "set_mycpu c (upd_proc i f s) = upd_proc i f (set_mycpu c s)"
  by (simp add: set_mycpu_def upd_proc_def)

definition free_lock :: "spinlock \<Rightarrow> bool" where
  "free_lock lk \<longleftrightarrow> \<not> lk_locked lk \<and> lk_cpu lk = None"

text \<open>\<open>on_cpu s i\<close>: the code runs as process \<open>i\<close>, whose table entry is unlocked.\<close>

definition on_cpu :: "'z kproc_scheme \<Rightarrow> nat \<Rightarrow> bool" where
  "on_cpu s i \<longleftrightarrow> hart s < length (cpus s) \<and> myproc s = Some i \<and> i < length (procs s)
     \<and> free_lock (p_lock (procs s ! i))"

lemma free_lockD [simp]:
  "free_lock lk \<Longrightarrow> \<not> lk_locked lk" "free_lock lk \<Longrightarrow> lk_cpu lk = None"
  "free_lock lk \<Longrightarrow> lk\<lparr>lk_locked := False, lk_cpu := None\<rparr> = lk"
  "free_lock lk \<Longrightarrow> lk\<lparr>lk_cpu := None, lk_locked := False\<rparr> = lk"
  by (simp_all add: free_lock_def)

lemma demote_simps [simp]:
  "yield_demote (p\<lparr>p_lock := l\<rparr>) = (yield_demote p)\<lparr>p_lock := l\<rparr>"
  "p_lock (yield_demote p) = p_lock p"
  "p_state (yield_demote p) = p_state p"
  "p_context (yield_demote p) = p_context p"
  "p_pid (yield_demote p) = p_pid p"
  "p_chan (yield_demote p) = p_chan p"
  by (simp_all add: yield_demote_def Let_def)

lemma acquire_p_eq:
  assumes "free_lock (p_lock (procs s ! i))"
  shows "acquire_p i s = Ok ()
    (upd_proc i (\<lambda>p. p\<lparr>p_lock := (p_lock p)\<lparr>lk_locked := True, lk_cpu := Some (hart s)\<rparr>\<rparr>)
      (set_mycpu (push_off (mycpu s)) s))"
  using assms by (simp add: acquire_p_def acquire_def holding_def upd_proc_def Let_def)

lemma release_p_eq:
  assumes "p_lock (procs s ! i) = lk\<lparr>lk_locked := True, lk_cpu := Some (hart s)\<rparr>" and "free_lock lk"
    and "pop_off (mycpu s) = Ok () c"
  shows "release_p i s = Ok () (upd_proc i (\<lambda>p. p\<lparr>p_lock := lk\<rparr>) (set_mycpu c s))"
  using assms by (simp add: release_p_def release_def holding_def upd_proc_def Let_def)

text \<open>\<open>sched\<close> called with the process lock as the only lock switches to the scheduler.\<close>

lemma sched_eq:
  assumes "hart s < length (cpus s)" "myproc s = Some i" "i < length (procs s)"
    and lk: "p_lock (procs s ! i) = lk\<lparr>lk_locked := True, lk_cpu := Some (hart s)\<rparr>" "free_lock lk"
    and "c_noff (mycpu s) = 1" "\<not> c_sie (mycpu s)" "p_state (procs s ! i) \<noteq> RUNNING"
  shows "sched k s = Ok ()
    (upd_proc i (\<lambda>p. p\<lparr>p_lock := lk, p_context := InSched (c_intena (mycpu s)) k\<rparr>)
      (set_mycpu ((mycpu s)\<lparr>c_proc := None, c_noff := 0, c_sie := c_intena (mycpu s)\<rparr>) s))"
proof -
  let ?c = "(mycpu s)\<lparr>c_proc := None, c_noff := 0, c_sie := c_intena (mycpu s)\<rparr>"
  let ?s1 = "upd_proc i (\<lambda>p. p\<lparr>p_context := InSched (c_intena (mycpu s)) k\<rparr>) s"
  let ?s2 = "set_mycpu ((mycpu s)\<lparr>c_proc := None\<rparr>) ?s1"
  have "pop_off (mycpu ?s2) = Ok () ?c"
    using assms by (simp add: pop_off_def intr_defs Let_def)
  then have "release_p i ?s2 = Ok () (upd_proc i (\<lambda>p. p\<lparr>p_lock := lk\<rparr>) (set_mycpu ?c ?s2))"
    using assms by (intro release_p_eq [OF _ lk(2)]) simp_all
  moreover have "upd_proc i (\<lambda>p. p\<lparr>p_lock := lk\<rparr>) (set_mycpu ?c ?s2) =
      upd_proc i (\<lambda>p. p\<lparr>p_lock := lk, p_context := InSched (c_intena (mycpu s)) k\<rparr>) (set_mycpu ?c s)"
    using assms by (simp add: set_mycpu_upd_proc) (rule upd_proc_cong, simp)
  ultimately show ?thesis
    using assms by (simp add: sched_def scheduler_return_def holding_def intr_defs)
qed

text \<open>\<open>yield\<close> called with no lock held always reaches the scheduler; the closed form.\<close>

lemma yield_eq:
  assumes "on_cpu s i" and "c_noff (mycpu s) = 0"
  shows "yield s = Ok ()
    (upd_proc i (\<lambda>p. (yield_demote p)\<lparr>p_state := RUNNABLE,
                        p_context := InSched (c_sie (mycpu s)) AfterYield\<rparr>)
      (set_mycpu ((mycpu s)\<lparr>c_proc := None, c_intena := c_sie (mycpu s), c_noff := 0\<rparr>) s))"
proof -
  let ?h = "hart s" and ?c = "push_off (mycpu s)" and ?lk = "p_lock (procs s ! i)"
  let ?s1 = "upd_proc i (\<lambda>p. p\<lparr>p_lock := (p_lock p)\<lparr>lk_locked := True, lk_cpu := Some ?h\<rparr>\<rparr>)
      (set_mycpu ?c s)"
  let ?s2 = "upd_proc i (\<lambda>p. (yield_demote p)\<lparr>p_state := RUNNABLE\<rparr>) ?s1"
  have s: "?h < length (cpus s)" "myproc s = Some i" "i < length (procs s)" "free_lock ?lk"
    using assms by (auto simp: on_cpu_def)
  have a: "acquire_p i s = Ok () ?s1" using s by (simp add: acquire_p_eq)
  have p2: "procs ?s2 ! i = (yield_demote (procs s ! i))\<lparr>p_state := RUNNABLE,
      p_lock := ?lk\<lparr>lk_locked := True, lk_cpu := Some ?h\<rparr>\<rparr>"
    using s by simp
  have "sched AfterYield ?s2 = Ok ()
      (upd_proc i (\<lambda>p. p\<lparr>p_lock := ?lk, p_context := InSched (c_intena (mycpu ?s2)) AfterYield\<rparr>)
        (set_mycpu ((mycpu ?s2)\<lparr>c_proc := None, c_noff := 0, c_sie := c_intena (mycpu ?s2)\<rparr>) ?s2))"
    using s assms(2) p2 by (intro sched_eq [of ?s2 i ?lk]) (simp_all add: myproc_def)
  moreover have "c_intena ?c = c_sie (mycpu s)"
    using assms(2) by (simp add: push_off_def intr_defs Let_def)
  moreover have "?c\<lparr>c_proc := None, c_noff := 0, c_sie := c_sie (mycpu s)\<rparr> =
      (mycpu s)\<lparr>c_proc := None, c_intena := c_sie (mycpu s), c_noff := 0\<rparr>"
    using assms(2) by (simp add: push_off_def intr_defs Let_def)
  ultimately have "sched AfterYield ?s2 = Ok ()
      (upd_proc i (\<lambda>p. p\<lparr>p_lock := ?lk, p_context := InSched (c_sie (mycpu s)) AfterYield\<rparr>)
        (set_mycpu ((mycpu s)\<lparr>c_proc := None, c_intena := c_sie (mycpu s), c_noff := 0\<rparr>) ?s2))"
    using s by simp
  with a s show ?thesis
    by (simp add: yield_def set_mycpu_upd_proc)
      (intro upd_proc_cong proc.equality, simp_all)
qed

lemma sleep_eq:
  assumes "on_cpu s i" and "c_noff (mycpu s) = 1" and "\<not> c_sie (mycpu s)"
    and lk: "holding (hart s) lk"
  shows "sleep ch lk s = Ok (lk\<lparr>lk_cpu := None, lk_locked := False\<rparr>)
    (upd_proc i (\<lambda>p. p\<lparr>p_ticks_used := 0, p_chan := ch, p_state := SLEEPING,
                        p_context := InSched (c_intena (mycpu s)) AfterSleep\<rparr>)
      (set_mycpu ((mycpu s)\<lparr>c_proc := None, c_noff := 0, c_sie := c_intena (mycpu s)\<rparr>) s))"
proof -
  let ?h = "hart s" and ?c = "push_off (mycpu s)" and ?l = "p_lock (procs s ! i)"
  let ?s1 = "upd_proc i (\<lambda>p. p\<lparr>p_lock := (p_lock p)\<lparr>lk_locked := True, lk_cpu := Some ?h\<rparr>\<rparr>)
      (set_mycpu ?c s)"
  let ?s2 = "upd_proc i (\<lambda>p. p\<lparr>p_ticks_used := 0, p_chan := ch, p_state := SLEEPING\<rparr>)
      (set_mycpu (mycpu s) ?s1)"
  have s: "?h < length (cpus s)" "myproc s = Some i" "i < length (procs s)" "free_lock ?l"
    using assms by (auto simp: on_cpu_def)
  have a: "acquire_p i s = Ok () ?s1" using s by (simp add: acquire_p_eq)
  have "pop_off ?c = Ok () (mycpu s)"
    using assms(2,3) by (simp add: push_off_def pop_off_def intr_defs Let_def)
  then have r: "release ?h ?c lk = Ok () (mycpu s, lk\<lparr>lk_cpu := None, lk_locked := False\<rparr>)"
    using lk by (simp add: release_def Let_def)
  have p2: "procs ?s2 ! i = (procs s ! i)\<lparr>p_ticks_used := 0, p_chan := ch, p_state := SLEEPING,
      p_lock := ?l\<lparr>lk_locked := True, lk_cpu := Some ?h\<rparr>\<rparr>"
    using s by simp
  have "sched AfterSleep ?s2 = Ok ()
      (upd_proc i (\<lambda>p. p\<lparr>p_lock := ?l, p_context := InSched (c_intena (mycpu ?s2)) AfterSleep\<rparr>)
        (set_mycpu ((mycpu ?s2)\<lparr>c_proc := None, c_noff := 0, c_sie := c_intena (mycpu ?s2)\<rparr>) ?s2))"
    using s assms(2,3) p2 by (intro sched_eq [of ?s2 i ?l]) (simp_all add: myproc_def)
  then have "sched AfterSleep ?s2 = Ok ()
    (upd_proc i (\<lambda>p. p\<lparr>p_ticks_used := 0, p_chan := ch, p_state := SLEEPING,
                        p_context := InSched (c_intena (mycpu s)) AfterSleep\<rparr>)
      (set_mycpu ((mycpu s)\<lparr>c_proc := None, c_noff := 0, c_sie := c_intena (mycpu s)\<rparr>) s))"
    using s by (simp add: set_mycpu_upd_proc) (intro upd_proc_cong proc.equality, simp_all)
  with a r s show ?thesis by (simp add: sleep_def)
qed

lemma upd_set_cong:
  assumes "c = c'" and "f (procs s ! i) = g (procs s ! i)"
  shows "upd_proc i f (set_mycpu c s) = upd_proc i g (set_mycpu c' s)"
  using assms by (auto intro!: upd_proc_cong)

text \<open>What the saved context of a runnable process brings back when it is resumed.\<close>

fun ctx_intena :: "kcontext \<Rightarrow> bool" where
  "ctx_intena (InSched b k) = b"
| "ctx_intena c = True"

fun ctx_ok :: "kcontext \<Rightarrow> bool" where
  "ctx_ok NoContext = False"
| "ctx_ok AtForkret = True"
| "ctx_ok (InSched b k) = (k \<noteq> AfterExit)"

definition resumed :: "proc \<Rightarrow> proc" where
  "resumed p = p\<lparr>p_state := RUNNING, p_num_scheduled := p_num_scheduled p + 1,
     p_chan := (case p_context p of InSched b AfterSleep \<Rightarrow> NullChan | _ \<Rightarrow> p_chan p)\<rparr>"

lemma resume_proc_eq:
  assumes "hart s < length (cpus s)" "i < length (procs s)" "ctx_ok (p_context (procs s ! i))"
    and lk: "p_lock (procs s ! i) = lk\<lparr>lk_locked := True, lk_cpu := Some (hart s)\<rparr>" "free_lock lk"
    and "c_noff (mycpu s) = 1" "\<not> c_sie (mycpu s)"
    and "p_context (procs s ! i) = AtForkret \<Longrightarrow> c_intena (mycpu s)"
  shows "resume_proc i s = Ok ()
    (upd_proc i (\<lambda>p. p\<lparr>p_lock := lk,
        p_chan := (case p_context p of InSched b AfterSleep \<Rightarrow> NullChan | _ \<Rightarrow> p_chan p)\<rparr>)
      (set_mycpu ((mycpu s)\<lparr>c_noff := 0, c_intena := ctx_intena (p_context (procs s ! i)),
          c_sie := ctx_intena (p_context (procs s ! i))\<rparr>) s))"
proof -
  let ?x = "p_context (procs s ! i)"
  have rel: "release_p i t = Ok () (upd_proc i (\<lambda>p. p\<lparr>p_lock := lk\<rparr>)
      (set_mycpu ((mycpu t)\<lparr>c_noff := 0, c_sie := c_intena (mycpu t)\<rparr>) t))"
    if "hart t = hart s" "p_lock (procs t ! i) = p_lock (procs s ! i)" "c_noff (mycpu t) = 1"
      "\<not> c_sie (mycpu t)" for t :: "'a kproc_scheme"
    using that lk by (intro release_p_eq) (simp_all add: pop_off_def intr_defs Let_def)
  show ?thesis
  proof (cases ?x)
    case NoContext
    with assms show ?thesis by simp
  next
    case AtForkret
    then have "resume_proc i s = Ok () (upd_proc i (\<lambda>p. p\<lparr>p_lock := lk\<rparr>)
      (set_mycpu ((mycpu s)\<lparr>c_noff := 0, c_sie := True, c_intena := True\<rparr>) s))"
      using assms rel [of s] by (simp add: resume_proc_def)
        (intro upd_set_cong cpu.equality, simp_all)
    then show ?thesis
      using AtForkret by simp (intro upd_set_cong cpu.equality proc.equality, simp_all)
  next
    case (InSched b k)
    let ?t = "set_mycpu ((mycpu s)\<lparr>c_intena := b\<rparr>) s"
    show ?thesis
    proof (cases k)
      case AfterYield
      then show ?thesis
        using InSched assms rel [of ?t]
        by (simp add: resume_proc_def) (intro upd_set_cong cpu.equality proc.equality, simp_all)
    next
      case AfterSleep
      let ?u = "upd_proc i (\<lambda>p. p\<lparr>p_chan := NullChan\<rparr>) ?t"
      show ?thesis
        using AfterSleep InSched assms rel [of ?u]
        by (simp add: resume_proc_def set_mycpu_upd_proc)
          (intro upd_set_cong cpu.equality proc.equality, simp_all)
    next
      case AfterExit
      then show ?thesis using InSched assms by simp
    qed
  qed
qed

lemma boost_check_simps [simp]:
  "hart (boost_check s) = hart s" "cpus (boost_check s) = cpus s"
  "length (procs (boost_check s)) = length (procs s)" "mycpu (boost_check s) = mycpu s"
  "ticks (boost_check s) = ticks s"
  by (simp_all add: boost_check_def priority_boost_def mycpu_def)

lemma scheduler_eq:
  fixes s :: "'z kproc_scheme"
  defines "t \<equiv> boost_check (set_mycpu (intr_on (mycpu s)) s)"
  assumes h: "hart s < length (cpus s)" and noff: "c_noff (mycpu s) = 0"
    and sel: "select_proc (procs t) = Some i" and i: "i < length (procs s)"
    and free: "free_lock (p_lock (procs t ! i))" and ok: "ctx_ok (p_context (procs t ! i))"
  shows "scheduler s = Ok (Some i)
    (upd_proc i resumed
      (set_mycpu ((mycpu s)\<lparr>c_proc := Some i, c_noff := 0,
          c_intena := ctx_intena (p_context (procs t ! i)),
          c_sie := ctx_intena (p_context (procs t ! i))\<rparr>) t))"
proof -
  let ?lk = "p_lock (procs t ! i)" and ?h = "hart s"
  let ?b = "ctx_intena (p_context (procs t ! i))"
  let ?c1 = "push_off (intr_on (mycpu s))"
  have t: "hart t = ?h" "length (cpus t) = length (cpus s)" "mycpu t = intr_on (mycpu s)"
      "length (procs t) = length (procs s)"
    using h by (simp_all add: t_def)
  have c1: "c_noff ?c1 = 1" "\<not> c_sie ?c1" "c_intena ?c1"
    using noff by (simp_all add: push_off_def intr_defs Let_def)
  let ?s2 = "upd_proc i (\<lambda>p. p\<lparr>p_lock := (p_lock p)\<lparr>lk_locked := True, lk_cpu := Some ?h\<rparr>,
        p_state := RUNNING, p_num_scheduled := p_num_scheduled p + 1\<rparr>)
      (set_mycpu (?c1\<lparr>c_proc := Some i\<rparr>) t)"
  have "scheduler_pick s = Ok (Some i) ?s2"
    using sel free h i t by (simp add: scheduler_pick_def flip: t_def)
      (simp add: acquire_p_eq set_mycpu_upd_proc)
  moreover have "resume_proc i ?s2 = Ok ()
      (upd_proc i (\<lambda>p. p\<lparr>p_lock := ?lk,
          p_chan := (case p_context p of InSched b AfterSleep \<Rightarrow> NullChan | _ \<Rightarrow> p_chan p)\<rparr>)
        (set_mycpu ((mycpu ?s2)\<lparr>c_noff := 0, c_intena := ctx_intena (p_context (procs ?s2 ! i)),
            c_sie := ctx_intena (p_context (procs ?s2 ! i))\<rparr>) ?s2))"
    using h i t free ok c1 by (intro resume_proc_eq) simp_all
  moreover have "upd_proc i (\<lambda>p. p\<lparr>p_lock := ?lk,
          p_chan := (case p_context p of InSched b AfterSleep \<Rightarrow> NullChan | _ \<Rightarrow> p_chan p)\<rparr>)
        (set_mycpu ((mycpu ?s2)\<lparr>c_noff := 0, c_intena := ctx_intena (p_context (procs ?s2 ! i)),
            c_sie := ctx_intena (p_context (procs ?s2 ! i))\<rparr>) ?s2) =
      upd_proc i resumed (set_mycpu ((mycpu s)\<lparr>c_proc := Some i, c_noff := 0,
          c_intena := ?b, c_sie := ?b\<rparr>) t)"
    using h i t noff
    by (simp add: set_mycpu_upd_proc push_off_def intr_defs Let_def)
      (intro upd_set_cong proc.equality,
        simp_all add: resumed_def split: kcontext.split resume.split)
  ultimately show ?thesis by (simp add: scheduler_def)
qed

lemma scheduler_idle:
  fixes s :: "'z kproc_scheme"
  defines "t \<equiv> boost_check (set_mycpu (intr_on (mycpu s)) s)"
  assumes "select_proc (procs t) = None"
  shows "scheduler s = Ok None t"
  using assms by (simp add: scheduler_def scheduler_pick_def flip: t_def)

end
