(* ===== verification/Mlfq.thy ===== *)
theory Mlfq
  imports Sched
begin

text \<open>
  The operations of the scheduler one at a time: an invariant of the process table and the
  harts in the moments when no lock is held, the closed form of each operation from such a
  state, and that it leaves such a state behind. The operation runs here without
  interference from other harts; their interleavings, lock by lock, are in \<open>Smp\<close>.
\<close>

section \<open>Invariant\<close>

text \<open>A process is in one of the queues and has not used up its slice there.\<close>

definition mlfq_ok :: "proc \<Rightarrow> bool" where
  "mlfq_ok p \<longleftrightarrow> 0 \<le> p_priority p \<and> p_priority p < NMLFQ
     \<and> 0 \<le> p_ticks_used p \<and> p_ticks_used p < get_time_slice (p_priority p)"

definition entry_ok :: "proc \<Rightarrow> bool" where
  "entry_ok p \<longleftrightarrow> free_lock (p_lock p) \<and> mlfq_ok p
     \<and> (p_state p = RUNNABLE \<or> p_state p = SLEEPING \<longrightarrow> ctx_ok (p_context p))"

definition table_ok :: "'z kproc_scheme \<Rightarrow> bool" where
  "table_ok s \<longleftrightarrow> length (procs s) = NPROC \<and> (\<forall>i < NPROC. entry_ok (procs s ! i))"

text \<open>
  No lock is held, and the processes that run are those the harts point to: \<open>own\<close> gives the
  process of each hart and is a bijection between the busy harts and the running processes.
\<close>

definition assigned :: "(nat \<Rightarrow> nat option) \<Rightarrow> (nat \<Rightarrow> bool) \<Rightarrow> bool" where
  "assigned own run \<longleftrightarrow>
     (\<forall>h < NCPU. \<forall>i. own h = Some i \<longrightarrow> i < NPROC \<and> run i)
   \<and> (\<forall>h < NCPU. \<forall>k < NCPU. own h = own k \<longrightarrow> own h \<noteq> None \<longrightarrow> h = k)
   \<and> (\<forall>i < NPROC. run i \<longrightarrow> (\<exists>h < NCPU. own h = Some i))"

definition cpus_ok :: "'z kproc_scheme \<Rightarrow> bool" where
  "cpus_ok s \<longleftrightarrow> length (cpus s) = NCPU \<and> (\<forall>h < NCPU. c_noff (cpus s ! h) = 0)
     \<and> assigned (\<lambda>h. c_proc (cpus s ! h)) (\<lambda>i. p_state (procs s ! i) = RUNNING)"

definition sched_inv :: "'z kproc_scheme \<Rightarrow> bool" where
  "sched_inv s \<longleftrightarrow> hart s < NCPU \<and> table_ok s \<and> cpus_ok s"

section \<open>Example states\<close>

text \<open>The kernel state when the first hart has run \<open>procinit\<close>, all static data zero.\<close>

definition boot :: kproc where
  "boot = procinit \<lparr>mem = (\<lambda>_. 0), freelist = 0, kend = 0, hart = 0,
     cpus = replicate NCPU \<lparr>c_proc = None, c_noff = 0, c_intena = False, c_sie = False\<rparr>,
     procs = replicate NPROC zero_proc, initproc = None, nextpid = 1, ticks = 0,
     mlfq_ticks = 0, last_boost_tick = 0\<rparr>"

text \<open>Two CPU-bound processes that wait in the lowest queue.\<close>

definition two_procs :: kproc where
  "two_procs = upd_proc 2 (\<lambda>p. p\<lparr>p_state := RUNNABLE, p_context := AtForkret, p_priority := 2\<rparr>)
     (upd_proc 1 (\<lambda>p. p\<lparr>p_state := RUNNABLE, p_context := AtForkret, p_priority := 2\<rparr>) boot)"

section \<open>Preservation\<close>

lemma get_time_slice_pos: "0 < get_time_slice n"
  by (simp add: get_time_slice_def kconst)

lemma mlfq_ok_simps [simp]:
  "mlfq_ok (p\<lparr>p_state := st\<rparr>) = mlfq_ok p" "mlfq_ok (p\<lparr>p_chan := c\<rparr>) = mlfq_ok p"
  "mlfq_ok (p\<lparr>p_context := x\<rparr>) = mlfq_ok p" "mlfq_ok (p\<lparr>p_killed := k\<rparr>) = mlfq_ok p"
  "mlfq_ok (p\<lparr>p_num_scheduled := k\<rparr>) = mlfq_ok p" "mlfq_ok (p\<lparr>p_lock := l\<rparr>) = mlfq_ok p"
  by (simp_all add: mlfq_ok_def)

lemma mlfq_ok_zero: "mlfq_ok p \<Longrightarrow> mlfq_ok (p\<lparr>p_ticks_used := 0\<rparr>)"
  by (simp add: mlfq_ok_def get_time_slice_pos)

lemma mlfq_ok_boost: "mlfq_ok p \<Longrightarrow> mlfq_ok (boost_proc p)"
  by (simp add: mlfq_ok_def boost_proc_def get_time_slice_pos kconst)

text \<open>A tick that reaches the end of the slice is followed by the demotion.\<close>

lemma mlfq_ok_tick: "mlfq_ok p \<Longrightarrow> mlfq_ok (yield_demote (tick_proc p))"
  by (auto simp: mlfq_ok_def yield_demote_def tick_proc_def get_time_slice_def kconst Let_def)

lemma assigned_cong:
  assumes "\<And>h. h < NCPU \<Longrightarrow> own h = own' h" and "\<And>i. i < NPROC \<Longrightarrow> run i = run' i"
  shows "assigned own run = assigned own' run'"
  unfolding assigned_def using assms by (simp cong: conj_cong imp_cong)

lemma assignedI:
  assumes "\<And>h i. h < NCPU \<Longrightarrow> own h = Some i \<Longrightarrow> i < NPROC \<and> run i"
    and "\<And>h k i. h < NCPU \<Longrightarrow> k < NCPU \<Longrightarrow> own h = Some i \<Longrightarrow> own k = Some i \<Longrightarrow> h = k"
    and "\<And>i. i < NPROC \<Longrightarrow> run i \<Longrightarrow> \<exists>h < NCPU. own h = Some i"
  shows "assigned own run"
  unfolding assigned_def using assms by (metis not_None_eq)

lemma assignedD:
  assumes "assigned own run"
  shows "h < NCPU \<Longrightarrow> own h = Some i \<Longrightarrow> i < NPROC \<and> run i"
    and "h < NCPU \<Longrightarrow> k < NCPU \<Longrightarrow> own h = Some i \<Longrightarrow> own k = Some i \<Longrightarrow> h = k"
    and "i < NPROC \<Longrightarrow> run i \<Longrightarrow> \<exists>h < NCPU. own h = Some i"
  using assms by (simp_all add: assigned_def)

lemma assigned_release:
  assumes "assigned own run" "h < NCPU" "own h = Some i"
  shows "assigned (own(h := None)) (run(i := False))"
proof (rule assignedI)
  note D = assignedD [OF assms(1)]
  fix k j assume "k < NCPU" "(own(h := None)) k = Some j"
  with D(1) D(2) [of k h i] assms(2,3) show "j < NPROC \<and> (run(i := False)) j"
    by (auto split: if_splits)
next
  note D = assignedD [OF assms(1)]
  fix j assume "j < NPROC" "(run(i := False)) j"
  with D(3) [of j] obtain k where "k < NCPU" "own k = Some j" "j \<noteq> i"
    by (auto split: if_splits)
  with assms(3) show "\<exists>k < NCPU. (own(h := None)) k = Some j" by (intro exI [of _ k]) auto
qed (use assignedD(2) [OF assms(1)] in \<open>auto split: if_splits\<close>)

lemma assigned_take:
  assumes "assigned own run" "h < NCPU" "own h = None" "i < NPROC" "\<not> run i"
  shows "assigned (own(h := Some i)) (run(i := True))"
proof (rule assignedI)
  note D = assignedD [OF assms(1)]
  fix k j assume "k < NCPU" "(own(h := Some i)) k = Some j"
  with D(1) [of k j] assms(4) show "j < NPROC \<and> (run(i := True)) j"
    by (auto split: if_splits)
next
  note D = assignedD [OF assms(1)]
  fix k l j assume "k < NCPU" "l < NCPU" "(own(h := Some i)) k = Some j" "(own(h := Some i)) l = Some j"
  with D(1) [of k i] D(1) [of l i] D(2) [of k l j] assms(5) show "k = l"
    by (auto split: if_splits)
next
  note D = assignedD [OF assms(1)]
  fix j assume j: "j < NPROC" "(run(i := True)) j"
  show "\<exists>k < NCPU. (own(h := Some i)) k = Some j"
  proof (cases "j = i")
    case True
    with assms(2) show ?thesis by auto
  next
    case False
    with j D(3) [of j] obtain k where "k < NCPU" "own k = Some j" by auto
    with assms(3) show ?thesis by (intro exI [of _ k]) auto
  qed
qed

lemma sched_invD:
  assumes "sched_inv s"
  shows "hart s < NCPU" "length (procs s) = NPROC" "length (cpus s) = NCPU"
    "c_noff (mycpu s) = 0" "i < NPROC \<Longrightarrow> entry_ok (procs s ! i)"
    "myproc s = Some i \<Longrightarrow> i < NPROC \<and> p_state (procs s ! i) = RUNNING"
    "assigned (\<lambda>h. c_proc (cpus s ! h)) (\<lambda>i. p_state (procs s ! i) = RUNNING)"
  using assms
  by (auto simp: sched_inv_def table_ok_def cpus_ok_def assigned_def mycpu_def myproc_def)

lemma on_cpuI: "sched_inv s \<Longrightarrow> myproc s = Some i \<Longrightarrow> on_cpu s i"
  using sched_invD(1-3) [of s] sched_invD(5,6) [of s i] by (simp add: on_cpu_def entry_ok_def)

lemma inv_same_running:
  assumes "sched_inv s" "hart t < NCPU" "cpus t = cpus s" "length (procs t) = length (procs s)"
    and "\<And>i. i < NPROC \<Longrightarrow> entry_ok (procs t ! i)"
    and "\<And>i. i < NPROC \<Longrightarrow> p_state (procs t ! i) = RUNNING \<longleftrightarrow> p_state (procs s ! i) = RUNNING"
  shows "sched_inv t"
proof -
  have "assigned (\<lambda>h. c_proc (cpus t ! h)) (\<lambda>i. p_state (procs t ! i) = RUNNING)"
    using sched_invD(7) [OF assms(1)] assms(3,6) by (subst assigned_cong) auto
  with assms show ?thesis by (simp add: sched_inv_def table_ok_def cpus_ok_def)
qed

text \<open>Hart and process change together: a process leaves its hart, or takes an idle one.\<close>

lemma inv_switch:
  assumes s: "sched_inv s" "i < NPROC" and c: "c_noff c = 0" "entry_ok (f (procs s ! i))"
    and a: "assigned ((\<lambda>h. c_proc (cpus s ! h))(hart s := c_proc c))
      ((\<lambda>i. p_state (procs s ! i) = RUNNING)(i := p_state (f (procs s ! i)) = RUNNING))"
  shows "sched_inv (upd_proc i f (set_mycpu c s))"
proof -
  note inv = sched_invD [OF s(1)]
  let ?t = "upd_proc i f (set_mycpu c s)"
  have "assigned (\<lambda>h. c_proc (cpus ?t ! h)) (\<lambda>i. p_state (procs ?t ! i) = RUNNING)"
    using a inv s(2) by (subst assigned_cong) (auto simp: nth_list_update)
  moreover have "table_ok ?t" using s inv c by (auto simp: table_ok_def nth_list_update)
  moreover have "\<forall>h < NCPU. c_noff (cpus ?t ! h) = 0"
    using s c inv by (auto simp: sched_inv_def cpus_ok_def nth_list_update)
  ultimately show ?thesis using inv by (simp add: sched_inv_def cpus_ok_def)
qed

lemma inv_leave:
  assumes s: "sched_inv s" "myproc s = Some i" and c: "c_proc c = None" "c_noff c = 0"
    and f: "entry_ok (f (procs s ! i))" "p_state (f (procs s ! i)) \<noteq> RUNNING"
  shows "sched_inv (upd_proc i f (set_mycpu c s))"
  using assms sched_invD [OF s(1)] assigned_release [OF sched_invD(7) [OF s(1)], of "hart s" i]
  by (intro inv_switch) (auto simp: myproc_def mycpu_def)

lemma inv_enter:
  assumes s: "sched_inv s" "myproc s = None" "i < NPROC" "p_state (procs s ! i) \<noteq> RUNNING"
    and c: "c_proc c = Some i" "c_noff c = 0"
    and f: "entry_ok (f (procs s ! i))" "p_state (f (procs s ! i)) = RUNNING"
  shows "sched_inv (upd_proc i f (set_mycpu c s))"
  using assms sched_invD [OF s(1)] assigned_take [OF sched_invD(7) [OF s(1)], of "hart s" i]
  by (intro inv_switch) (auto simp: myproc_def mycpu_def)

lemma entry_ok_wake: "entry_ok p \<Longrightarrow> p_state p = SLEEPING \<Longrightarrow> entry_ok (p\<lparr>p_state := RUNNABLE\<rparr>)"
  by (simp add: entry_ok_def)

lemma inv_wakeup: "sched_inv s \<Longrightarrow> sched_inv (wakeup ch s)"
  using sched_invD(1-3,5) [of s]
  by (rule_tac inv_same_running [of s]) (simp_all add: wakeup_def entry_ok_wake)

lemma inv_upd_proc:
  assumes "sched_inv s"
    and "i < NPROC \<Longrightarrow> entry_ok (f (procs s ! i))"
    and "p_state (f (procs s ! i)) = RUNNING \<longleftrightarrow> p_state (procs s ! i) = RUNNING"
  shows "sched_inv (upd_proc i f s)"
  using assms sched_invD(1-3,5) [OF assms(1)]
  by (cases "i < NPROC"; rule_tac inv_same_running [of s])
    (auto simp: nth_list_update list_update_beyond)

lemma entry_ok_kill: "entry_ok p \<Longrightarrow> entry_ok (kill_proc p)"
  and kill_proc_running [simp]: "p_state (kill_proc p) = RUNNING \<longleftrightarrow> p_state p = RUNNING"
  by (simp_all add: entry_ok_def kill_proc_def Let_def)

lemma inv_kill: "sched_inv s \<Longrightarrow> kill pid s = (r, t) \<Longrightarrow> sched_inv t"
  using sched_invD(5) [of s] entry_ok_kill
  by (auto simp: kill_def split: option.splits intro!: inv_upd_proc)

lemma entry_ok_priority:
  "0 \<le> n \<Longrightarrow> n \<le> 2 \<Longrightarrow> entry_ok p \<Longrightarrow> entry_ok (p\<lparr>p_priority := n, p_ticks_used := 0\<rparr>)"
  by (simp add: entry_ok_def mlfq_ok_def get_time_slice_pos kconst)

lemma inv_setprocpriority:
  "sched_inv s \<Longrightarrow> setprocpriority pid n s = (r, t) \<Longrightarrow> sched_inv t"
  using sched_invD(5) [of s] entry_ok_priority [of n]
  by (auto simp: setprocpriority_def split: option.splits if_splits intro!: inv_upd_proc)

lemma inv_frame:
  assumes "sched_inv s" "hart t = hart s" "cpus t = cpus s" "procs t = procs s"
  shows "sched_inv t"
  using assms sched_invD(1,5) [OF assms(1)] by (rule_tac inv_same_running [of s]) simp_all

lemma inv_clockintr: "sched_inv s \<Longrightarrow> sched_inv (clockintr s)"
  unfolding clockintr_def by (rule inv_wakeup, rule inv_frame [of s]) simp_all

lemma boost_proc_simps [simp]:
  "p_state (boost_proc p) = p_state p" "p_lock (boost_proc p) = p_lock p"
  "p_context (boost_proc p) = p_context p" "p_pid (boost_proc p) = p_pid p"
  by (simp_all add: boost_proc_def)

lemma inv_boost_check: "sched_inv s \<Longrightarrow> sched_inv (boost_check s)"
  using sched_invD(1-3,5) [of s]
  by (rule_tac inv_same_running [of s])
    (simp_all add: boost_check_def priority_boost_def entry_ok_def mlfq_ok_boost)

lemma inv_set_mycpu:
  assumes "sched_inv s" "c_noff c = 0" "c_proc c = myproc s"
  shows "sched_inv (set_mycpu c s)"
proof -
  note inv = sched_invD [OF assms(1)]
  have "assigned (\<lambda>h. c_proc (cpus (set_mycpu c s) ! h)) (\<lambda>i. p_state (procs s ! i) = RUNNING)"
    using inv assms(3)
    by (subst assigned_cong [where own' = "\<lambda>h. c_proc (cpus s ! h)"])
      (auto simp: nth_list_update myproc_def mycpu_def)
  then show ?thesis
    using assms by (auto simp: sched_inv_def cpus_ok_def table_ok_def nth_list_update)
qed

section \<open>Every operation succeeds and keeps the invariant\<close>

lemma entry_ok_yield:
  "entry_ok p \<Longrightarrow> entry_ok ((yield_demote (tick_proc p))\<lparr>p_state := RUNNABLE,
     p_context := InSched b AfterYield\<rparr>)"
  by (simp add: entry_ok_def mlfq_ok_tick) (simp add: tick_proc_def)

lemma entry_ok_sleep:
  "entry_ok p \<Longrightarrow> entry_ok (p\<lparr>p_ticks_used := 0, p_chan := ch, p_state := SLEEPING,
     p_context := InSched b AfterSleep\<rparr>)"
  by (simp add: entry_ok_def mlfq_ok_def get_time_slice_pos)

lemma entry_ok_resumed: "entry_ok p \<Longrightarrow> entry_ok (resumed p)"
  by (simp add: entry_ok_def resumed_def)

text \<open>A timer interrupt in closed form: one tick, the demotion it may cause, the switch.\<close>

lemma timer_yield_eq:
  assumes "sched_inv s" "myproc s = Some i"
  shows "timer_yield s = Ok ()
    ((upd_proc i (\<lambda>p. (yield_demote (tick_proc p))\<lparr>p_state := RUNNABLE,
                        p_context := InSched (c_sie (mycpu s)) AfterYield\<rparr>)
      (set_mycpu ((mycpu s)\<lparr>c_proc := None, c_intena := c_sie (mycpu s), c_noff := 0\<rparr>) s))
        \<lparr>mlfq_ticks := mlfq_ticks s + 1\<rparr>)"
proof -
  let ?s = "(upd_proc i tick_proc s)\<lparr>mlfq_ticks := mlfq_ticks s + 1\<rparr>"
  have i: "i < length (procs s)"
    using sched_invD(2,6) [OF assms(1)] assms(2) by simp
  have m: "mycpu ?s = mycpu s" by (simp add: mycpu_def)
  have "on_cpu ?s i"
    using on_cpuI [OF assms] by (simp add: on_cpu_def myproc_def m nth_list_update tick_proc_def)
  with sched_invD(4) [OF assms(1)] have "yield ?s = Ok ()
    (upd_proc i (\<lambda>p. (yield_demote p)\<lparr>p_state := RUNNABLE,
                        p_context := InSched (c_sie (mycpu s)) AfterYield\<rparr>)
      (set_mycpu ((mycpu s)\<lparr>c_proc := None, c_intena := c_sie (mycpu s), c_noff := 0\<rparr>) ?s))"
    using yield_eq [of ?s i] by (simp add: m)
  with assms(2) i show ?thesis
    by (simp add: timer_yield_def mlfq_check_timer_def upd_proc_def set_mycpu_def)
qed

lemma timer_yield_inv:
  assumes "sched_inv s" "myproc s = Some i" "timer_yield s = Ok () t"
  shows "sched_inv t"
proof -
  let ?c = "(mycpu s)\<lparr>c_proc := None, c_intena := c_sie (mycpu s), c_noff := 0\<rparr>"
  let ?f = "\<lambda>p. (yield_demote (tick_proc p))\<lparr>p_state := RUNNABLE,
                        p_context := InSched (c_sie (mycpu s)) AfterYield\<rparr>"
  have "entry_ok (procs s ! i)" using sched_invD(5,6) [OF assms(1)] assms(2) by blast
  then have "sched_inv (upd_proc i ?f (set_mycpu ?c s))"
    using assms(1,2) by (intro inv_leave) (simp_all add: entry_ok_yield)
  moreover have "t = (upd_proc i ?f (set_mycpu ?c s))\<lparr>mlfq_ticks := mlfq_ticks s + 1\<rparr>"
    using assms(3) timer_yield_eq [OF assms(1,2)] by simp
  ultimately show ?thesis by (auto elim: inv_frame)
qed

text \<open>
  A call to \<open>sleep\<close> with one lock held, as its callers make it: \<open>acquire(lk)\<close> and then
  \<open>sleep(chan, lk)\<close>.
\<close>

lemma sleep_locked_eq:
  assumes "sched_inv s" "myproc s = Some i" "acquire (hart s) (mycpu s) lk = Ok () (c, lk')"
  shows "sleep ch lk' (set_mycpu c s) = Ok (lk'\<lparr>lk_cpu := None, lk_locked := False\<rparr>)
    (upd_proc i (\<lambda>p. p\<lparr>p_ticks_used := 0, p_chan := ch, p_state := SLEEPING,
                        p_context := InSched (c_sie (mycpu s)) AfterSleep\<rparr>)
      (set_mycpu ((mycpu s)\<lparr>c_proc := None, c_noff := 0, c_intena := c_sie (mycpu s)\<rparr>) s))"
proof -
  let ?s = "set_mycpu c s"
  note inv = sched_invD(1-4) [OF assms(1)]
  have c: "c = push_off (mycpu s)" "holding (hart s) lk'"
    using assms(3) by (auto simp: acquire_def holding_def Let_def split: if_splits)
  then have noff: "c_noff c = 1" "\<not> c_sie c" "c_intena c = c_sie (mycpu s)" "c_proc c = Some i"
    using inv(4) assms(2) by (simp_all add: push_off_def intr_defs Let_def myproc_def)
  have "on_cpu ?s i"
    using on_cpuI [OF assms(1,2)] noff by (simp add: on_cpu_def myproc_def)
  from sleep_eq [OF this, of lk' ch] noff c(2) inv
  have "sleep ch lk' ?s = Ok (lk'\<lparr>lk_cpu := None, lk_locked := False\<rparr>)
    (upd_proc i (\<lambda>p. p\<lparr>p_ticks_used := 0, p_chan := ch, p_state := SLEEPING,
                        p_context := InSched (c_sie (mycpu s)) AfterSleep\<rparr>)
      (set_mycpu (c\<lparr>c_proc := None, c_noff := 0, c_sie := c_sie (mycpu s)\<rparr>) s))"
    by simp
  moreover have "c\<lparr>c_proc := None, c_noff := 0, c_sie := c_sie (mycpu s)\<rparr> =
      (mycpu s)\<lparr>c_proc := None, c_noff := 0, c_intena := c_sie (mycpu s)\<rparr>"
    using c(1) inv(4) by (simp add: push_off_def intr_defs Let_def)
  ultimately show ?thesis by simp
qed

lemma sleep_inv:
  assumes "sched_inv s" "myproc s = Some i" "acquire (hart s) (mycpu s) lk = Ok () (c, lk')"
    and "sleep ch lk' (set_mycpu c s) = Ok lk'' t"
  shows "sched_inv t"
proof -
  have "entry_ok (procs s ! i)" using sched_invD(5,6) [OF assms(1)] assms(2) by blast
  with assms show ?thesis
    by (auto simp: sleep_locked_eq intro!: inv_leave entry_ok_sleep)
qed

lemma select_proc_lt: "select_proc ps = Some i \<Longrightarrow> i < length ps \<and> p_state (ps ! i) = RUNNABLE"
  by (simp add: select_proc_def select_from_Some)

text \<open>The scheduler loop of an idle hart, in closed form; \<open>t\<close> is the state after the boost.\<close>

lemma scheduler_cases:
  fixes s :: "'z kproc_scheme"
  defines "t \<equiv> boost_check (set_mycpu (intr_on (mycpu s)) s)"
  assumes "sched_inv s" "myproc s = None"
  shows "sched_inv t" and "myproc t = None"
    and "select_proc (procs t) = None \<Longrightarrow> scheduler s = Ok None t"
    and "select_proc (procs t) = Some i \<Longrightarrow> scheduler s = Ok (Some i)
      (upd_proc i resumed (set_mycpu ((mycpu s)\<lparr>c_proc := Some i, c_noff := 0,
          c_intena := ctx_intena (p_context (procs t ! i)),
          c_sie := ctx_intena (p_context (procs t ! i))\<rparr>) t))"
proof -
  note inv = sched_invD(1-4) [OF assms(2)]
  show t: "sched_inv t"
    unfolding t_def using assms(2) inv
    by (intro inv_boost_check inv_set_mycpu) (simp_all add: intr_defs myproc_def)
  show "myproc t = None"
    using assms inv by (simp add: myproc_def intr_defs)
  show "select_proc (procs t) = None \<Longrightarrow> scheduler s = Ok None t"
    unfolding t_def by (rule scheduler_idle)
  assume sel: "select_proc (procs t) = Some i"
  from select_proc_lt [OF this] sched_invD(2) [OF t]
  have i: "i < NPROC" "p_state (procs t ! i) = RUNNABLE" by auto
  with sched_invD(5) [OF t] have "entry_ok (procs t ! i)" by blast
  with i sel inv show "scheduler s = Ok (Some i)
      (upd_proc i resumed (set_mycpu ((mycpu s)\<lparr>c_proc := Some i, c_noff := 0,
          c_intena := ctx_intena (p_context (procs t ! i)),
          c_sie := ctx_intena (p_context (procs t ! i))\<rparr>) t))"
    unfolding t_def by (intro scheduler_eq) (simp_all add: entry_ok_def)
qed

lemma scheduler_inv:
  fixes s :: "'z kproc_scheme"
  assumes "sched_inv s" "myproc s = None" "scheduler s = Ok r u"
  shows "sched_inv u"
proof -
  define t where "t = boost_check (set_mycpu (intr_on (mycpu s)) s)"
  note sc = scheduler_cases [OF assms(1,2), folded t_def]
  show ?thesis
  proof (cases "select_proc (procs t)")
    case None
    with sc(1,3) assms(3) show ?thesis by simp
  next
    case (Some i)
    with select_proc_lt [OF Some] sched_invD(2) [OF sc(1)]
    have i: "i < NPROC" "p_state (procs t ! i) = RUNNABLE" by auto
    with sched_invD(5) [OF sc(1)] have "entry_ok (procs t ! i)" by blast
    with i sc(1,2) sc(4) [OF Some] assms(3) show ?thesis
      by (auto intro!: inv_enter entry_ok_resumed simp: resumed_def)
  qed
qed

section \<open>Initial states\<close>

lemma boot_simps:
  "hart boot = 0" "length (procs boot) = NPROC" "length (cpus boot) = NCPU"
  "mlfq_ticks boot = 0"
  "h < NCPU \<Longrightarrow> cpus boot ! h = \<lparr>c_proc = None, c_noff = 0, c_intena = False, c_sie = False\<rparr>"
  "i < NPROC \<Longrightarrow> procs boot ! i = zero_proc\<lparr>p_lock := initlock (p_lock zero_proc) ''proc'',
     p_state := UNUSED, p_kstack := KSTACK i\<rparr>"
  by (simp_all add: boot_def procinit_def)

lemma boot_inv: "sched_inv boot"
  by (auto simp: sched_inv_def table_ok_def cpus_ok_def assigned_def entry_ok_def mlfq_ok_def
      boot_simps zero_proc_def initlock_def free_lock_def get_time_slice_def) (simp_all add: kconst)

lemma two_procs_inv: "sched_inv two_procs"
  unfolding two_procs_def using boot_inv
  by (intro inv_upd_proc)
    (auto simp: boot_simps entry_ok_def mlfq_ok_def nth_list_update kconst get_time_slice_def
      zero_proc_def initlock_def free_lock_def)

section \<open>Properties\<close>

text \<open>
  C1. The nested loops of \<open>scheduler\<close> choose a runnable process of the highest non-empty
  queue, and among those the one with the least table index; when they choose none, no
  process of any queue is runnable.
\<close>

theorem select_proc_spec:
  "(select_proc ps = Some i \<longleftrightarrow>
     i < length ps \<and> p_state (ps ! i) = RUNNABLE \<and> p_priority (ps ! i) \<in> {0, 1, 2}
   \<and> (\<forall>j < length ps. p_state (ps ! j) = RUNNABLE \<longrightarrow> 0 \<le> p_priority (ps ! j) \<longrightarrow>
        p_priority (ps ! i) < p_priority (ps ! j)
        \<or> (p_priority (ps ! i) = p_priority (ps ! j) \<and> i \<le> j)))
 \<and> (select_proc ps = None \<longleftrightarrow>
     (\<forall>j < length ps. p_state (ps ! j) = RUNNABLE \<longrightarrow> p_priority (ps ! j) \<notin> {0, 1, 2}))"
proof -
  have "x \<in> {0, 1, 2} \<longleftrightarrow> 0 \<le> x \<and> x < 3" for x :: int by auto
  then show ?thesis by (simp add: select_proc_def select_from_Some select_from_None kconst conj_ac)
qed

theorem select_proc_spec_witness:
  "select_proc [zero_proc\<lparr>p_state := RUNNABLE, p_priority := 2\<rparr>,
     zero_proc\<lparr>p_state := RUNNABLE, p_priority := 1\<rparr>] = Some 1"
  using select_proc_spec [of "[zero_proc\<lparr>p_state := RUNNABLE, p_priority := 2\<rparr>,
     zero_proc\<lparr>p_state := RUNNABLE, p_priority := 1\<rparr>]" 1]
  by (simp add: less_Suc_eq all_conj_distrib)

end
