(* ===== verification/Sleeplock.thy ===== *)
theory Sleeplock
  imports Mlfq
begin

text \<open>
  Sleep locks (\<^verbatim>\<open>kernel/sleeplock.h\<close>, \<^verbatim>\<open>kernel/sleeplock.c\<close>). The spinlock inside a sleep
  lock guards each routine as a whole and is not written out. A caller that finds the lock
  taken sleeps until its holder releases it: in a sequential run that is \<open>Blocked\<close>. The
  first argument of \<open>releasesleep\<close> is the channel, the address of the lock.
\<close>

record sleeplock =
  sl_locked :: bool
  sl_name :: string
  sl_pid :: int

definition initsleeplock :: "sleeplock \<Rightarrow> string \<Rightarrow> sleeplock" where
  "initsleeplock lk name = lk\<lparr>sl_name := name, sl_locked := False, sl_pid := 0\<rparr>"

text \<open>\<open>myproc()->pid\<close>; reading it without a process is a fault.\<close>

definition mypid :: "'z kproc_scheme \<Rightarrow> (int, 'z kproc_scheme) res" where
  "mypid s = (case myproc s of
       None \<Rightarrow> Panic ''null pointer''
     | Some i \<Rightarrow> Ok (p_pid (procs s ! i)) s)"

definition acquiresleep :: "sleeplock \<Rightarrow> 'z kproc_scheme \<Rightarrow> (sleeplock, 'z kproc_scheme) res" where
  "acquiresleep lk s =
     (if sl_locked lk then Blocked
      else bnd (mypid s) (\<lambda>pid s. Ok (lk\<lparr>sl_locked := True, sl_pid := pid\<rparr>) s))"

definition releasesleep ::
  "chan \<Rightarrow> sleeplock \<Rightarrow> 'z kproc_scheme \<Rightarrow> sleeplock \<times> 'z kproc_scheme" where
  "releasesleep ch lk s = (lk\<lparr>sl_locked := False, sl_pid := 0\<rparr>, wakeup ch s)"

definition holdingsleep :: "sleeplock \<Rightarrow> 'z kproc_scheme \<Rightarrow> (bool, 'z kproc_scheme) res" where
  "holdingsleep lk s =
     (if \<not> sl_locked lk then Ok False s
      else bnd (mypid s) (\<lambda>pid s. Ok (sl_pid lk = pid) s))"

lemma mypid_eq: "myproc s = Some i \<Longrightarrow> mypid s = Ok (p_pid (procs s ! i)) s"
  by (simp add: mypid_def)

lemma acquiresleep_Ok:
  assumes "acquiresleep lk s = Ok lk' t"
  shows "t = s" "\<not> sl_locked lk" "holdingsleep lk' s = Ok True s"
  using assms
  by (auto simp: acquiresleep_def holdingsleep_def mypid_def split: if_splits option.splits)

text \<open>\<open>wakeup\<close> as seen by callers that only care that it leaves the running process alone.\<close>

lemma wakeup_frame [simp]:
  "hart (wakeup ch s) = hart s" "cpus (wakeup ch s) = cpus s" "mycpu (wakeup ch s) = mycpu s"
  "myproc (wakeup ch s) = myproc s" "length (procs (wakeup ch s)) = length (procs s)"
  "mem (wakeup ch s) = mem s" "freelist (wakeup ch s) = freelist s" "kend (wakeup ch s) = kend s"
  by (simp_all add: wakeup_def mycpu_def myproc_def)

lemma wakeup_pid [simp]: "i < length (procs s) \<Longrightarrow> p_pid (procs (wakeup ch s) ! i) = p_pid (procs s ! i)"
  by (simp add: wakeup_def)

end
