(* ===== verification/Bio.thy ===== *)
theory Bio
  imports Sleeplock
begin

text \<open>
  The buffer cache (\<^verbatim>\<open>kernel/buf.h\<close>, \<^verbatim>\<open>kernel/bio.c\<close>) and the disk below it.

  The cache is an array of \<open>NBUF\<close> buffers followed by the list head, and the doubly linked
  list is made of indices into that array, \<open>NBUF\<close> standing for \<^verbatim>\<open>&bcache.head\<close>. The disk is
  a map from sector numbers to 512 byte sectors; a request of \<^verbatim>\<open>virtio_disk_rw\<close> transfers
  the two sectors of a block, and the process sleeps until it is done, so that it is one
  step here. \<open>disk_hist\<close> is a ghost variable: the disk images before each write, newest
  first, which are what a crash may leave.
\<close>

definition BSIZE :: nat where [kconst]: "BSIZE = 1024"

type_synonym block = "u8 list"

record buf =
  b_valid :: bool
  b_disk :: bool
  b_dev :: u32
  b_blockno :: u32
  b_lock :: sleeplock
  b_refcnt :: u32
  b_prev :: nat
  b_next :: nat
  b_data :: block

record kbio = kproc +
  bcache :: "buf list"
  disk :: "u64 \<Rightarrow> u8 list"
  disk_hist :: "(u64 \<Rightarrow> u8 list) list"

definition upd_buf :: "nat \<Rightarrow> (buf \<Rightarrow> buf) \<Rightarrow> 'z kbio_scheme \<Rightarrow> 'z kbio_scheme" where
  "upd_buf b f s = s\<lparr>bcache := (bcache s)[b := f (bcache s ! b)]\<rparr>"

definition bcache_head :: nat where "bcache_head = NBUF"

section \<open>Disk\<close>

definition disk_sector :: "u32 \<Rightarrow> u64" where
  "disk_sector blockno = ucast (blockno * 2)"

definition get_block :: "(u64 \<Rightarrow> u8 list) \<Rightarrow> u32 \<Rightarrow> block" where
  "get_block d blockno = d (disk_sector blockno) @ d (disk_sector blockno + 1)"

definition put_block :: "u32 \<Rightarrow> block \<Rightarrow> (u64 \<Rightarrow> u8 list) \<Rightarrow> u64 \<Rightarrow> u8 list" where
  "put_block blockno v d = d(disk_sector blockno := take 512 v, disk_sector blockno + 1 := drop 512 v)"

definition virtio_disk_rw :: "nat \<Rightarrow> bool \<Rightarrow> 'z kbio_scheme \<Rightarrow> 'z kbio_scheme" where
  "virtio_disk_rw b write s =
     (if write
      then upd_buf b (\<lambda>x. x\<lparr>b_disk := False\<rparr>)
        (s\<lparr>disk_hist := disk s # disk_hist s,
           disk := put_block (b_blockno (bcache s ! b)) (b_data (bcache s ! b)) (disk s)\<rparr>)
      else upd_buf b (\<lambda>x. x\<lparr>b_data := get_block (disk s) (b_blockno x), b_disk := False\<rparr>) s)"

section \<open>Operations\<close>

definition list_insert_front :: "nat \<Rightarrow> buf list \<Rightarrow> buf list" where
  "list_insert_front b bs =
     (let bs = bs[b := (bs ! b)\<lparr>b_next := b_next (bs ! bcache_head), b_prev := bcache_head\<rparr>];
          n = b_next (bs ! bcache_head);
          bs = bs[n := (bs ! n)\<lparr>b_prev := b\<rparr>]
      in bs[bcache_head := (bs ! bcache_head)\<lparr>b_next := b\<rparr>])"

definition list_unlink :: "nat \<Rightarrow> buf list \<Rightarrow> buf list" where
  "list_unlink b bs =
     (let n = b_next (bs ! b);
          bs = bs[n := (bs ! n)\<lparr>b_prev := b_prev (bs ! b)\<rparr>];
          p = b_prev (bs ! b)
      in bs[p := (bs ! p)\<lparr>b_next := b_next (bs ! b)\<rparr>])"

fun binit_loop :: "nat \<Rightarrow> nat \<Rightarrow> buf list \<Rightarrow> buf list" where
  "binit_loop b 0 bs = bs"
| "binit_loop b (Suc n) bs =
     binit_loop (Suc b) n
       (list_insert_front b (bs[b := (bs ! b)\<lparr>b_lock := initsleeplock (b_lock (bs ! b)) ''buffer''\<rparr>]))"

definition binit :: "'z kbio_scheme \<Rightarrow> 'z kbio_scheme" where
  "binit s =
     s\<lparr>bcache := binit_loop 0 NBUF ((bcache s)[bcache_head :=
         (bcache s ! bcache_head)\<lparr>b_prev := bcache_head, b_next := bcache_head\<rparr>])\<rparr>"

text \<open>
  The two searches of \<open>bget\<close>, forward for the block and backward for an unused buffer:
  \<open>Some b\<close> is the buffer found or the list head, \<open>None\<close> that the list did not lead back to
  the head within \<open>fuel\<close> nodes.
\<close>

fun bfind :: "nat \<Rightarrow> u32 \<Rightarrow> u32 \<Rightarrow> buf list \<Rightarrow> nat \<Rightarrow> nat option" where
  "bfind 0 dev blockno bs b = None"
| "bfind (Suc n) dev blockno bs b =
     (if b = bcache_head then Some b
      else if b_dev (bs ! b) = dev \<and> b_blockno (bs ! b) = blockno then Some b
      else bfind n dev blockno bs (b_next (bs ! b)))"

fun bfree_find :: "nat \<Rightarrow> buf list \<Rightarrow> nat \<Rightarrow> nat option" where
  "bfree_find 0 bs b = None"
| "bfree_find (Suc n) bs b =
     (if b = bcache_head then Some b
      else if b_refcnt (bs ! b) = 0 then Some b
      else bfree_find n bs (b_prev (bs ! b)))"

definition block_buf :: "nat \<Rightarrow> 'z kbio_scheme \<Rightarrow> (nat, 'z kbio_scheme) res" where
  "block_buf b s =
     bnd (acquiresleep (b_lock (bcache s ! b)) s) (\<lambda>lk s.
       Ok b (upd_buf b (\<lambda>x. x\<lparr>b_lock := lk\<rparr>) s))"

definition bget :: "u32 \<Rightarrow> u32 \<Rightarrow> 'z kbio_scheme \<Rightarrow> (nat, 'z kbio_scheme) res" where
  "bget dev blockno s =
     (case bfind (Suc NBUF) dev blockno (bcache s) (b_next (bcache s ! bcache_head)) of
        None \<Rightarrow> Blocked
      | Some b \<Rightarrow>
          if b \<noteq> bcache_head then
            block_buf b (upd_buf b (\<lambda>x. x\<lparr>b_refcnt := b_refcnt x + 1\<rparr>) s)
          else
            (case bfree_find (Suc NBUF) (bcache s) (b_prev (bcache s ! bcache_head)) of
               None \<Rightarrow> Blocked
             | Some b \<Rightarrow>
                 if b \<noteq> bcache_head then
                   block_buf b (upd_buf b (\<lambda>x. x\<lparr>b_dev := dev, b_blockno := blockno,
                       b_valid := False, b_refcnt := 1\<rparr>) s)
                 else Panic ''bget: no buffers''))"

definition bread :: "u32 \<Rightarrow> u32 \<Rightarrow> 'z kbio_scheme \<Rightarrow> (nat, 'z kbio_scheme) res" where
  "bread dev blockno s =
     bnd (bget dev blockno s) (\<lambda>b s.
       Ok b (if \<not> b_valid (bcache s ! b)
             then upd_buf b (\<lambda>x. x\<lparr>b_valid := True\<rparr>) (virtio_disk_rw b False s) else s))"

definition bwrite :: "nat \<Rightarrow> 'z kbio_scheme \<Rightarrow> (unit, 'z kbio_scheme) res" where
  "bwrite b s =
     bnd (holdingsleep (b_lock (bcache s ! b)) s) (\<lambda>held s.
       if \<not> held then Panic ''bwrite'' else Ok () (virtio_disk_rw b True s))"

definition brelse :: "nat \<Rightarrow> 'z kbio_scheme \<Rightarrow> (unit, 'z kbio_scheme) res" where
  "brelse b s =
     bnd (holdingsleep (b_lock (bcache s ! b)) s) (\<lambda>held s.
       if \<not> held then Panic ''brelse''
       else let (lk, s) = releasesleep (ChBufLock b) (b_lock (bcache s ! b)) s;
                s = upd_buf b (\<lambda>x. x\<lparr>b_lock := lk, b_refcnt := b_refcnt x - 1\<rparr>) s
            in Ok () (if b_refcnt (bcache s ! b) = 0
                      then s\<lparr>bcache := list_insert_front b (list_unlink b (bcache s))\<rparr> else s))"

definition bpin :: "nat \<Rightarrow> 'z kbio_scheme \<Rightarrow> 'z kbio_scheme" where
  "bpin b s = upd_buf b (\<lambda>x. x\<lparr>b_refcnt := b_refcnt x + 1\<rparr>) s"

definition bunpin :: "nat \<Rightarrow> 'z kbio_scheme \<Rightarrow> 'z kbio_scheme" where
  "bunpin b s = upd_buf b (\<lambda>x. x\<lparr>b_refcnt := b_refcnt x - 1\<rparr>) s"

text \<open>Access to the data of a buffer the caller holds.\<close>

definition bdata :: "nat \<Rightarrow> 'z kbio_scheme \<Rightarrow> block" where
  "bdata b s = b_data (bcache s ! b)"

definition set_bdata :: "nat \<Rightarrow> block \<Rightarrow> 'z kbio_scheme \<Rightarrow> 'z kbio_scheme" where
  "set_bdata b v s = upd_buf b (\<lambda>x. x\<lparr>b_data := v\<rparr>) s"

end
