(* ===== verification/Log.thy ===== *)
theory Log
  imports Bio
begin

text \<open>
  The redo log (\<^verbatim>\<open>kernel/log.c\<close>), with the superblock of \<^verbatim>\<open>kernel/fs.h\<close> that says where it is.
  An index beyond the arrays of \<^verbatim>\<open>struct logheader\<close>, which only a corrupt header on disk can
  cause, is the value \<open>Panic ''array bounds''\<close>; a caller that has to wait for log space or for
  a commit is \<open>Blocked\<close>.
\<close>

section \<open>Little-endian fields of a block\<close>

fun le_val :: "u8 list \<Rightarrow> nat" where
  "le_val [] = 0"
| "le_val (x # xs) = unat x + 256 * le_val xs"

fun le_bytes :: "nat \<Rightarrow> nat \<Rightarrow> u8 list" where
  "le_bytes 0 v = []"
| "le_bytes (Suc n) v = of_nat v # le_bytes n (v div 256)"

definition put_bytes :: "nat \<Rightarrow> u8 list \<Rightarrow> u8 list \<Rightarrow> u8 list" where
  "put_bytes i bs xs = take i xs @ bs @ drop (i + length bs) xs"

definition get32 :: "nat \<Rightarrow> u8 list \<Rightarrow> u32" where
  "get32 i xs = of_nat (le_val (take 4 (drop i xs)))"

definition put32 :: "nat \<Rightarrow> u32 \<Rightarrow> u8 list \<Rightarrow> u8 list" where
  "put32 i v xs = put_bytes i (le_bytes 4 (unat v)) xs"

definition get16 :: "nat \<Rightarrow> u8 list \<Rightarrow> u16" where
  "get16 i xs = of_nat (le_val (take 2 (drop i xs)))"

definition put16 :: "nat \<Rightarrow> u16 \<Rightarrow> u8 list \<Rightarrow> u8 list" where
  "put16 i v xs = put_bytes i (le_bytes 2 (unat v)) xs"

section \<open>State\<close>

record superblock =
  sb_magic :: u32
  sb_size :: u32
  sb_nblocks :: u32
  sb_ninodes :: u32
  sb_nlog :: u32
  sb_logstart :: u32
  sb_inodestart :: u32
  sb_bmapstart :: u32

text \<open>The fields \<^verbatim>\<open>lh.n\<close> and \<^verbatim>\<open>lh.block\<close> are those of the logheader inside \<^verbatim>\<open>struct log\<close>.\<close>

record klog = kbio +
  log_start :: int
  log_size :: int
  log_outstanding :: int
  log_committing :: bool
  log_dev :: u32
  lh_n :: int
  lh_block :: "u32 list"

definition log_block :: "'z klog_scheme \<Rightarrow> int \<Rightarrow> u32" where
  "log_block s tail = word_of_int (log_start s + tail + 1)"

section \<open>Operations\<close>

fun install_trans_loop :: "bool \<Rightarrow> nat \<Rightarrow> nat \<Rightarrow> 'z klog_scheme \<Rightarrow> (unit, 'z klog_scheme) res" where
  "install_trans_loop recovering tail 0 s = Ok () s"
| "install_trans_loop recovering tail (Suc k) s =
     bnd (bread (log_dev s) (log_block s (int tail)) s) (\<lambda>lbuf s.
     bnd (bread (log_dev s) (lh_block s ! tail) s) (\<lambda>dbuf s.
     let s = set_bdata dbuf (bdata lbuf s) s in
     bnd (bwrite dbuf s) (\<lambda>_ s.
     let s = (if \<not> recovering then bunpin dbuf s else s) in
     bnd (brelse lbuf s) (\<lambda>_ s.
     bnd (brelse dbuf s) (\<lambda>_ s.
     install_trans_loop recovering (Suc tail) k s)))))"

definition install_trans :: "bool \<Rightarrow> 'z klog_scheme \<Rightarrow> (unit, 'z klog_scheme) res" where
  "install_trans recovering s = install_trans_loop recovering 0 (nat (lh_n s)) s"

definition header_n :: "block \<Rightarrow> int" where
  "header_n v = sint (get32 0 v)"

definition header_block :: "nat \<Rightarrow> block \<Rightarrow> u32" where
  "header_block i v = get32 (4 + 4 * i) v"

definition read_head :: "'z klog_scheme \<Rightarrow> (unit, 'z klog_scheme) res" where
  "read_head s =
     bnd (bread (log_dev s) (word_of_int (log_start s)) s) (\<lambda>b s.
       let n = header_n (bdata b s)
       in if n > int LOGSIZE then Panic ''array bounds''
          else let s = s\<lparr>lh_n := n, lh_block := mapi (\<lambda>i old.
                      if int i < n then header_block i (bdata b s) else old) (lh_block s)\<rparr>
               in brelse b s)"

fun header_fill :: "nat \<Rightarrow> u32 list \<Rightarrow> block \<Rightarrow> block" where
  "header_fill i [] v = v"
| "header_fill i (x # xs) v = header_fill (Suc i) xs (put32 (4 + 4 * i) x v)"

definition write_head :: "'z klog_scheme \<Rightarrow> (unit, 'z klog_scheme) res" where
  "write_head s =
     bnd (bread (log_dev s) (word_of_int (log_start s)) s) (\<lambda>b s.
       let s = set_bdata b (header_fill 0 (take (nat (lh_n s)) (lh_block s))
                 (put32 0 (word_of_int (lh_n s)) (bdata b s))) s
       in bnd (bwrite b s) (\<lambda>_ s. brelse b s))"

definition recover_from_log :: "'z klog_scheme \<Rightarrow> (unit, 'z klog_scheme) res" where
  "recover_from_log s =
     bnd (read_head s) (\<lambda>_ s.
     bnd (install_trans True s) (\<lambda>_ s.
     write_head (s\<lparr>lh_n := 0\<rparr>)))"

text \<open>The size check at the start of \<open>initlog\<close> compares constants: 124 bytes fit in a block.\<close>

definition initlog :: "u32 \<Rightarrow> superblock \<Rightarrow> 'z klog_scheme \<Rightarrow> (unit, 'z klog_scheme) res" where
  "initlog dev sb s =
     (if 4 + 4 * LOGSIZE \<ge> BSIZE then Panic ''initlog: too big logheader''
      else recover_from_log (s\<lparr>log_start := sint (sb_logstart sb), log_size := sint (sb_nlog sb),
        log_dev := dev\<rparr>))"

definition begin_op :: "'z klog_scheme \<Rightarrow> (unit, 'z klog_scheme) res" where
  "begin_op s =
     (if log_committing s then Blocked
      else if lh_n s + (log_outstanding s + 1) * int MAXOPBLOCKS > int LOGSIZE then Blocked
      else Ok () (s\<lparr>log_outstanding := log_outstanding s + 1\<rparr>))"

fun write_log_loop :: "nat \<Rightarrow> nat \<Rightarrow> 'z klog_scheme \<Rightarrow> (unit, 'z klog_scheme) res" where
  "write_log_loop tail 0 s = Ok () s"
| "write_log_loop tail (Suc k) s =
     bnd (bread (log_dev s) (log_block s (int tail)) s) (\<lambda>to s.
     bnd (bread (log_dev s) (lh_block s ! tail) s) (\<lambda>from s.
     let s = set_bdata to (bdata from s) s in
     bnd (bwrite to s) (\<lambda>_ s.
     bnd (brelse from s) (\<lambda>_ s.
     bnd (brelse to s) (\<lambda>_ s.
     write_log_loop (Suc tail) k s)))))"

definition write_log :: "'z klog_scheme \<Rightarrow> (unit, 'z klog_scheme) res" where
  "write_log s = write_log_loop 0 (nat (lh_n s)) s"

definition commit :: "'z klog_scheme \<Rightarrow> (unit, 'z klog_scheme) res" where
  "commit s =
     (if lh_n s > 0 then
        bnd (write_log s) (\<lambda>_ s.
        bnd (write_head s) (\<lambda>_ s.
        bnd (install_trans False s) (\<lambda>_ s.
        write_head (s\<lparr>lh_n := 0\<rparr>))))
      else Ok () s)"

definition end_op :: "'z klog_scheme \<Rightarrow> (unit, 'z klog_scheme) res" where
  "end_op s =
     (let s = s\<lparr>log_outstanding := log_outstanding s - 1\<rparr> in
      if log_committing s then Panic ''log.committing''
      else if log_outstanding s = 0 then
        bnd (commit (s\<lparr>log_committing := True\<rparr>)) (\<lambda>_ s.
          Ok () (wakeup ChLog (s\<lparr>log_committing := False\<rparr>)))
      else Ok () (wakeup ChLog s))"

definition log_write :: "nat \<Rightarrow> 'z klog_scheme \<Rightarrow> (unit, 'z klog_scheme) res" where
  "log_write b s =
     (if lh_n s \<ge> int LOGSIZE \<or> lh_n s \<ge> log_size s - 1 then Panic ''too big a transaction''
      else if log_outstanding s < 1 then Panic ''log_write outside of trans''
      else let blockno = b_blockno (bcache s ! b);
               i = (case find_idx (\<lambda>x. x = blockno) (take (nat (lh_n s)) (lh_block s)) of
                      Some i \<Rightarrow> i | None \<Rightarrow> nat (lh_n s));
               s = s\<lparr>lh_block := (lh_block s)[i := blockno]\<rparr>
           in Ok () (if int i = lh_n s then (bpin b s)\<lparr>lh_n := lh_n s + 1\<rparr> else s))"

end
