(* ===== verification/Bcache.thy ===== *)
theory Bcache
  imports Bio
begin

text \<open>
  Correctness of the buffer cache. The first part shows that the links of \<^verbatim>\<open>kernel/bio.c\<close>
  represent a list of the buffers, most recently used first, and what the searches of \<open>bget\<close>
  find in it. The second part abstracts the cache to the logical contents of the disk:
  \<open>lv s d k\<close> is what reading block \<open>k\<close> of device \<open>d\<close> yields. It serves the redo log as an
  interface to \<open>bread\<close>, \<open>bwrite\<close> and \<open>brelse\<close>.
\<close>

section \<open>The list of buffers\<close>

text \<open>Consecutive elements of a list.\<close>

definition pairs :: "'a list \<Rightarrow> ('a \<times> 'a) list" where
  "pairs xs = zip xs (tl xs)"

lemma pairs_simps [simp]:
  "pairs [] = []" "pairs [x] = []" "pairs (x # y # xs) = (x, y) # pairs (y # xs)"
  by (simp_all add: pairs_def)

lemma pairs_append:
  "xs \<noteq> [] \<Longrightarrow> ys \<noteq> [] \<Longrightarrow> pairs (xs @ ys) = pairs xs @ (last xs, hd ys) # pairs ys"
proof (induction xs rule: induct_list012)
  case (2 x)
  then show ?case by (cases ys) auto
qed auto

lemma pairs_in: "(a, c) \<in> set (pairs xs) \<Longrightarrow> a \<in> set (butlast xs) \<and> c \<in> set (tl xs)"
  by (induction xs rule: induct_list012) auto

text \<open>
  \<open>linked bs xs\<close>: the links of the array \<open>bs\<close> lead from the list head through the buffers \<open>xs\<close>
  back to the head, in both directions.
\<close>

definition linked :: "buf list \<Rightarrow> nat list \<Rightarrow> bool" where
  "linked bs xs \<longleftrightarrow> (\<forall>(a, c) \<in> set (pairs (bcache_head # xs @ [bcache_head])).
     b_next (bs ! a) = c \<and> b_prev (bs ! c) = a)"

definition bring :: "buf list \<Rightarrow> nat list \<Rightarrow> bool" where
  "bring bs xs \<longleftrightarrow> length bs = Suc NBUF \<and> distinct xs \<and> set xs \<subseteq> {..<NBUF} \<and> linked bs xs"

lemma linkedD:
  "linked bs xs \<Longrightarrow> (a, c) \<in> set (pairs (bcache_head # xs @ [bcache_head])) \<Longrightarrow>
   b_next (bs ! a) = c \<and> b_prev (bs ! c) = a"
  by (auto simp: linked_def)

lemma bring_mem: "bring bs xs \<Longrightarrow> x \<in> set xs \<Longrightarrow> x < NBUF \<and> x < length bs \<and> x \<noteq> bcache_head"
  by (auto simp: bring_def bcache_head_def)

text \<open>The two list updates, link by link; no other field of a buffer changes.\<close>

lemma list_insert_front_links:
  assumes "bcache_head < length bs" "b < length bs" "b \<noteq> bcache_head" "b_next (bs ! bcache_head) < length bs"
    "b_next (bs ! bcache_head) \<noteq> b" "a < length bs"
  shows "b_next (list_insert_front b bs ! a) =
      (if a = bcache_head then b else if a = b then b_next (bs ! bcache_head) else b_next (bs ! a))"
    "b_prev (list_insert_front b bs ! a) =
      (if a = b_next (bs ! bcache_head) then b else if a = b then bcache_head else b_prev (bs ! a))"
  using assms by (auto simp: list_insert_front_def Let_def nth_list_update)

lemma list_unlink_links:
  assumes "b < length bs" "b_next (bs ! b) < length bs" "b_prev (bs ! b) < length bs" "b_next (bs ! b) \<noteq> b"
    "b_prev (bs ! b) \<noteq> b" "a < length bs"
  shows "b_next (list_unlink b bs ! a) = (if a = b_prev (bs ! b) then b_next (bs ! b) else b_next (bs ! a))"
    "b_prev (list_unlink b bs ! a) = (if a = b_next (bs ! b) then b_prev (bs ! b) else b_prev (bs ! a))"
  using assms by (auto simp: list_unlink_def Let_def nth_list_update)

lemma length_list_ops [simp]:
  "length (list_insert_front b bs) = length bs" "length (list_unlink b bs) = length bs"
  by (simp_all add: list_insert_front_def list_unlink_def Let_def)

text \<open>A buffer without its links.\<close>

definition unlinked :: "buf \<Rightarrow> buf" where
  "unlinked x = x\<lparr>b_prev := 0, b_next := 0\<rparr>"

lemma unlinked_upd [simp]:
  "unlinked (x\<lparr>b_prev := p\<rparr>) = unlinked x" "unlinked (x\<lparr>b_next := p\<rparr>) = unlinked x"
  by (simp_all add: unlinked_def)

lemma unlinked_fields:
  "unlinked x = unlinked y \<longleftrightarrow> b_valid x = b_valid y \<and> b_disk x = b_disk y \<and> b_dev x = b_dev y
     \<and> b_blockno x = b_blockno y \<and> b_lock x = b_lock y \<and> b_refcnt x = b_refcnt y \<and> b_data x = b_data y"
  by (cases x; cases y) (auto simp: unlinked_def)

lemma map_unlinked_upd: "i < length bs \<Longrightarrow> unlinked y = unlinked (bs ! i) \<Longrightarrow> map unlinked (bs[i := y]) = map unlinked bs"
  by (metis list_update_id map_update)

lemma map_unlinked_upd': "unlinked y = unlinked (bs ! i) \<Longrightarrow> map unlinked (bs[i := y]) = map unlinked bs"
  by (cases "i < length bs") (simp_all add: map_unlinked_upd list_update_beyond)

lemma list_ops_unlinked [simp]:
  "map unlinked (list_insert_front b bs) = map unlinked bs" "map unlinked (list_unlink b bs) = map unlinked bs"
  by (simp_all add: list_insert_front_def list_unlink_def Let_def map_unlinked_upd')

lemma list_insert_front_ring:
  assumes r: "bring bs xs" and b: "b < NBUF" "b \<notin> set xs"
  shows "bring (list_insert_front b bs) (b # xs)"
proof -
  let ?h = bcache_head and ?ys = "xs @ [bcache_head]"
  define n where "n = hd ?ys"
  have len: "length bs = Suc NBUF" "?h < length bs" "b < length bs" "b \<noteq> ?h" "?h \<notin> set xs"
    using r b by (auto simp: bring_def bcache_head_def)
  have p: "pairs (?h # ?ys) = (?h, n) # pairs ?ys" unfolding n_def by (cases xs) simp_all
  have nin: "n \<in> set ?ys" by (simp add: n_def hd_append)
  have n: "b_next (bs ! ?h) = n" "n < length bs" "n \<noteq> b"
    using linkedD [of bs xs ?h n] r p len b nin by (auto simp: bring_def)
  note L = list_insert_front_links [OF len(2-4), unfolded n(1), OF n(2,3)]
  have "b_next (list_insert_front b bs ! a) = c \<and> b_prev (list_insert_front b bs ! c) = a"
    if ac: "(a, c) \<in> set (pairs (?h # (b # xs) @ [?h]))" for a c
  proof -
    have "(a, c) = (?h, b) \<or> (a, c) = (b, n) \<or> (a, c) \<in> set (pairs ?ys)"
      using ac unfolding n_def by (cases xs) auto
    moreover have ?thesis if old: "(a, c) \<in> set (pairs ?ys)"
    proof -
      have m: "a \<in> set xs" "c \<in> set (tl ?ys)" using pairs_in [OF old] by simp_all
      have "distinct ?ys" using r len by (simp add: bring_def)
      then have "c \<noteq> n" using m(2) unfolding n_def by (cases xs) auto
      moreover have "c \<in> set ?ys" using m(2) by (cases xs) auto
      then have "c \<noteq> b" "c < length bs" using bring_mem [OF r] len b by auto
      moreover have "a \<noteq> ?h" "a \<noteq> b" "a < length bs" using bring_mem [OF r m(1)] b m(1) by auto
      moreover have "b_next (bs ! a) = c" "b_prev (bs ! c) = a"
        using linkedD [of bs xs a c] r p old by (simp_all add: bring_def)
      ultimately show ?thesis using L by simp
    qed
    ultimately show ?thesis using L len n b by auto
  qed
  then show ?thesis using r b by (auto simp: bring_def linked_def)
qed

lemma list_unlink_ring:
  assumes r: "bring bs (us @ b # vs)"
  shows "bring (list_unlink b bs) (us @ vs)"
proof -
  let ?h = bcache_head and ?A = "bcache_head # us" and ?B = "vs @ [bcache_head]"
  define p n where "p = last ?A" and "n = hd ?B"
  have d: "distinct (us @ b # vs)" "length bs = Suc NBUF" "linked bs (us @ b # vs)" "?h < length bs"
    "?h \<notin> set (us @ b # vs)"
    using r by (auto simp: bring_def bcache_head_def)
  have old: "pairs (?h # (us @ b # vs) @ [?h]) = pairs ?A @ (p, b) # (b, n) # pairs ?B"
    using pairs_append [of ?A "b # ?B"] pairs_append [of "[b]" ?B] by (simp add: p_def n_def)
  have new: "pairs (?h # (us @ vs) @ [?h]) = pairs ?A @ (p, n) # pairs ?B"
    using pairs_append [of ?A ?B] by (simp add: p_def n_def)
  have pn: "p \<in> set ?A" "n \<in> set ?B" by (simp_all add: p_def n_def hd_append)
  have L: "b_next (bs ! p) = b" "b_prev (bs ! b) = p" "b_next (bs ! b) = n" "b_prev (bs ! n) = b"
    using linkedD [OF d(3)] old by auto
  have ne: "p \<noteq> b" "n \<noteq> b" "p < length bs" "n < length bs" "b < length bs"
    using pn d bring_mem [OF r] by auto
  note U = list_unlink_links [of b bs, unfolded L, OF ne(5,4,3,2,1)]
  have "b_next (list_unlink b bs ! a) = c \<and> b_prev (list_unlink b bs ! c) = a"
    if ac: "(a, c) \<in> set (pairs (?h # (us @ vs) @ [?h]))" for a c
  proof -
    have "(a, c) = (p, n) \<or> (a, c) \<in> set (pairs ?A) \<or> (a, c) \<in> set (pairs ?B)" using ac new by auto
    moreover have ?thesis if "(a, c) \<in> set (pairs ?A) \<or> (a, c) \<in> set (pairs ?B)"
    proof -
      have "(a \<in> set (butlast ?A) \<and> c \<in> set us) \<or> (a \<in> set vs \<and> c \<in> set (tl ?B))"
        using that pairs_in [of a c ?A] pairs_in [of a c ?B] by auto
      moreover have "p \<notin> set (butlast ?A)"
        using d append_butlast_last_id [of ?A] distinct_append [of "butlast ?A" "[p]"] by (auto simp: p_def)
      moreover have "n \<notin> set (tl ?B)" using d by (cases vs) (auto simp: n_def)
      moreover have "set (butlast ?A) \<subseteq> set ?A" "set (tl ?B) \<subseteq> set ?B"
        using in_set_butlastD [of _ ?A] by (blast, cases vs, auto)
      ultimately have "a \<noteq> p" "c \<noteq> n" "a \<in> set (?A @ ?B)" "c \<in> set (?A @ ?B)"
        using pn d by auto
      then have "a \<noteq> p" "c \<noteq> n" "a < length bs" "c < length bs"
        using bring_mem [OF r] d by auto
      moreover have "b_next (bs ! a) = c" "b_prev (bs ! c) = a"
        using linkedD [OF d(3), of a c] old that by auto
      ultimately show ?thesis using U by simp
    qed
    ultimately show ?thesis using U ne by auto
  qed
  then show ?thesis using r by (auto simp: bring_def linked_def)
qed

text \<open>The searches of \<open>bget\<close> walk the whole list.\<close>

lemma pair_next: "(z, hd (zs @ [bcache_head])) \<in> set (pairs (bcache_head # (us @ z # zs) @ [bcache_head]))"
  using pairs_append [of "bcache_head # us @ [z]" "zs @ [bcache_head]"] by simp

lemma pair_prev: "(last (bcache_head # us), z) \<in> set (pairs (bcache_head # (us @ z # zs) @ [bcache_head]))"
  using pairs_append [of "bcache_head # us" "z # zs @ [bcache_head]"] by simp

lemma bfind_list:
  assumes "linked bs xs" "xs = us @ zs" "bcache_head \<notin> set xs"
  shows "bfind (Suc (length zs)) dev blockno bs (hd (zs @ [bcache_head])) =
    Some (case find (\<lambda>b. b_dev (bs ! b) = dev \<and> b_blockno (bs ! b) = blockno) zs of
       None \<Rightarrow> bcache_head | Some b \<Rightarrow> b)"
  using assms(2)
proof (induction zs arbitrary: us)
  case (Cons z zs)
  have "b_next (bs ! z) = hd (zs @ [bcache_head])"
    using linkedD [OF assms(1), of z "hd (zs @ [bcache_head])"] pair_next [of z zs us] Cons.prems by simp
  moreover have "z \<noteq> bcache_head" using assms(3) Cons.prems by auto
  ultimately show ?case using Cons.IH [of "us @ [z]"] Cons.prems by simp
qed simp

lemma bfree_find_list:
  assumes "linked bs xs" "xs = zs @ vs" "bcache_head \<notin> set xs"
  shows "bfree_find (Suc (length zs)) bs (last (bcache_head # zs)) =
    Some (case find (\<lambda>b. b_refcnt (bs ! b) = 0) (rev zs) of None \<Rightarrow> bcache_head | Some b \<Rightarrow> b)"
  using assms(2)
proof (induction zs arbitrary: vs rule: rev_induct)
  case (snoc z zs)
  have "b_prev (bs ! z) = last (bcache_head # zs)"
    using linkedD [OF assms(1), of "last (bcache_head # zs)" z] pair_prev [of zs z vs] snoc.prems by simp
  moreover have "z \<noteq> bcache_head" using assms(3) snoc.prems by auto
  ultimately show ?case using snoc.IH [of "z # vs"] snoc.prems by simp
qed simp

text \<open>\<open>recency bs xs\<close>: the list holds all buffers.\<close>

definition recency :: "buf list \<Rightarrow> nat list \<Rightarrow> bool" where
  "recency bs xs \<longleftrightarrow> bring bs xs \<and> set xs = {..<NBUF}"

lemma recency_length: "recency bs xs \<Longrightarrow> length xs = NBUF \<and> length bs = Suc NBUF"
  using distinct_card [of xs] by (auto simp: recency_def bring_def)

lemma bfind_recency:
  assumes "recency bs xs"
  shows "bfind (Suc NBUF) dev blockno bs (b_next (bs ! bcache_head)) =
    Some (case find (\<lambda>b. b_dev (bs ! b) = dev \<and> b_blockno (bs ! b) = blockno) xs of
       None \<Rightarrow> bcache_head | Some b \<Rightarrow> b)"
proof -
  have l: "linked bs xs" "bcache_head \<notin> set xs" using assms by (auto simp: recency_def bring_def bcache_head_def)
  have "(bcache_head, hd (xs @ [bcache_head])) \<in> set (pairs (bcache_head # xs @ [bcache_head]))"
    by (cases xs) simp_all
  then have "b_next (bs ! bcache_head) = hd (xs @ [bcache_head])" using linkedD [OF l(1)] by blast
  with bfind_list [OF l(1) _ l(2), of "[]" xs] recency_length [OF assms] show ?thesis by simp
qed

lemma bfree_find_recency:
  assumes "recency bs xs"
  shows "bfree_find (Suc NBUF) bs (b_prev (bs ! bcache_head)) =
    Some (case find (\<lambda>b. b_refcnt (bs ! b) = 0) (rev xs) of None \<Rightarrow> bcache_head | Some b \<Rightarrow> b)"
proof -
  have l: "linked bs xs" "bcache_head \<notin> set xs" using assms by (auto simp: recency_def bring_def bcache_head_def)
  have "(last (bcache_head # xs), bcache_head) \<in> set (pairs (bcache_head # xs @ [bcache_head]))"
    using pairs_append [of "bcache_head # xs" "[bcache_head]"] by simp
  then have "b_prev (bs ! bcache_head) = last (bcache_head # xs)" using linkedD [OF l(1)] by blast
  with bfree_find_list [OF l(1) _ l(2), of xs "[]"] recency_length [OF assms] show ?thesis by simp
qed

lemma recency_touch:
  assumes "recency bs xs" "b < NBUF"
  shows "recency (list_insert_front b (list_unlink b bs)) (b # remove1 b xs)"
proof -
  have "b \<in> set xs" using assms by (simp add: recency_def)
  then obtain us vs where xs: "xs = us @ b # vs" "b \<notin> set us" by (meson split_list_first)
  with assms have r: "bring (list_unlink b bs) (us @ vs)" by (intro list_unlink_ring) (simp add: recency_def)
  have "b \<notin> set (us @ vs)" "remove1 b xs = us @ vs"
    using assms(1) xs by (auto simp: recency_def bring_def remove1_append)
  with list_insert_front_ring [OF r assms(2)] assms xs show ?thesis by (auto simp: recency_def)
qed

lemma update_keeps: "f x = f (bs ! b) \<Longrightarrow> f (bs[b := x] ! i) = f (bs ! i)"
  by (cases "b < length bs"; cases "i = b") (simp_all add: list_update_beyond)

lemma binit_loop_ring:
  assumes "bring bs xs" "set xs = {..<b}" "b + n \<le> NBUF"
  shows "bring (binit_loop b n bs) (rev [b..<b + n] @ xs)"
  using assms
proof (induction n arbitrary: b bs xs)
  case (Suc n)
  let ?bs = "bs[b := (bs ! b)\<lparr>b_lock := initsleeplock (b_lock (bs ! b)) ''buffer''\<rparr>]"
  have "b_next (?bs ! i) = b_next (bs ! i)" "b_prev (?bs ! i) = b_prev (bs ! i)" for i
    by (simp_all add: update_keeps [where f = b_next] update_keeps [where f = b_prev])
  then have r: "bring ?bs xs" using Suc.prems(1) by (auto simp: bring_def linked_def)
  have f: "bring (list_insert_front b ?bs) (b # xs)"
    using Suc.prems by (intro list_insert_front_ring [OF r]) auto
  have "bring (binit_loop (Suc b) n (list_insert_front b ?bs)) (rev [Suc b..<Suc b + n] @ b # xs)"
    using Suc.prems(2,3) by (intro Suc.IH [OF f]) (simp_all add: lessThan_Suc)
  moreover have "rev [b..<b + Suc n] @ xs = rev [Suc b..<Suc b + n] @ b # xs"
    by (simp add: upt_conv_Cons del: upt_Suc)
  ultimately show ?case by simp
qed simp

lemma binit_recency:
  assumes "length (bcache s) = Suc NBUF"
  shows "recency (bcache (binit s)) (rev [0..<NBUF])"
proof -
  let ?bs = "(bcache s)[bcache_head := (bcache s ! bcache_head)\<lparr>b_prev := bcache_head, b_next := bcache_head\<rparr>]"
  have "bring ?bs []" using assms by (simp add: bring_def linked_def bcache_head_def)
  from binit_loop_ring [OF this, of 0 NBUF] show ?thesis
    by (simp add: recency_def binit_def atLeast0LessThan)
qed

end
