(* ===== verification/Blockstore.thy ===== *)
theory Blockstore
  imports Prelude
begin

text \<open>
  The interface between the buffer cache and the layers above it, as a locale: what
  \<open>bread\<close>, \<open>bwrite\<close>, \<open>brelse\<close>, \<open>bpin\<close> and \<open>bunpin\<close> of \<^verbatim>\<open>kernel/bio.c\<close> promise in terms of the logical
  contents (\<open>view\<close>) and the disk image (\<open>img\<close>). The sequences of calls that \<^verbatim>\<open>kernel/log.c\<close>
  makes are verified here once, from these laws.
\<close>

locale block_store =
  fixes inv :: "u32 set \<Rightarrow> u32 set \<Rightarrow> 's \<Rightarrow> bool"
    and at :: "'s \<Rightarrow> u32 \<Rightarrow> nat \<Rightarrow> bool"
    and view img :: "'s \<Rightarrow> u32 \<Rightarrow> u8 list"
    and hist :: "'s \<Rightarrow> (u32 \<Rightarrow> u8 list) list"
    and frame :: "'s \<Rightarrow> 's \<Rightarrow> bool"
    and lim :: u32 and cap bsize :: nat
    and rd :: "u32 \<Rightarrow> 's \<Rightarrow> (nat, 's) res"
    and wr rel :: "nat \<Rightarrow> 's \<Rightarrow> (unit, 's) res"
    and dat :: "nat \<Rightarrow> 's \<Rightarrow> u8 list"
    and set_dat :: "nat \<Rightarrow> u8 list \<Rightarrow> 's \<Rightarrow> 's"
    and pin unpin :: "nat \<Rightarrow> 's \<Rightarrow> 's"
  assumes frame_refl: "frame s s"
    and frame_trans: "frame s t \<Longrightarrow> frame t u \<Longrightarrow> frame s u"
    and rd_law: "inv P H s \<Longrightarrow> k < lim \<Longrightarrow> k \<notin> H \<Longrightarrow> card (insert k (P \<union> H)) \<le> cap \<Longrightarrow>
      \<exists>b t. rd k s = Ok b t \<and> inv P (insert k H) t \<and> at t k b \<and> view t = view s \<and> img t = img s
        \<and> hist t = hist s \<and> frame s t \<and> (\<forall>j \<in> P \<union> H. \<forall>i. at s j i \<longrightarrow> at t j i)"
    and dat_law: "inv P H s \<Longrightarrow> at s k b \<Longrightarrow> dat b s = view s k"
    and length_law: "inv P H s \<Longrightarrow> k < lim \<Longrightarrow> length (view s k) = bsize"
    and clean_law: "inv P H s \<Longrightarrow> k < lim \<Longrightarrow> k \<notin> P \<union> H \<Longrightarrow> view s k = img s k"
    and set_law: "inv P H s \<Longrightarrow> at s k b \<Longrightarrow> k \<in> H \<Longrightarrow> length v = bsize \<Longrightarrow>
      inv P H (set_dat b v s) \<and> view (set_dat b v s) = (view s)(k := v) \<and> at (set_dat b v s) = at s
        \<and> img (set_dat b v s) = img s \<and> hist (set_dat b v s) = hist s \<and> frame s (set_dat b v s)"
    and wr_law: "inv P H s \<Longrightarrow> at s k b \<Longrightarrow> k \<in> H \<Longrightarrow>
      \<exists>t. wr b s = Ok () t \<and> inv P H t \<and> view t = view s \<and> at t = at s
        \<and> img t = (img s)(k := view s k) \<and> hist t = img s # hist s \<and> frame s t"
    and rel_law: "inv P H s \<Longrightarrow> at s k b \<Longrightarrow> k \<in> H \<Longrightarrow> k \<in> P \<or> view s k = img s k \<Longrightarrow>
      \<exists>t. rel b s = Ok () t \<and> inv P (H - {k}) t \<and> view t = view s \<and> at t = at s
        \<and> img t = img s \<and> hist t = hist s \<and> frame s t"
    and pin_law: "inv P H s \<Longrightarrow> at s k b \<Longrightarrow> k \<in> H \<Longrightarrow> k \<notin> P \<Longrightarrow>
      inv (insert k P) H (pin b s) \<and> view (pin b s) = view s \<and> at (pin b s) = at s
        \<and> img (pin b s) = img s \<and> hist (pin b s) = hist s \<and> frame s (pin b s)"
    and unpin_law: "inv P H s \<Longrightarrow> at s k b \<Longrightarrow> k \<in> H \<Longrightarrow> k \<in> P \<Longrightarrow>
      inv (P - {k}) H (unpin b s) \<and> view (unpin b s) = view s \<and> at (unpin b s) = at s
        \<and> img (unpin b s) = img s \<and> hist (unpin b s) = hist s \<and> frame s (unpin b s)"
begin

text \<open>Reading a block: the caller has a copy and nothing else happens.\<close>

lemma read_block:
  assumes s: "inv P H s" "k < lim" "k \<notin> P \<union> H" "card (insert k (P \<union> H)) \<le> cap"
  shows "\<exists>t. bnd (rd k s) (\<lambda>b s. bnd (rel b s) (\<lambda>_ u. Ok (dat b s) u)) = Ok (view s k) t
    \<and> inv P H t \<and> view t = view s \<and> img t = img s \<and> hist t = hist s \<and> frame s t"
proof -
  have k: "k \<notin> H" using s(3) by blast
  obtain b t1 where 1: "rd k s = Ok b t1" "inv P (insert k H) t1" "at t1 k b" "view t1 = view s" "img t1 = img s"
    "hist t1 = hist s" "frame s t1" using rd_law [OF s(1,2) k s(4)] by blast
  have "view t1 k = img t1 k" using clean_law [OF s(1-3)] 1 by simp
  then obtain t2 where 2: "rel b t1 = Ok () t2" "inv P H t2" "view t2 = view s" "img t2 = img s"
    "hist t2 = hist s" "frame t1 t2" using rel_law [OF 1(2,3)] 1 k by auto
  show ?thesis using 1 2 frame_trans [OF 1(7) 2(6)] dat_law [OF 1(2,3)] by auto
qed

text \<open>Read, modify, write through and release: \<open>write_head\<close>.\<close>

lemma update_block:
  assumes s: "inv P {} s" "k < lim" "k \<notin> P" "card (insert k P) \<le> cap"
    and f: "\<And>v. length v = bsize \<Longrightarrow> length (f v) = bsize"
  shows "\<exists>t. bnd (rd k s) (\<lambda>b s. bnd (wr b (set_dat b (f (dat b s)) s)) (\<lambda>_ s. rel b s)) = Ok () t
    \<and> inv P {} t \<and> view t = (view s)(k := f (view s k)) \<and> img t = (img s)(k := f (view s k))
    \<and> hist t = img s # hist s \<and> frame s t"
proof -
  obtain b t1 where 1: "rd k s = Ok b t1" "inv P {k} t1" "at t1 k b" "view t1 = view s" "img t1 = img s"
    "hist t1 = hist s" "frame s t1" using rd_law [OF s(1,2)] s(4) by auto
  define v where "v = f (view s k)"
  have "dat b t1 = view s k" using dat_law [OF 1(2,3)] 1 by simp
  then have d: "f (dat b t1) = v" by (simp add: v_def)
  have v: "length v = bsize" using f length_law [OF s(1,2)] by (simp add: v_def)
  define t2 where "t2 = set_dat b v t1"
  have 2: "inv P {k} t2" "at t2 k b" "view t2 = (view s)(k := v)" "img t2 = img s" "hist t2 = hist s" "frame t1 t2"
    using set_law [OF 1(2,3) _ v] 1 unfolding t2_def by auto
  obtain t3 where 3: "wr b t2 = Ok () t3" "inv P {k} t3" "at t3 k b" "view t3 = (view s)(k := v)"
    "img t3 = (img s)(k := v)" "hist t3 = img s # hist s" "frame t2 t3"
    using wr_law [OF 2(1,2)] 2 by auto
  obtain t4 where 4: "rel b t3 = Ok () t4" "inv P {} t4" "view t4 = (view s)(k := v)"
    "img t4 = (img s)(k := v)" "hist t4 = img s # hist s" "frame t3 t4"
    using rel_law [OF 3(2,3)] 3 by auto
  have "frame s t4" using 1 2 3 4 frame_trans by metis
  then show ?thesis using 1(1) 3(1) 4 d unfolding t2_def v_def [symmetric] by auto
qed


text \<open>The two buffers of a copy.\<close>

lemma read_two:
  assumes s: "inv P {} s" "k < lim" "j < lim" "j \<noteq> k" "card (insert j (insert k P)) \<le> cap"
  shows "\<exists>a t b u. rd k s = Ok a t \<and> rd j t = Ok b u \<and> inv P {j, k} u \<and> at u k a \<and> at u j b
    \<and> dat b u = view s j \<and> dat a u = view s k
    \<and> view u = view s \<and> img u = img s \<and> hist u = hist s \<and> frame s u"
proof -
  have "card (insert k P) \<le> cap" using le_trans [OF card_insert_le s(5)] .
  with rd_law [OF s(1,2)] obtain a t where 1: "rd k s = Ok a t" "inv P {k} t" "at t k a" "view t = view s"
    "img t = img s" "hist t = hist s" "frame s t" by auto
  from rd_law [OF 1(2) s(3)] s(4,5) obtain b u where 2: "rd j t = Ok b u" "inv P {j, k} u" "at u j b"
    "view u = view t" "img u = img t" "hist u = hist t" "frame t u" "\<forall>j \<in> P \<union> {k}. \<forall>i. at t j i \<longrightarrow> at u j i"
    by auto
  have "at u k a" using 1 2 by simp
  with 1 2 dat_law [OF 2(2)] frame_trans [OF 1(7) 2(7)] show ?thesis by auto
qed

text \<open>Copy a pinned block to a log block and write that: one round of \<open>write_log\<close>.\<close>

lemma log_one_block:
  assumes s: "inv P {} s" "lb < lim" "k < lim" "k \<in> P" "lb \<notin> P" "card (insert lb P) \<le> cap"
  shows "\<exists>t. bnd (rd lb s) (\<lambda>a s. bnd (rd k s) (\<lambda>b s. bnd (wr a (set_dat a (dat b s) s)) (\<lambda>_ s.
      bnd (rel b s) (\<lambda>_ s. rel a s)))) = Ok () t
    \<and> inv P {} t \<and> view t = (view s)(lb := view s k) \<and> img t = (img s)(lb := view s k)
    \<and> hist t = img s # hist s \<and> frame s t"
proof -
  have ne: "k \<noteq> lb" using s(4,5) by blast
  have "insert k (insert lb P) = insert lb P" using s(4) by blast
  with read_two [OF s(1-3) ne] s(6) obtain a t1 b u where
    1: "rd lb s = Ok a t1" "rd k t1 = Ok b u" "inv P {k, lb} u" "at u lb a" "at u k b" "dat b u = view s k"
      "view u = view s" "img u = img s" "hist u = hist s" "frame s u" by metis
  define v where "v = view s k"
  define t2 where "t2 = set_dat a v u"
  have v: "length v = bsize" using length_law [OF s(1,3)] by (simp add: v_def)
  have 2: "inv P {k, lb} t2" "at t2 = at u" "view t2 = (view s)(lb := v)" "img t2 = img s" "hist t2 = hist s"
    "frame u t2" using set_law [OF 1(3,4) _ v] 1 unfolding t2_def by auto
  obtain t3 where 3: "wr a t2 = Ok () t3" "inv P {k, lb} t3" "at t3 = at u" "view t3 = (view s)(lb := v)"
    "img t3 = (img s)(lb := v)" "hist t3 = img s # hist s" "frame t2 t3"
    using wr_law [OF 2(1), of lb a] 1(4) 2 by auto
  have "{k, lb} - {k} = {lb}" using ne by auto
  then obtain t4 where 4: "rel b t3 = Ok () t4" "inv P {lb} t4" "at t4 = at u" "view t4 = (view s)(lb := v)"
    "img t4 = (img s)(lb := v)" "hist t4 = img s # hist s" "frame t3 t4"
    using rel_law [OF 3(2), of k b] 1(5) 3 s(4) by auto
  obtain t5 where 5: "rel a t4 = Ok () t5" "inv P {} t5" "view t5 = (view s)(lb := v)"
    "img t5 = (img s)(lb := v)" "hist t5 = img s # hist s" "frame t4 t5"
    using rel_law [OF 4(2), of lb a] 1(4) 4 by auto
  have "frame s t5" using 1(10) 2(6) 3(7) 4(7) 5(6) frame_trans by metis
  moreover have "bnd (rd lb s) (\<lambda>a s. bnd (rd k s) (\<lambda>b s. bnd (wr a (set_dat a (dat b s) s)) (\<lambda>_ s.
      bnd (rel b s) (\<lambda>_ s. rel a s)))) = Ok () t5"
    using 1(1,2,6) 3(1) 4(1) 5(1) by (simp add: t2_def v_def)
  ultimately show ?thesis using 5 by (auto simp: v_def)
qed

text \<open>Copy a log block to its home block, write that and drop its pin: one round of \<open>install_trans\<close>.\<close>

lemma install_one_block:
  assumes s: "inv P {} s" "lb < lim" "k < lim" "k \<noteq> lb" "lb \<notin> P" "recovering \<longleftrightarrow> k \<notin> P"
    "card (insert k (insert lb P)) \<le> cap"
  shows "\<exists>t. bnd (rd lb s) (\<lambda>a s. bnd (rd k s) (\<lambda>b s. bnd (wr b (set_dat b (dat a s) s)) (\<lambda>_ s.
      bnd (rel a (if \<not> recovering then unpin b s else s)) (\<lambda>_ s. rel b s)))) = Ok () t
    \<and> inv (P - {k}) {} t \<and> view t = (view s)(k := view s lb) \<and> img t = (img s)(k := view s lb)
    \<and> hist t = img s # hist s \<and> frame s t"
proof -
  from read_two [OF s(1-4,7)] obtain a t1 b u where
    1: "rd lb s = Ok a t1" "rd k t1 = Ok b u" "inv P {k, lb} u" "at u lb a" "at u k b" "dat a u = view s lb"
      "view u = view s" "img u = img s" "hist u = hist s" "frame s u" by metis
  define v where "v = view s lb"
  define t2 where "t2 = set_dat b v u"
  have v: "length v = bsize" using length_law [OF s(1,2)] by (simp add: v_def)
  have 2: "inv P {k, lb} t2" "at t2 = at u" "view t2 = (view s)(k := v)" "img t2 = img s" "hist t2 = hist s"
    "frame u t2" using set_law [OF 1(3,5) _ v] 1 unfolding t2_def by auto
  obtain t3 where 3: "wr b t2 = Ok () t3" "inv P {k, lb} t3" "at t3 = at u" "view t3 = (view s)(k := v)"
    "img t3 = (img s)(k := v)" "hist t3 = img s # hist s" "frame t2 t3"
    using wr_law [OF 2(1), of k b] 1(5) 2 by auto
  define t4 where "t4 = (if \<not> recovering then unpin b t3 else t3)"
  have 4: "inv (P - {k}) {k, lb} t4" "at t4 = at u" "view t4 = (view s)(k := v)"
    "img t4 = (img s)(k := v)" "hist t4 = img s # hist s" "frame t3 t4"
    using unpin_law [OF 3(2), of k b] 1(5) 3 s(6) frame_refl by (auto simp: t4_def)
  have cl: "view s lb = img s lb" using clean_law [OF s(1,2)] s(5) by simp
  have "{k, lb} - {lb} = {k}" using s(4) by auto
  then obtain t5 where 5: "rel a t4 = Ok () t5" "inv (P - {k}) {k} t5" "at t5 = at u" "view t5 = (view s)(k := v)"
    "img t5 = (img s)(k := v)" "hist t5 = img s # hist s" "frame t4 t5"
    using rel_law [OF 4(1), of lb a] 1(4) 4 s(4) cl by auto
  obtain t6 where 6: "rel b t5 = Ok () t6" "inv (P - {k}) {} t6" "view t6 = (view s)(k := v)"
    "img t6 = (img s)(k := v)" "hist t6 = img s # hist s" "frame t5 t6"
    using rel_law [OF 5(2), of k b] 1(5) 5 by auto
  have "frame s t6" using 1(10) 2(6) 3(7) 4(6) 5(7) 6(6) frame_trans by metis
  moreover have "bnd (rd lb s) (\<lambda>a s. bnd (rd k s) (\<lambda>b s. bnd (wr b (set_dat b (dat a s) s)) (\<lambda>_ s.
      bnd (rel a (if \<not> recovering then unpin b s else s)) (\<lambda>_ s. rel b s)))) = Ok () t6"
    using 1(1,2,6) 3(1) 5(1) 6(1) by (simp add: t2_def v_def t4_def)
  ultimately show ?thesis using 6 by (auto simp: v_def)
qed

end

end
