(* ===== verification/Bcontents.thy ===== *)
theory Bcontents
  imports Bcache Blockstore
begin

text \<open>
  The buffer cache as its clients see it. A disk image is read block by block (\<open>dv\<close>), and
  \<open>lv d s\<close> is the logical contents of device \<open>d\<close>: the cached copy of a block if there is one, the
  copy on disk otherwise. \<open>cache_ok d P H s\<close> is the invariant of the cache when the blocks in
  \<open>P\<close> are pinned by the log and those in \<open>H\<close> are held by the running process: every other
  cached block agrees with the disk. Each operation of \<^verbatim>\<open>kernel/bio.c\<close> is specified by its
  effect on \<open>lv\<close>, \<open>P\<close>, \<open>H\<close> and the disk.
\<close>

section \<open>Blocks on disk\<close>

text \<open>
  The driver computes the sector in 32 bits (\<^verbatim>\<open>virtio_disk.c\<close>, \<^verbatim>\<open>b->blockno * (BSIZE / 512)\<close>), so
  that block numbers from \<open>2^31\<close> on would alias low ones.
\<close>

definition BLIM :: u32 where "BLIM = 0x80000000"

lemma disk_sector_val: "k < BLIM \<Longrightarrow> uint (disk_sector k) = 2 * uint k"
  unfolding disk_sector_def BLIM_def
  by (simp add: word_less_def uint_word_ariths unsigned_ucast_eq take_bit_eq_mod)

lemma disk_sector_neq:
  assumes "j < BLIM" "k < BLIM" "j \<noteq> k"
  shows "disk_sector j \<noteq> disk_sector k" "disk_sector j \<noteq> disk_sector k + 1"
    "disk_sector j + 1 \<noteq> disk_sector k + 1"
proof -
  have v: "uint (disk_sector j) = 2 * uint j" "uint (disk_sector k) = 2 * uint k"
    using assms disk_sector_val by blast+
  have "uint k < 2 ^ 31" "uint j < 2 ^ 31" using assms by (simp_all add: word_less_def BLIM_def)
  then have v1: "uint (disk_sector k + 1) = 2 * uint k + 1" "uint (disk_sector j + 1) = 2 * uint j + 1"
    using v by (simp_all add: uint_word_ariths)
  have "uint j \<noteq> uint k" using assms(3) by (metis word_of_int_uint)
  then show "disk_sector j \<noteq> disk_sector k" using v by auto
  show "disk_sector j \<noteq> disk_sector k + 1"
  proof
    assume "disk_sector j = disk_sector k + 1"
    then have "2 * uint j = 2 * uint k + 1" using v v1 by simp
    then show False by presburger
  qed
  show "disk_sector j + 1 \<noteq> disk_sector k + 1" using v v1 \<open>uint j \<noteq> uint k\<close> by auto
qed

lemma disk_sector_succ: "disk_sector k \<noteq> disk_sector k + 1"
  by simp

definition dv :: "(u64 \<Rightarrow> u8 list) \<Rightarrow> u32 \<Rightarrow> block" where
  "dv D k = (if k < BLIM then get_block D k else [])"

lemma get_put_block: "get_block (put_block k v D) k = v"
  by (simp add: get_block_def put_block_def disk_sector_succ)

lemma get_put_other: "j < BLIM \<Longrightarrow> k < BLIM \<Longrightarrow> j \<noteq> k \<Longrightarrow> get_block (put_block k v D) j = get_block D j"
  using disk_sector_neq [of j k] disk_sector_neq [of k j]
  by (simp add: get_block_def put_block_def)

lemma dv_put_block: "k < BLIM \<Longrightarrow> dv (put_block k v D) = (dv D)(k := v)"
  by (auto simp: dv_def get_put_block get_put_other)

section \<open>The invariant\<close>

definition running :: "'z kproc_scheme \<Rightarrow> bool" where
  "running s \<longleftrightarrow> (\<exists>i. myproc s = Some i \<and> i < length (procs s))"

definition cur_pid :: "'z kproc_scheme \<Rightarrow> int" where
  "cur_pid s = p_pid (procs s ! the (myproc s))"

lemma mypid_running: "running s \<Longrightarrow> mypid s = Ok (cur_pid s) s"
  by (auto simp: running_def cur_pid_def mypid_def)

lemma running_wakeup [simp]: "running (wakeup ch s) = running s"
  by (simp add: running_def)

lemma cur_pid_wakeup [simp]: "running s \<Longrightarrow> cur_pid (wakeup ch s) = cur_pid s"
  by (auto simp: running_def cur_pid_def)

definition buf_at :: "u32 \<Rightarrow> 'z kbio_scheme \<Rightarrow> u32 \<Rightarrow> nat \<Rightarrow> bool" where
  "buf_at d s k b \<longleftrightarrow> b < NBUF \<and> b_dev (bcache s ! b) = d \<and> b_blockno (bcache s ! b) = k"

definition lv :: "u32 \<Rightarrow> 'z kbio_scheme \<Rightarrow> u32 \<Rightarrow> block" where
  "lv d s k = (case find (buf_at d s k) [0..<NBUF] of None \<Rightarrow> dv (disk s) k | Some b \<Rightarrow> bdata b s)"

text \<open>
  A buffer of the device is valid, counts the pin of the log and the process that holds it,
  and its sleep lock says whether it is held; the other buffers are free.
\<close>

definition buf_ok :: "u32 \<Rightarrow> int \<Rightarrow> u32 set \<Rightarrow> u32 set \<Rightarrow> (u64 \<Rightarrow> u8 list) \<Rightarrow> buf \<Rightarrow> bool" where
  "buf_ok d pid P H D x \<longleftrightarrow>
     (b_dev x = d \<longrightarrow> b_valid x \<and> b_blockno x < BLIM \<and> length (b_data x) = BSIZE
        \<and> b_refcnt x = of_bool (b_blockno x \<in> P) + of_bool (b_blockno x \<in> H)
        \<and> (sl_locked (b_lock x) \<longleftrightarrow> b_blockno x \<in> H)
        \<and> (b_blockno x \<in> H \<longrightarrow> sl_pid (b_lock x) = pid)
        \<and> (b_blockno x \<notin> P \<union> H \<longrightarrow> b_data x = get_block D (b_blockno x)))
     \<and> (b_dev x \<noteq> d \<longrightarrow> b_refcnt x = 0 \<and> \<not> sl_locked (b_lock x))"

definition cache_ok :: "u32 \<Rightarrow> u32 set \<Rightarrow> u32 set \<Rightarrow> 'z kbio_scheme \<Rightarrow> bool" where
  "cache_ok d P H s \<longleftrightarrow> running s
     \<and> (\<exists>xs. recency (bcache s) xs)
     \<and> (\<forall>b < NBUF. buf_ok d (cur_pid s) P H (disk s) (bcache s ! b))
     \<and> (\<forall>k b c. buf_at d s k b \<longrightarrow> buf_at d s k c \<longrightarrow> b = c)
     \<and> (\<forall>k \<in> P \<union> H. \<exists>b. buf_at d s k b)
     \<and> (\<forall>k < BLIM. length (get_block (disk s) k) = BSIZE)"

lemma cache_okD:
  assumes "cache_ok d P H s"
  shows "running s" "\<exists>xs. recency (bcache s) xs" "length (bcache s) = Suc NBUF"
    "b < NBUF \<Longrightarrow> buf_ok d (cur_pid s) P H (disk s) (bcache s ! b)"
    "buf_at d s k b \<Longrightarrow> buf_at d s k c \<Longrightarrow> b = c"
    "k \<in> P \<union> H \<Longrightarrow> \<exists>b. buf_at d s k b"
    "k < BLIM \<Longrightarrow> length (get_block (disk s) k) = BSIZE"
  using assms recency_length by (auto simp: cache_ok_def)

lemma lv_cached:
  assumes "cache_ok d P H s" "buf_at d s k b"
  shows "lv d s k = bdata b s"
proof (cases "find (buf_at d s k) [0..<NBUF]")
  case None
  have "b \<in> set [0..<NBUF]" using assms(2) by (simp add: buf_at_def)
  with None assms(2) show ?thesis by (metis find_None_iff)
next
  case (Some c)
  then have "buf_at d s k c" by (metis find_Some_iff)
  with Some show ?thesis using cache_okD(5) [OF assms] by (simp add: lv_def)
qed

lemma lv_uncached: "(\<And>b. \<not> buf_at d s k b) \<Longrightarrow> lv d s k = dv (disk s) k"
  by (auto simp: lv_def find_Some_iff split: option.splits)

text \<open>The effect on everything but the cache and the disk: at most some sleepers wake up.\<close>

definition nostate :: "proc \<Rightarrow> proc" where
  "nostate p = p\<lparr>p_state := UNUSED\<rparr>"

definition bframe :: "'z kbio_scheme \<Rightarrow> 'z kbio_scheme \<Rightarrow> bool" where
  "bframe s t \<longleftrightarrow> t = s\<lparr>procs := procs t, bcache := bcache t, disk := disk t, disk_hist := disk_hist t\<rparr>
     \<and> map nostate (procs t) = map nostate (procs s)"

lemma bframe_refl [simp]: "bframe s s"
  by (simp add: bframe_def)

lemma bframe_trans: "bframe s t \<Longrightarrow> bframe t u \<Longrightarrow> bframe s u"
  by (cases s; cases t; cases u) (simp add: bframe_def)

lemma bframe_cache [simp]:
  "bframe s (s\<lparr>bcache := x\<rparr>)" "bframe s (s\<lparr>bcache := x, disk := D, disk_hist := h\<rparr>)"
  by (simp_all add: bframe_def)

lemma bframe_wakeup [simp]: "bframe s (wakeup ch s)"
  by (cases s) (auto simp: bframe_def wakeup_def nostate_def intro: nth_equalityI)

lemma wakeup_bio [simp]:
  "bcache (wakeup ch s) = bcache s" "disk (wakeup ch s) = disk s" "disk_hist (wakeup ch s) = disk_hist s"
  by (simp_all add: wakeup_def)

section \<open>Replacing one buffer\<close>

lemma recency_upd:
  assumes "recency bs xs" "b_next x = b_next (bs ! b)" "b_prev x = b_prev (bs ! b)"
  shows "recency (bs[b := x]) xs"
  using assms update_keeps [where f = b_next and x = x and bs = bs and b = b]
    update_keeps [where f = b_prev and x = x and bs = bs and b = b]
  by (simp add: recency_def bring_def linked_def)

lemma buf_ok_refcnt:
  assumes "buf_ok d pid P H D x"
  shows "b_refcnt x = 0 \<longleftrightarrow> \<not> (b_dev x = d \<and> b_blockno x \<in> P \<union> H)"
  using assms by (cases "b_blockno x \<in> P"; cases "b_blockno x \<in> H") (auto simp: buf_ok_def)

lemma buf_ok_cong:
  assumes "buf_ok d pid P H D x" "b_blockno x \<in> P' \<longleftrightarrow> b_blockno x \<in> P" "b_blockno x \<in> H' \<longleftrightarrow> b_blockno x \<in> H"
  shows "buf_ok d pid P' H' D x"
  using assms by (simp add: buf_ok_def)

text \<open>
  \<open>replaces d P H s b x k P' H' t\<close>: the state \<open>t\<close> is \<open>s\<close> with \<open>x\<close>, a buffer for block \<open>k\<close>, in the
  place of the buffer \<open>b\<close>, which held that block or was free; \<open>P'\<close> and \<open>H'\<close> say what becomes
  of the pin and of the lock on \<open>k\<close>.
\<close>

definition replaces :: "u32 \<Rightarrow> u32 set \<Rightarrow> u32 set \<Rightarrow> 'z kbio_scheme \<Rightarrow> nat \<Rightarrow> buf \<Rightarrow> u32 \<Rightarrow>
    u32 set \<Rightarrow> u32 set \<Rightarrow> 'z kbio_scheme \<Rightarrow> bool" where
  "replaces d P H s b x k P' H' t \<longleftrightarrow> cache_ok d P H s \<and> b < NBUF
     \<and> b_next x = b_next (bcache s ! b) \<and> b_prev x = b_prev (bcache s ! b)
     \<and> b_dev x = d \<and> b_blockno x = k \<and> buf_ok d (cur_pid s) P' H' (disk s) x
     \<and> (buf_at d s k b \<or> b_refcnt (bcache s ! b) = 0 \<and> (\<forall>j. \<not> buf_at d s k j))
     \<and> (\<forall>j. j \<noteq> k \<longrightarrow> (j \<in> P' \<longleftrightarrow> j \<in> P) \<and> (j \<in> H' \<longleftrightarrow> j \<in> H))
     \<and> t = s\<lparr>bcache := (bcache s)[b := x]\<rparr>"

lemma replaces_nth:
  assumes "replaces d P H s b x k P' H' t"
  shows "bcache t ! j = (if j = b then x else bcache s ! j)"
    "buf_at d t l i \<longleftrightarrow> (if i = b then l = k else buf_at d s l i)"
proof -
  have b: "cache_ok d P H s" "b < NBUF" "b_dev x = d" "b_blockno x = k" "t = s\<lparr>bcache := (bcache s)[b := x]\<rparr>"
    using assms by (simp_all add: replaces_def)
  show nth: "bcache t ! j = (if j = b then x else bcache s ! j)" for j
    using cache_okD(3) [OF b(1)] b(2,5) by (simp add: nth_list_update)
  show "buf_at d t l i \<longleftrightarrow> (if i = b then l = k else buf_at d s l i)"
    using b(2-4) unfolding buf_at_def nth by auto
qed

lemma replaces_old:
  assumes r: "replaces d P H s b x k P' H' t" and i: "buf_at d s j i"
  shows "i \<noteq> b \<Longrightarrow> j \<noteq> k" "j \<in> P \<union> H \<Longrightarrow> buf_at d t j i"
proof -
  have b: "cache_ok d P H s" "b < NBUF"
    and old: "buf_at d s k b \<or> b_refcnt (bcache s ! b) = 0 \<and> (\<forall>j. \<not> buf_at d s k j)"
    using r by (simp_all add: replaces_def)
  note D = cache_okD [OF b(1)]
  show "j \<noteq> k" if "i \<noteq> b" using old i that D(5) by blast
  show "buf_at d t j i" if "j \<in> P \<union> H"
  proof (cases "i = b")
    case True
    with i that have "b_refcnt (bcache s ! b) \<noteq> 0"
      using buf_ok_refcnt [OF D(4) [OF b(2)]] by (simp add: buf_at_def)
    with old have "buf_at d s k b" by blast
    with i True have "j = k" by (simp add: buf_at_def)
    then show ?thesis using True by (simp add: replaces_nth(2) [OF r])
  qed (simp add: replaces_nth(2) [OF r] i)
qed

lemma replaces_ok:
  assumes r: "replaces d P H s b x k P' H' t"
  shows "cache_ok d P' H' t"
  unfolding cache_ok_def
proof (intro conjI allI impI ballI)
  have c: "cache_ok d P H s" and b: "b < NBUF" and x: "buf_ok d (cur_pid s) P' H' (disk s) x"
    and links: "b_next x = b_next (bcache s ! b)" "b_prev x = b_prev (bcache s ! b)"
    and t: "t = s\<lparr>bcache := (bcache s)[b := x]\<rparr>"
    and off: "\<And>j. j \<noteq> k \<Longrightarrow> (j \<in> P' \<longleftrightarrow> j \<in> P) \<and> (j \<in> H' \<longleftrightarrow> j \<in> H)"
    using r by (simp_all add: replaces_def)
  note D = cache_okD [OF c] and N = replaces_nth [OF r]
  show "running t" using D(1) by (simp add: t running_def myproc_def mycpu_def)
  show "\<exists>xs. recency (bcache t) xs" using D(2) recency_upd [OF _ links] by (auto simp: t)
  show "buf_ok d (cur_pid t) P' H' (disk t) (bcache t ! j)" if "j < NBUF" for j
  proof -
    have "buf_ok d (cur_pid s) P' H' (disk s) (bcache s ! j)" if "j \<noteq> b"
    proof (cases "b_dev (bcache s ! j) = d")
      case True
      with replaces_old(1) [OF r _ that] \<open>j < NBUF\<close> have "b_blockno (bcache s ! j) \<noteq> k"
        by (simp add: buf_at_def)
      with off D(4) [OF \<open>j < NBUF\<close>] show ?thesis by (blast intro: buf_ok_cong)
    qed (use D(4) [OF \<open>j < NBUF\<close>] in \<open>simp add: buf_ok_def\<close>)
    moreover have "cur_pid t = cur_pid s" "disk t = disk s" by (simp_all add: t cur_pid_def myproc_def mycpu_def)
    ultimately show ?thesis using x by (simp add: N(1))
  qed
  show "i = j" if "buf_at d t l i" "buf_at d t l j" for l i j
    using that replaces_old(1) [OF r] D(5) by (auto simp: N(2) split: if_splits)
  show "\<exists>i. buf_at d t l i" if "l \<in> P' \<union> H'" for l
  proof (cases "l = k")
    case False
    with that off have "l \<in> P \<union> H" by blast
    with D(6) replaces_old(2) [OF r] show ?thesis by blast
  qed (auto simp: N(2))
  show "length (get_block (disk t) l) = BSIZE" if "l < BLIM" for l using D(7) [OF that] by (simp add: t)
qed

lemma replaces_lv:
  assumes r: "replaces d P H s b x k P' H' t"
  shows "lv d t = (lv d s)(k := b_data x)"
proof
  fix j
  have c: "cache_ok d P H s" and b: "b < NBUF" and t: "disk t = disk s"
    and old: "buf_at d s k b \<or> b_refcnt (bcache s ! b) = 0 \<and> (\<forall>j. \<not> buf_at d s k j)"
    using r by (simp_all add: replaces_def)
  note D = cache_okD [OF c] and N = replaces_nth [OF r] and ok = replaces_ok [OF r]
  consider "j = k" | i where "j \<noteq> k" "buf_at d s j i" "i \<noteq> b" | "j \<noteq> k" "buf_at d s j b" | "j \<noteq> k" "\<forall>i. \<not> buf_at d s j i"
    by blast
  then show "lv d t j = ((lv d s)(k := b_data x)) j"
  proof cases
    case 1
    then show ?thesis using lv_cached [OF ok, of k b] by (simp add: N bdata_def)
  next
    case (2 i)
    then have "buf_at d t j i" by (simp add: N(2))
    from lv_cached [OF ok this] lv_cached [OF c 2(2)] 2 show ?thesis by (simp add: bdata_def N(1))
  next
    case 3
    with old have "b_refcnt (bcache s ! b) = 0" by (auto simp: buf_at_def)
    with D(4) [OF b] 3 buf_ok_refcnt [OF D(4) [OF b]] have "bdata b s = get_block (disk s) j" "j < BLIM"
      by (auto simp: buf_at_def buf_ok_def bdata_def)
    moreover have "\<not> buf_at d t j i" for i using D(5) [OF 3(2), of i] 3(1) by (auto simp: N(2))
    then have "lv d t j = dv (disk t) j" by (rule lv_uncached)
    ultimately show ?thesis using lv_cached [OF c 3(2)] 3(1) by (simp add: dv_def t)
  next
    case 4
    then have "lv d t j = dv (disk t) j" "lv d s j = dv (disk s) j" by (simp_all add: N(2) lv_uncached)
    then show ?thesis using 4 by (simp add: t)
  qed
qed

section \<open>The operations\<close>

text \<open>\<open>served\<close>: what \<open>bread d k s\<close> returns when it returns the buffer \<open>b\<close> in the state \<open>t\<close>.\<close>

definition served :: "u32 \<Rightarrow> u32 set \<Rightarrow> u32 set \<Rightarrow> 'z kbio_scheme \<Rightarrow> u32 \<Rightarrow> nat \<Rightarrow> 'z kbio_scheme \<Rightarrow> bool" where
  "served d P H s k b t \<longleftrightarrow> cache_ok d P (insert k H) t \<and> buf_at d t k b \<and> lv d t = lv d s
     \<and> disk t = disk s \<and> disk_hist t = disk_hist s \<and> bframe s t
     \<and> (\<forall>j \<in> P \<union> H. \<forall>i. buf_at d s j i \<longrightarrow> buf_at d t j i)"

lemma servedI:
  assumes "replaces d P H s b x k P (insert k H) t" "b_data x = lv d s k"
  shows "served d P H s k b t"
  unfolding served_def
  using replaces_ok [OF assms(1)] replaces_lv [OF assms(1)] replaces_nth(2) [OF assms(1)]
    replaces_old(2) [OF assms(1)] assms by (simp add: replaces_def fun_upd_idem)

lemma free_buffer:
  assumes c: "cache_ok d P H s" and room: "card (P \<union> H) < NBUF"
  shows "\<exists>b < NBUF. b_refcnt (bcache s ! b) = 0"
proof (rule ccontr)
  assume "\<not> ?thesis"
  then have at: "buf_at d s (b_blockno (bcache s ! b)) b \<and> b_blockno (bcache s ! b) \<in> P \<union> H" if "b < NBUF" for b
    using buf_ok_refcnt [OF cache_okD(4) [OF c that]] that by (auto simp: buf_at_def)
  have "inj_on (\<lambda>b. b_blockno (bcache s ! b)) {..<NBUF}"
  proof (rule inj_onI)
    fix a b assume ab: "a \<in> {..<NBUF}" "b \<in> {..<NBUF}" "b_blockno (bcache s ! a) = b_blockno (bcache s ! b)"
    with at [of a] at [of b] cache_okD(5) [OF c] show "a = b" by auto
  qed
  moreover have "(\<lambda>b. b_blockno (bcache s ! b)) ` {..<NBUF} \<subseteq> P \<union> H" using at by auto
  ultimately have "card {..<NBUF} \<le> card (P \<union> H)" by (rule card_inj_on_le) simp
  with room show False by simp
qed

lemma find_SomeD: "find f xs = Some x \<Longrightarrow> x \<in> set xs \<and> f x"
  by (auto simp: find_Some_iff)

lemma bread_hit:
  assumes c: "cache_ok d P H s" and k: "k \<notin> H" and at: "buf_at d s k b"
  shows "\<exists>t. bread d k s = Ok b t \<and> served d P H s k b t"
proof -
  note D = cache_okD [OF c]
  obtain xs where xs: "recency (bcache s) xs" using D(2) by blast
  let ?f = "\<lambda>b. b_dev (bcache s ! b) = d \<and> b_blockno (bcache s ! b) = k"
  have b: "b < NBUF" "?f b" "b \<in> set xs" using at xs by (auto simp: buf_at_def recency_def)
  have "find ?f xs = Some b"
  proof (cases "find ?f xs")
    case None
    then show ?thesis using b by (auto simp: find_None_iff)
  next
    case (Some i)
    then have "i \<in> set xs" "?f i" by (blast dest: find_SomeD)+
    then have "buf_at d s k i" using xs by (auto simp: buf_at_def recency_def)
    then show ?thesis using Some D(5) [OF at] by simp
  qed
  then have f: "bfind (Suc NBUF) d k (bcache s) (b_next (bcache s ! bcache_head)) = Some b"
    using bfind_recency [OF xs] by simp
  have nb: "b \<noteq> bcache_head" "b < length (bcache s)" using b(1) D(3) by (auto simp: bcache_head_def)
  let ?x = "bcache s ! b"
  let ?y = "?x\<lparr>b_refcnt := b_refcnt ?x + 1, b_lock := (b_lock ?x)\<lparr>sl_locked := True, sl_pid := cur_pid s\<rparr>\<rparr>"
  have ok: "buf_ok d (cur_pid s) P H (disk s) ?x" "\<not> sl_locked (b_lock ?x)" "b_valid ?x"
    using D(4) [OF b(1)] b(2) k by (simp_all add: buf_ok_def)
  have "bread d k s = Ok b (s\<lparr>bcache := (bcache s)[b := ?y]\<rparr>)"
    using nb ok(2,3) mypid_running [of "upd_buf b (\<lambda>x. x\<lparr>b_refcnt := b_refcnt x + 1\<rparr>) s"] D(1)
    by (simp add: bread_def bget_def f block_buf_def acquiresleep_def upd_buf_def running_def cur_pid_def
        myproc_def mycpu_def del: bfind.simps)
  moreover have "replaces d P H s b ?y k P (insert k H) (s\<lparr>bcache := (bcache s)[b := ?y]\<rparr>)"
    using c b ok at k by (simp add: replaces_def buf_ok_def)
  then have "served d P H s k b (s\<lparr>bcache := (bcache s)[b := ?y]\<rparr>)"
    by (rule servedI) (simp add: lv_cached [OF c at] bdata_def)
  ultimately show ?thesis by blast
qed

lemma bread_miss:
  assumes c: "cache_ok d P H s" and k: "k < BLIM" "k \<notin> H" and room: "card (insert k (P \<union> H)) \<le> NBUF"
    and no: "\<And>b. \<not> buf_at d s k b"
  shows "\<exists>b t. bread d k s = Ok b t \<and> served d P H s k b t"
proof -
  note D = cache_okD [OF c]
  obtain xs where xs: "recency (bcache s) xs" using D(2) by blast
  have kP: "k \<notin> P \<union> H" using no D(6) by blast
  then have "card (P \<union> H) < NBUF" using room by simp
  from free_buffer [OF c this] obtain j where j: "j < NBUF" "b_refcnt (bcache s ! j) = 0" by blast
  have "find (\<lambda>b. b_dev (bcache s ! b) = d \<and> b_blockno (bcache s ! b) = k) xs = None"
    using no xs by (auto simp: find_None_iff buf_at_def recency_def)
  then have f: "bfind (Suc NBUF) d k (bcache s) (b_next (bcache s ! bcache_head)) = Some bcache_head"
    using bfind_recency [OF xs] by simp
  have "find (\<lambda>b. b_refcnt (bcache s ! b) = 0) (rev xs) \<noteq> None"
    using j xs by (auto simp: find_None_iff recency_def)
  then obtain b where fb: "find (\<lambda>b. b_refcnt (bcache s ! b) = 0) (rev xs) = Some b" by blast
  then have "b \<in> set (rev xs)" "b_refcnt (bcache s ! b) = 0"
    by (blast dest: find_SomeD)+
  then have b: "b < NBUF" "b_refcnt (bcache s ! b) = 0" using xs by (auto simp: recency_def)
  have g: "bfree_find (Suc NBUF) (bcache s) (b_prev (bcache s ! bcache_head)) = Some b"
    using bfree_find_recency [OF xs] fb by simp
  have nb: "b \<noteq> bcache_head" "b < length (bcache s)" using b(1) D(3) by (auto simp: bcache_head_def)
  let ?x = "bcache s ! b"
  let ?y = "?x\<lparr>b_dev := d, b_blockno := k, b_refcnt := 1,
     b_lock := (b_lock ?x)\<lparr>sl_locked := True, sl_pid := cur_pid s\<rparr>,
     b_data := get_block (disk s) k, b_disk := False, b_valid := True\<rparr>"
  have ul: "\<not> sl_locked (b_lock ?x)"
    using D(4) [OF b(1)] b(2) buf_ok_refcnt [OF D(4) [OF b(1)]] by (auto simp: buf_ok_def)
  have "bread d k s = Ok b (s\<lparr>bcache := (bcache s)[b := ?y]\<rparr>)"
    using nb ul mypid_running [of "upd_buf b (\<lambda>x. x\<lparr>b_dev := d, b_blockno := k, b_valid := False, b_refcnt := 1\<rparr>) s"] D(1)
    by (simp add: bread_def bget_def f g block_buf_def acquiresleep_def upd_buf_def running_def cur_pid_def
        myproc_def mycpu_def virtio_disk_rw_def del: bfind.simps bfree_find.simps)
  moreover have "replaces d P H s b ?y k P (insert k H) (s\<lparr>bcache := (bcache s)[b := ?y]\<rparr>)"
    using c b k kP no D(7) [OF k(1)] by (simp add: replaces_def buf_ok_def)
  then have "served d P H s k b (s\<lparr>bcache := (bcache s)[b := ?y]\<rparr>)"
    by (rule servedI) (simp add: lv_uncached [OF no] dv_def k(1))
  ultimately show ?thesis by blast
qed

lemma bread_served:
  assumes "cache_ok d P H s" "k < BLIM" "k \<notin> H" "card (insert k (P \<union> H)) \<le> NBUF"
  shows "\<exists>b t. bread d k s = Ok b t \<and> served d P H s k b t"
  using bread_hit [OF assms(1,3)] bread_miss [OF assms] by blast

text \<open>Waking sleepers and moving a buffer in the list change nothing a client sees.\<close>

lemma wakeup_contents [simp]:
  "buf_at d (wakeup ch s) = buf_at d s" "lv d (wakeup ch s) = lv d s"
  "cache_ok d P H s \<Longrightarrow> cache_ok d P H (wakeup ch s)"
proof -
  show at: "buf_at d (wakeup ch s) = buf_at d s" by (simp add: fun_eq_iff buf_at_def)
  then show "lv d (wakeup ch s) = lv d s" by (intro ext) (simp add: lv_def bdata_def split: option.split)
  show "cache_ok d P H s \<Longrightarrow> cache_ok d P H (wakeup ch s)"
    using at by (simp add: cache_ok_def)
qed

lemma relink_contents:
  assumes c: "cache_ok d P H s" and b: "b < NBUF"
    and t: "t = s\<lparr>bcache := list_insert_front b (list_unlink b (bcache s))\<rparr>"
  shows "buf_at d t = buf_at d s" "lv d t = lv d s" "cache_ok d P H t"
proof -
  note D = cache_okD [OF c]
  have "unlinked (bcache t ! j) = unlinked (bcache s ! j)" if "j < NBUF" for j
  proof -
    have "map unlinked (bcache t) = map unlinked (bcache s)" "length (bcache t) = Suc NBUF" using D(3) by (simp_all add: t)
    then show ?thesis using that D(3) by (metis less_Suc_eq nth_map)
  qed
  then have u: "b_valid (bcache t ! j) = b_valid (bcache s ! j) \<and> b_dev (bcache t ! j) = b_dev (bcache s ! j)
     \<and> b_blockno (bcache t ! j) = b_blockno (bcache s ! j) \<and> b_lock (bcache t ! j) = b_lock (bcache s ! j)
     \<and> b_refcnt (bcache t ! j) = b_refcnt (bcache s ! j) \<and> b_data (bcache t ! j) = b_data (bcache s ! j)"
    if "j < NBUF" for j using that by (simp add: unlinked_fields)
  then show at: "buf_at d t = buf_at d s" by (auto simp: fun_eq_iff buf_at_def)
  have "lv d t k = lv d s k" for k
  proof (cases "find (buf_at d s k) [0..<NBUF]")
    case (Some i)
    then have "i < NBUF" using find_SomeD [OF Some] by simp
    with Some u show ?thesis by (simp add: lv_def at bdata_def)
  qed (simp add: lv_def at, simp add: t)
  then show "lv d t = lv d s" by blast
  obtain xs where "recency (bcache s) xs" using D(2) by blast
  from recency_touch [OF this b] have "recency (bcache t) (b # remove1 b xs)" by (simp add: t)
  moreover have "running t" "cur_pid t = cur_pid s" "disk t = disk s"
    using D(1) by (simp_all add: t running_def cur_pid_def myproc_def mycpu_def)
  moreover have "buf_ok d (cur_pid s) P H (disk s) (bcache t ! j)" if "j < NBUF" for j
    using D(4) [OF that] u [OF that] by (simp add: buf_ok_def)
  ultimately show "cache_ok d P H t" using c at by (auto simp: cache_ok_def)
qed

lemma held_buffer:
  assumes "cache_ok d P H s" "buf_at d s k b" "k \<in> H"
  shows "holdingsleep (b_lock (bcache s ! b)) s = Ok True s" "b < NBUF" "b < length (bcache s)" "k < BLIM"
    "buf_ok d (cur_pid s) P H (disk s) (bcache s ! b)"
    "b_dev (bcache s ! b) = d" "b_blockno (bcache s ! b) = k"
proof -
  note D = cache_okD [OF assms(1)]
  show b: "b < NBUF" "b_dev (bcache s ! b) = d" "b_blockno (bcache s ! b) = k"
    using assms(2) by (simp_all add: buf_at_def)
  then show "b < length (bcache s)" using D(3) by simp
  show ok: "buf_ok d (cur_pid s) P H (disk s) (bcache s ! b)" using D(4) [OF b(1)] .
  then show "k < BLIM" "holdingsleep (b_lock (bcache s ! b)) s = Ok True s"
    using b assms(3) mypid_running [OF D(1)] by (auto simp: buf_ok_def holdingsleep_def)
qed

lemma set_bdata_spec:
  assumes "cache_ok d P H s" "buf_at d s k b" "k \<in> H" "length v = BSIZE"
  shows "cache_ok d P H (set_bdata b v s)" "lv d (set_bdata b v s) = (lv d s)(k := v)"
    "buf_at d (set_bdata b v s) = buf_at d s"
    "disk (set_bdata b v s) = disk s" "disk_hist (set_bdata b v s) = disk_hist s" "bframe s (set_bdata b v s)"
proof -
  note h = held_buffer [OF assms(1-3)]
  have r: "replaces d P H s b ((bcache s ! b)\<lparr>b_data := v\<rparr>) k P H (set_bdata b v s)"
    using h assms by (simp add: replaces_def buf_ok_def set_bdata_def upd_buf_def)
  show "cache_ok d P H (set_bdata b v s)" using replaces_ok [OF r] .
  show "lv d (set_bdata b v s) = (lv d s)(k := v)" using replaces_lv [OF r] by simp
  show "buf_at d (set_bdata b v s) = buf_at d s"
    using replaces_nth(2) [OF r] assms(2) h(6,7) by (auto simp: fun_eq_iff buf_at_def)
qed (simp_all add: set_bdata_def upd_buf_def)

lemma bpin_spec:
  assumes "cache_ok d P H s" "buf_at d s k b" "k \<in> H" "k \<notin> P"
  shows "cache_ok d (insert k P) H (bpin b s)" "lv d (bpin b s) = lv d s"
    "buf_at d (bpin b s) = buf_at d s" "disk (bpin b s) = disk s" "disk_hist (bpin b s) = disk_hist s"
    "bframe s (bpin b s)"
proof -
  note h = held_buffer [OF assms(1-3)]
  let ?x = "(bcache s ! b)\<lparr>b_refcnt := b_refcnt (bcache s ! b) + 1\<rparr>"
  have r: "replaces d P H s b ?x k (insert k P) H (bpin b s)"
    using h assms by (simp add: replaces_def buf_ok_def bpin_def upd_buf_def)
  show "cache_ok d (insert k P) H (bpin b s)" using replaces_ok [OF r] .
  show "lv d (bpin b s) = lv d s"
    using replaces_lv [OF r] lv_cached [OF assms(1,2)] by (simp add: fun_upd_idem bdata_def)
  show "buf_at d (bpin b s) = buf_at d s"
    using replaces_nth(2) [OF r] assms(2) h(6,7) by (auto simp: fun_eq_iff buf_at_def)
qed (simp_all add: bpin_def upd_buf_def)

lemma bunpin_spec:
  assumes "cache_ok d P H s" "buf_at d s k b" "k \<in> H" "k \<in> P"
  shows "cache_ok d (P - {k}) H (bunpin b s)" "lv d (bunpin b s) = lv d s"
    "buf_at d (bunpin b s) = buf_at d s" "disk (bunpin b s) = disk s" "disk_hist (bunpin b s) = disk_hist s"
    "bframe s (bunpin b s)"
proof -
  note h = held_buffer [OF assms(1-3)]
  let ?x = "(bcache s ! b)\<lparr>b_refcnt := b_refcnt (bcache s ! b) - 1\<rparr>"
  have r: "replaces d P H s b ?x k (P - {k}) H (bunpin b s)"
    using h assms by (simp add: replaces_def buf_ok_def bunpin_def upd_buf_def)
  show "cache_ok d (P - {k}) H (bunpin b s)" using replaces_ok [OF r] .
  show "lv d (bunpin b s) = lv d s"
    using replaces_lv [OF r] lv_cached [OF assms(1,2)] by (simp add: fun_upd_idem bdata_def)
  show "buf_at d (bunpin b s) = buf_at d s"
    using replaces_nth(2) [OF r] assms(2) h(6,7) by (auto simp: fun_eq_iff buf_at_def)
qed (simp_all add: bunpin_def upd_buf_def)

lemma brelse_spec:
  assumes c: "cache_ok d P H s" "buf_at d s k b" "k \<in> H" and clean: "k \<in> P \<or> lv d s k = dv (disk s) k"
  shows "\<exists>t. brelse b s = Ok () t \<and> cache_ok d P (H - {k}) t \<and> lv d t = lv d s \<and> buf_at d t = buf_at d s
    \<and> disk t = disk s \<and> disk_hist t = disk_hist s \<and> bframe s t"
proof -
  note h = held_buffer [OF c]
  let ?w = "wakeup (ChBufLock b) s" and ?x = "bcache s ! b"
  let ?y = "?x\<lparr>b_lock := (b_lock ?x)\<lparr>sl_locked := False, sl_pid := 0\<rparr>, b_refcnt := b_refcnt ?x - 1\<rparr>"
  let ?u = "?w\<lparr>bcache := (bcache s)[b := ?y]\<rparr>"
  define t where "t = (if b_refcnt ?y = 0
    then ?u\<lparr>bcache := list_insert_front b (list_unlink b (bcache ?u))\<rparr> else ?u)"
  have e: "brelse b s = Ok () t"
    using h(1,3) by (simp add: brelse_def releasesleep_def upd_buf_def t_def Let_def)
  have data: "b_data ?x = lv d s k" using lv_cached [OF c(1,2)] by (simp add: bdata_def)
  have r: "replaces d P H ?w b ?y k P (H - {k}) ?u"
    using c h clean data cache_okD(1) [OF c(1)] by (auto simp: replaces_def buf_ok_def dv_def)
  have u: "cache_ok d P (H - {k}) ?u" "lv d ?u = lv d s" "buf_at d ?u = buf_at d s"
    using replaces_ok [OF r] replaces_lv [OF r] replaces_nth(2) [OF r] c(2) h(6,7) data
    by (auto simp: fun_upd_idem fun_eq_iff buf_at_def)
  have "bframe s (?w\<lparr>bcache := z\<rparr>)" for z by (rule bframe_trans [OF bframe_wakeup bframe_cache(1)])
  then have f: "bframe s t" "disk t = disk s" "disk_hist t = disk_hist s" by (simp_all add: t_def)
  have "cache_ok d P (H - {k}) t \<and> lv d t = lv d s \<and> buf_at d t = buf_at d s"
    using u relink_contents [OF u(1) h(2) refl] by (auto simp: t_def)
  with e f show ?thesis by blast
qed

lemma bwrite_spec:
  assumes c: "cache_ok d P H s" "buf_at d s k b" "k \<in> H"
  shows "\<exists>t. bwrite b s = Ok () t \<and> cache_ok d P H t \<and> lv d t = lv d s \<and> buf_at d t = buf_at d s
    \<and> disk t = put_block k (lv d s k) (disk s) \<and> disk_hist t = disk s # disk_hist s \<and> bframe s t"
proof -
  note h = held_buffer [OF c] and D = cache_okD [OF c(1)]
  let ?x = "bcache s ! b"
  let ?D = "put_block k (b_data ?x) (disk s)"
  let ?u = "s\<lparr>disk_hist := disk s # disk_hist s, disk := ?D\<rparr>"
  let ?y = "?x\<lparr>b_disk := False\<rparr>"
  let ?t = "?u\<lparr>bcache := (bcache s)[b := ?y]\<rparr>"
  have data: "b_data ?x = lv d s k" using lv_cached [OF c(1,2)] by (simp add: bdata_def)
  have e: "bwrite b s = Ok () ?t"
    using h(1,7) by (simp add: bwrite_def virtio_disk_rw_def upd_buf_def)
  have at: "buf_at d ?u = buf_at d s" by (simp add: fun_eq_iff buf_at_def)
  have pid: "running ?u = running s" "cur_pid ?u = cur_pid s"
    by (simp_all add: running_def cur_pid_def myproc_def mycpu_def)
  have bo: "buf_ok d (cur_pid s) P H ?D (bcache s ! j)" if "j < NBUF" for j
  proof (cases "b_blockno (bcache s ! j) = k")
    case False
    with D(4) [OF that] h(4) show ?thesis by (simp add: buf_ok_def get_put_other)
  qed (use D(4) [OF that] c(3) in \<open>simp add: buf_ok_def\<close>)
  have len: "length (get_block ?D j) = BSIZE" if "j < BLIM" for j
    using D(7) [OF that] h(4,5,6,7) get_put_other [OF that h(4)] by (cases "j = k") (simp_all add: get_put_block buf_ok_def)
  have u: "cache_ok d P H ?u"
    unfolding cache_ok_def at pid using c(1) bo len by (simp add: cache_ok_def)
  have "lv d ?u j = lv d s j" for j
  proof (cases "j = k")
    case True
    then show ?thesis using lv_cached [OF u, unfolded at, OF c(2)] data by (simp add: bdata_def)
  next
    case False
    then have "dv ?D j = dv (disk s) j" using h(4) by (simp add: dv_put_block)
    then show ?thesis by (simp add: lv_def at bdata_def split: option.split)
  qed
  then have l: "lv d ?u = lv d s" by blast
  have r: "replaces d P H ?u b ?y k P H ?t"
    using u h bo [OF h(2)] c(2) at pid by (simp add: replaces_def buf_ok_def)
  have "cache_ok d P H ?t" "lv d ?t = lv d s" "buf_at d ?t = buf_at d s"
    using replaces_ok [OF r] replaces_lv [OF r] replaces_nth(2) [OF r] c(2) data l at
    by (auto simp: fun_upd_idem fun_eq_iff buf_at_def)
  moreover have "bframe s ?t" by (simp add: bframe_def)
  ultimately show ?thesis using e data by auto
qed

section \<open>The interface\<close>

lemma lv_clean:
  assumes c: "cache_ok d P H s" and k: "k < BLIM" "k \<notin> P \<union> H"
  shows "lv d s k = dv (disk s) k"
proof (cases "\<exists>b. buf_at d s k b")
  case True
  then obtain b where b: "buf_at d s k b" by blast
  then show ?thesis using lv_cached [OF c b] cache_okD(4) [OF c, of b] k by (auto simp: buf_at_def buf_ok_def bdata_def dv_def)
qed (auto intro: lv_uncached)

lemma lv_clean_all:
  assumes c: "cache_ok d P H s" and k: "k \<notin> P \<union> H"
  shows "lv d s k = dv (disk s) k"
proof (cases "k < BLIM")
  case False
  have "\<not> buf_at d s k b" for b
    using cache_okD(4) [OF c, of b] False by (auto simp: buf_at_def buf_ok_def)
  then show ?thesis by (rule lv_uncached)
qed (rule lv_clean [OF c _ k])

lemma lv_length:
  assumes c: "cache_ok d P H s" and k: "k < BLIM"
  shows "length (lv d s k) = BSIZE"
proof (cases "\<exists>b. buf_at d s k b")
  case True
  then obtain b where b: "buf_at d s k b" by blast
  then show ?thesis using lv_cached [OF c b] cache_okD(4) [OF c, of b] by (auto simp: buf_at_def buf_ok_def bdata_def)
next
  case False
  then have "lv d s k = dv (disk s) k" by (auto intro: lv_uncached)
  then show ?thesis using cache_okD(7) [OF c k] k by (simp add: dv_def)
qed

interpretation bc: block_store "cache_ok d" "buf_at d" "lv d" "\<lambda>s. dv (disk s)" "\<lambda>s. map dv (disk_hist s)"
  bframe BLIM NBUF BSIZE "bread d" bwrite brelse bdata set_bdata bpin bunpin
  for d
proof unfold_locales
  show "\<exists>b t. bread d k s = Ok b t \<and> cache_ok d P (insert k H) t \<and> buf_at d t k b \<and> lv d t = lv d s
      \<and> dv (disk t) = dv (disk s) \<and> map dv (disk_hist t) = map dv (disk_hist s) \<and> bframe s t
      \<and> (\<forall>j \<in> P \<union> H. \<forall>i. buf_at d s j i \<longrightarrow> buf_at d t j i)"
    if "cache_ok d P H s" "k < BLIM" "k \<notin> H" "card (insert k (P \<union> H)) \<le> NBUF" for P H s k
    using bread_served [OF that] by (auto simp: served_def)
  show "\<exists>t. bwrite b s = Ok () t \<and> cache_ok d P H t \<and> lv d t = lv d s \<and> buf_at d t = buf_at d s
      \<and> dv (disk t) = (dv (disk s))(k := lv d s k) \<and> map dv (disk_hist t) = dv (disk s) # map dv (disk_hist s) \<and> bframe s t"
    if "cache_ok d P H s" "buf_at d s k b" "k \<in> H" for P H s k b
    using bwrite_spec [OF that] held_buffer(4) [OF that] by (auto simp: dv_put_block)
  show "\<exists>t. brelse b s = Ok () t \<and> cache_ok d P (H - {k}) t \<and> lv d t = lv d s \<and> buf_at d t = buf_at d s
      \<and> dv (disk t) = dv (disk s) \<and> map dv (disk_hist t) = map dv (disk_hist s) \<and> bframe s t"
    if "cache_ok d P H s" "buf_at d s k b" "k \<in> H" "k \<in> P \<or> lv d s k = dv (disk s) k" for P H s k b
    using brelse_spec [OF that] by auto
qed (auto simp: lv_cached lv_clean lv_length set_bdata_spec bpin_spec bunpin_spec intro: bframe_trans)

section \<open>After boot\<close>

definition zero_buf :: buf where
  "zero_buf = \<lparr>b_valid = False, b_disk = False, b_dev = 0, b_blockno = 0,
     b_lock = \<lparr>sl_locked = False, sl_name = [], sl_pid = 0\<rparr>, b_refcnt = 0, b_prev = 0, b_next = 0,
     b_data = replicate BSIZE 0\<rparr>"

lemma binit_loop_keeps:
  assumes "b + n \<le> NBUF" "length bs = Suc NBUF" "j < NBUF"
    "b_dev (bs ! j) = 0" "b_refcnt (bs ! j) = 0" "\<not> sl_locked (b_lock (bs ! j))"
  shows "b_dev (binit_loop b n bs ! j) = 0 \<and> b_refcnt (binit_loop b n bs ! j) = 0
    \<and> \<not> sl_locked (b_lock (binit_loop b n bs ! j))"
  using assms
proof (induction n arbitrary: b bs)
  case (Suc n)
  let ?x = "(bs ! b)\<lparr>b_lock := initsleeplock (b_lock (bs ! b)) ''buffer''\<rparr>"
  let ?cs = "list_insert_front b (bs[b := ?x])"
  have j: "j < length ?cs" "j < length (bs[b := ?x])" using Suc.prems by simp_all
  have "unlinked (?cs ! j) = map unlinked ?cs ! j" by (rule nth_map [OF j(1), symmetric])
  also have "\<dots> = map unlinked (bs[b := ?x]) ! j" by (simp only: list_ops_unlinked)
  also have "\<dots> = unlinked (bs[b := ?x] ! j)" by (rule nth_map [OF j(2)])
  finally have "b_dev (?cs ! j) = 0 \<and> b_refcnt (?cs ! j) = 0 \<and> \<not> sl_locked (b_lock (?cs ! j))"
    using Suc.prems by (cases "j = b") (simp_all add: unlinked_fields initsleeplock_def)
  then show ?case using Suc.IH [of "Suc b" ?cs] Suc.prems by simp
qed simp

lemma binit_bufs:
  assumes "bcache s = replicate (Suc NBUF) zero_buf" "j < NBUF"
  shows "b_dev (bcache (binit s) ! j) = 0 \<and> b_refcnt (bcache (binit s) ! j) = 0 \<and> \<not> sl_locked (b_lock (bcache (binit s) ! j))"
proof -
  have bc: "bcache (binit s) = binit_loop 0 NBUF ((replicate (Suc NBUF) zero_buf)[bcache_head :=
     (replicate (Suc NBUF) zero_buf ! bcache_head)\<lparr>b_prev := bcache_head, b_next := bcache_head\<rparr>])"
    by (simp add: binit_def assms(1) del: replicate_Suc)
  show ?thesis
    unfolding bc using assms(2)
    by (intro binit_loop_keeps) (simp_all add: nth_list_update zero_buf_def bcache_head_def del: replicate_Suc)
qed

lemma binit_cache_ok:
  assumes "bcache s = replicate (Suc NBUF) zero_buf" "running s" "d \<noteq> 0"
    "\<And>k. k < BLIM \<Longrightarrow> length (get_block (disk s) k) = BSIZE"
  shows "cache_ok d {} {} (binit s)"
proof -
  let ?t = "binit s"
  note b = binit_bufs [OF assms(1)]
  have "recency (bcache ?t) (rev [0..<NBUF])" by (rule binit_recency) (simp add: assms(1))
  then have r: "\<exists>xs. recency (bcache ?t) xs" by blast
  have m: "running ?t" using assms(2) by (simp add: binit_def running_def myproc_def mycpu_def)
  have n: "\<not> buf_at d ?t k i" for k i using b [of i] assms(3) by (auto simp: buf_at_def)
  have o: "buf_ok d pid {} {} D (bcache ?t ! j)" if "j < NBUF" for j pid D
    using b [OF that] assms(3) by (simp add: buf_ok_def)
  have "disk ?t = disk s" by (simp add: binit_def)
  then show ?thesis unfolding cache_ok_def using m n o r assms(4) by simp
qed

text \<open>A machine with a zeroed disk on which process 0 runs.\<close>

definition bio_demo :: kbio where
  "bio_demo = \<lparr>mem = (\<lambda>_. 0), freelist = 0, kend = 0, hart = 0,
     cpus = [\<lparr>c_proc = Some 0, c_noff = 0, c_intena = False, c_sie = False\<rparr>],
     procs = [zero_proc], initproc = None, nextpid = 1, ticks = 0, mlfq_ticks = 0, last_boost_tick = 0,
     bcache = replicate (Suc NBUF) zero_buf, disk = (\<lambda>_. replicate 512 0), disk_hist = []\<rparr>"

lemma bio_demo_ok: "cache_ok 1 {} {} (binit bio_demo)" "running (binit bio_demo)"
  "recency (bcache (binit bio_demo)) (rev [0..<NBUF])" "disk (binit bio_demo) = (\<lambda>_. replicate 512 0)"
proof -
  show c: "cache_ok 1 {} {} (binit bio_demo)"
    by (rule binit_cache_ok)
      (simp_all add: bio_demo_def running_def myproc_def mycpu_def get_block_def BSIZE_def del: replicate_Suc)
  show "running (binit bio_demo)" using cache_okD(1) [OF c] .
  show "recency (bcache (binit bio_demo)) (rev [0..<NBUF])" by (rule binit_recency) (simp add: bio_demo_def)
  show "disk (binit bio_demo) = (\<lambda>_. replicate 512 0)" by (simp add: binit_def bio_demo_def)
qed

section \<open>Properties\<close>

lemma find_split: "find f ys = Some b \<Longrightarrow> \<exists>as bs. ys = as @ b # bs \<and> f b \<and> (\<forall>a \<in> set as. \<not> f a)"
proof (induction ys)
  case (Cons y ys)
  show ?case
  proof (cases "f y")
    case True
    with Cons.prems have "y # ys = [] @ b # ys \<and> f b" by simp
    then show ?thesis by (metis empty_iff list.set(1))
  next
    case False
    with Cons obtain as bs where "ys = as @ b # bs" "f b" "\<forall>a \<in> set as. \<not> f a" by auto
    with False have "y # ys = (y # as) @ b # bs \<and> f b \<and> (\<forall>a \<in> set (y # as). \<not> f a)" by simp
    then show ?thesis by blast
  qed
qed simp

text \<open>
  C23. Replacement in the buffer cache is least recently used: when the block is not cached and some
  buffer is free, \<open>bget\<close> takes the free buffer that was released longest ago (the last in the list
  that is not in use), gives it to the block, locked and not yet valid, and touches no other
  buffer; and a \<open>brelse\<close> that drops the last reference puts the buffer in front of the list,
  keeping the order of the others.
\<close>

theorem bcache_lru:
  assumes "recency (bcache s) xs" "running s"
  shows "(\<forall>dev k. (\<forall>b < NBUF. \<not> (b_dev (bcache s ! b) = dev \<and> b_blockno (bcache s ! b) = k)) \<longrightarrow>
      (\<exists>b < NBUF. b_refcnt (bcache s ! b) = 0) \<longrightarrow>
      (\<forall>b < NBUF. b_refcnt (bcache s ! b) = 0 \<longrightarrow> \<not> sl_locked (b_lock (bcache s ! b))) \<longrightarrow>
      (\<exists>us b vs. xs = us @ b # vs \<and> b_refcnt (bcache s ! b) = 0 \<and> (\<forall>v \<in> set vs. b_refcnt (bcache s ! v) \<noteq> 0)
        \<and> bget dev k s = Ok b (s\<lparr>bcache := (bcache s)[b := (bcache s ! b)\<lparr>b_dev := dev, b_blockno := k,
             b_valid := False, b_refcnt := 1, b_lock := (b_lock (bcache s ! b))\<lparr>sl_locked := True, sl_pid := cur_pid s\<rparr>\<rparr>]\<rparr>)))
    \<and> (\<forall>b < NBUF. sl_locked (b_lock (bcache s ! b)) \<longrightarrow> sl_pid (b_lock (bcache s ! b)) = cur_pid s \<longrightarrow>
        b_refcnt (bcache s ! b) = 1 \<longrightarrow> (\<exists>t. brelse b s = Ok () t \<and> recency (bcache t) (b # remove1 b xs)))"
proof (intro conjI allI impI)
  fix dev k
  assume no: "\<forall>b < NBUF. \<not> (b_dev (bcache s ! b) = dev \<and> b_blockno (bcache s ! b) = k)"
    and fr: "\<exists>b < NBUF. b_refcnt (bcache s ! b) = 0"
    and ul: "\<forall>b < NBUF. b_refcnt (bcache s ! b) = 0 \<longrightarrow> \<not> sl_locked (b_lock (bcache s ! b))"
  have xs: "set xs = {..<NBUF}" "length (bcache s) = Suc NBUF" using assms(1) recency_length by (auto simp: recency_def)
  have "find (\<lambda>b. b_dev (bcache s ! b) = dev \<and> b_blockno (bcache s ! b) = k) xs = None"
    using no xs by (auto simp: find_None_iff)
  then have f: "bfind (Suc NBUF) dev k (bcache s) (b_next (bcache s ! bcache_head)) = Some bcache_head"
    using bfind_recency [OF assms(1)] by simp
  have "find (\<lambda>b. b_refcnt (bcache s ! b) = 0) (rev xs) \<noteq> None" using fr xs by (auto simp: find_None_iff)
  then obtain b where b: "find (\<lambda>b. b_refcnt (bcache s ! b) = 0) (rev xs) = Some b" by blast
  then have g: "bfree_find (Suc NBUF) (bcache s) (b_prev (bcache s ! bcache_head)) = Some b"
    using bfree_find_recency [OF assms(1)] by simp
  from find_split [OF b] obtain as bs where ab: "rev xs = as @ b # bs" "b_refcnt (bcache s ! b) = 0"
    "\<forall>a \<in> set as. b_refcnt (bcache s ! a) \<noteq> 0" by blast
  have x: "xs = rev bs @ b # rev as" using arg_cong [OF ab(1), of rev] by simp
  then have bN: "b < NBUF" using xs(1) by (metis in_set_conv_decomp lessThan_iff)
  then have nb: "b \<noteq> bcache_head" "b < length (bcache s)" using xs(2) by (simp_all add: bcache_head_def)
  let ?y = "(bcache s ! b)\<lparr>b_dev := dev, b_blockno := k, b_valid := False, b_refcnt := 1,
    b_lock := (b_lock (bcache s ! b))\<lparr>sl_locked := True, sl_pid := cur_pid s\<rparr>\<rparr>"
  have "bget dev k s = Ok b (s\<lparr>bcache := (bcache s)[b := ?y]\<rparr>)"
    using nb ul bN ab(2) mypid_running [of "upd_buf b (\<lambda>x. x\<lparr>b_dev := dev, b_blockno := k, b_valid := False, b_refcnt := 1\<rparr>) s"] assms(2)
    by (simp add: bget_def f g block_buf_def acquiresleep_def upd_buf_def running_def cur_pid_def
        myproc_def mycpu_def del: bfind.simps bfree_find.simps)
  with x ab show "\<exists>us b vs. xs = us @ b # vs \<and> b_refcnt (bcache s ! b) = 0 \<and> (\<forall>v \<in> set vs. b_refcnt (bcache s ! v) \<noteq> 0)
        \<and> bget dev k s = Ok b (s\<lparr>bcache := (bcache s)[b := (bcache s ! b)\<lparr>b_dev := dev, b_blockno := k,
             b_valid := False, b_refcnt := 1, b_lock := (b_lock (bcache s ! b))\<lparr>sl_locked := True, sl_pid := cur_pid s\<rparr>\<rparr>]\<rparr>)"
    by (intro exI [of _ "rev bs"] exI [of _ b] exI [of _ "rev as"]) simp
next
  fix b assume b: "b < NBUF" "sl_locked (b_lock (bcache s ! b))" "sl_pid (b_lock (bcache s ! b)) = cur_pid s"
    "b_refcnt (bcache s ! b) = 1"
  have "b < length (bcache s)" using b(1) recency_length [OF assms(1)] by simp
  moreover have "holdingsleep (b_lock (bcache s ! b)) s = Ok True s"
    using b mypid_running [OF assms(2)] by (simp add: holdingsleep_def)
  moreover have "recency ((bcache s)[b := (bcache s ! b)\<lparr>b_lock := l, b_refcnt := 0\<rparr>]) xs" for l
    by (rule recency_upd [OF assms(1)]) simp_all
  ultimately show "\<exists>t. brelse b s = Ok () t \<and> recency (bcache t) (b # remove1 b xs)"
    using b(4) recency_touch [OF _ b(1)] by (simp add: brelse_def releasesleep_def upd_buf_def Let_def)
qed

text \<open>On the example machine the first buffer that \<open>bget\<close> takes is number 0, the last of the list.\<close>

theorem bcache_lru_witness: "\<exists>t. bget 1 40 (binit bio_demo) = Ok 0 t"
proof -
  let ?s = "binit bio_demo"
  have b: "b_dev (bcache ?s ! j) = 0" "b_refcnt (bcache ?s ! j) = 0" "\<not> sl_locked (b_lock (bcache ?s ! j))"
    if "j < NBUF" for j
    using binit_bufs [of bio_demo, OF _ that] by (simp_all add: bio_demo_def del: replicate_Suc)
  have N: "0 < NBUF" by (simp add: kconst)
  with b(2) have free: "\<exists>j < NBUF. b_refcnt (bcache ?s ! j) = 0" by blast
  note lru = conjunct1 [OF bcache_lru [OF bio_demo_ok(3,2)], THEN spec, THEN spec, of 1 40, THEN mp, THEN mp, THEN mp]
  from lru obtain us b vs t where
    x: "rev [0..<NBUF] = us @ b # vs" "\<forall>v \<in> set vs. b_refcnt (bcache ?s ! v) \<noteq> 0" "bget 1 40 ?s = Ok b t"
    using b free by auto
  have "set vs \<subseteq> {..<NBUF}" using arg_cong [OF x(1), of set] by auto
  with x(2) b(2) have "vs = []" by (cases vs) auto
  with arg_cong [OF x(1), of rev] have "[0..<NBUF] = b # rev us" by simp
  then have "b = 0" using N by (simp add: upt_conv_Cons)
  with x(3) show ?thesis by blast
qed

text \<open>
  C24. Reads go through to the latest write: after block \<open>k\<close> is read, overwritten with \<open>v\<close>, written
  and released, \<open>bread\<close> of any block yields \<open>v\<close> for \<open>k\<close> and the former contents for every other
  block, whatever the cache had to evict, and the disk holds \<open>v\<close>.
\<close>

theorem write_then_read:
  assumes "cache_ok d P {} s" "k < BLIM" "k \<notin> P" "card (insert k P) \<le> NBUF" "length v = BSIZE"
    and "j < BLIM" "card (insert j P) \<le> NBUF"
  shows "\<exists>t b u. bnd (bread d k s) (\<lambda>b s. bnd (bwrite b (set_bdata b v s)) (\<lambda>_ s. brelse b s)) = Ok () t
    \<and> bread d j t = Ok b u \<and> bdata b u = (if j = k then v else lv d s j) \<and> dv (disk t) k = v"
proof -
  obtain t where t: "bnd (bread d k s) (\<lambda>b s. bnd (bwrite b (set_bdata b v s)) (\<lambda>_ s. brelse b s)) = Ok () t"
    "cache_ok d P {} t" "lv d t = (lv d s)(k := v)" "dv (disk t) = (dv (disk s))(k := v)"
    by (rule exE [OF bc.update_block [where f = "\<lambda>_. v", OF assms(1-4)]], rule assms(5), elim conjE, rule that)
  obtain b u where u: "bread d j t = Ok b u" "served d P {} t j b u"
    using bread_served [OF t(2) assms(6)] assms(7) by auto
  then have "bdata b u = lv d t j" using lv_cached by (fastforce simp: served_def)
  with t u show ?thesis by auto
qed

theorem write_then_read_witness:
  "\<exists>t b u. bnd (bread 1 40 (binit bio_demo)) (\<lambda>b s. bnd (bwrite b (set_bdata b (replicate BSIZE 7) s)) (\<lambda>_ s. brelse b s)) = Ok () t
    \<and> bread 1 40 t = Ok b u \<and> bdata b u = replicate BSIZE 7"
  using write_then_read [OF bio_demo_ok(1), of 40 "replicate BSIZE 7" 40] by (auto simp: BLIM_def kconst)

end
