(* ===== verification/Logcrash.thy ===== *)
theory Logcrash
  imports Log Bcontents
begin

text \<open>
  Crash safety of the redo log. A disk image is a function from block numbers to blocks;
  \<open>recovered st A\<close> is the contents that recovery makes of the image \<open>A\<close>: the blocks named in the
  header of the log are those in the log. The writes of \<open>commit\<close> and of \<open>recover_from_log\<close> are
  computed exactly, as lists of block writes, and every prefix of them, which is what a crash
  leaves, is shown to recover to the old or to the new contents.
\<close>

section \<open>Fields of a block\<close>

lemma length_le_bytes [simp]: "length (le_bytes n v) = n"
  by (induction n arbitrary: v) auto

lemma le_val_le_bytes: "le_val (le_bytes n v) = v mod 256 ^ n"
  by (induction n arbitrary: v) (auto simp: unat_of_nat mod_mult2_eq)

lemma length_put_bytes [simp]: "i + length bs \<le> length xs \<Longrightarrow> length (put_bytes i bs xs) = length xs"
  by (simp add: put_bytes_def)

lemma get_put_bytes:
  "i + length bs \<le> length xs \<Longrightarrow> take (length bs) (drop i (put_bytes i bs xs)) = bs"
  by (simp add: put_bytes_def)

lemma get_put_bytes_other:
  assumes "i + length bs \<le> length xs" "j + n \<le> i \<or> i + length bs \<le> j"
  shows "take n (drop j (put_bytes i bs xs)) = take n (drop j xs)"
  using assms(2)
proof
  assume "j + n \<le> i"
  then show ?thesis using assms(1) by (simp add: put_bytes_def take_drop min_def)
next
  assume "i + length bs \<le> j"
  then show ?thesis using assms(1) by (simp add: put_bytes_def)
qed

lemma length_put32 [simp]: "i + 4 \<le> length xs \<Longrightarrow> length (put32 i v xs) = length xs"
  by (simp add: put32_def)

lemma get32_put32:
  assumes "i + 4 \<le> length xs"
  shows "get32 i (put32 i v xs) = v"
proof -
  have "unat v < 2 ^ 32" using unsigned_less [of v] by simp
  then show ?thesis using get_put_bytes [of i "le_bytes 4 (unat v)" xs] assms
    by (simp add: get32_def put32_def le_val_le_bytes)
qed

lemma get32_put32_other:
  "i + 4 \<le> length xs \<Longrightarrow> j + 4 \<le> i \<or> i + 4 \<le> j \<Longrightarrow> get32 j (put32 i v xs) = get32 j xs"
  using get_put_bytes_other [of i "le_bytes 4 (unat v)" xs j 4] by (simp add: get32_def put32_def)

text \<open>The header block of the log.\<close>

lemma header_fill_spec:
  assumes "4 + 4 * (i + length ys) \<le> length v"
  shows "length (header_fill i ys v) = length v \<and> header_n (header_fill i ys v) = header_n v
    \<and> (\<forall>j < i. header_block j (header_fill i ys v) = header_block j v)
    \<and> (\<forall>j < length ys. header_block (i + j) (header_fill i ys v) = ys ! j)"
  using assms
proof (induction ys arbitrary: i v)
  case (Cons y ys)
  let ?v = "put32 (4 + 4 * i) y v"
  have l: "length ?v = length v" "4 + 4 * (Suc i + length ys) \<le> length ?v" using Cons.prems by simp_all
  note IH = Cons.IH [OF l(2)]
  have n: "header_n ?v = header_n v" using Cons.prems by (simp add: header_n_def get32_put32_other)
  have o: "header_block j ?v = header_block j v" if "j < i" for j
    using Cons.prems that by (simp add: header_block_def get32_put32_other)
  have y: "header_block i ?v = y" using Cons.prems by (simp add: header_block_def get32_put32)
  have "header_block (i + j) (header_fill (Suc i) ys ?v) = (y # ys) ! j" if "j < length (y # ys)" for j
    using IH y that by (cases j) simp_all
  with IH n o l show ?case by simp
qed simp

text \<open>What \<open>write_head\<close> makes of the header block when the blocks \<open>ys\<close> are logged.\<close>

definition head_of :: "u32 list \<Rightarrow> block \<Rightarrow> block" where
  "head_of ys v = header_fill 0 ys (put32 0 (word_of_int (int (length ys))) v)"

lemma head_of:
  assumes "length ys \<le> LOGSIZE" "length v = BSIZE"
  shows "length (head_of ys v) = BSIZE" "header_n (head_of ys v) = int (length ys)"
    "j < length ys \<Longrightarrow> header_block j (head_of ys v) = ys ! j"
proof -
  have l: "4 + 4 * (0 + length ys) \<le> length (put32 0 (word_of_int (int (length ys))) v)"
    using assms by (simp add: kconst)
  note F = header_fill_spec [OF l]
  show "length (head_of ys v) = BSIZE" using F assms by (simp add: head_of_def kconst)
  have "sint (word_of_int (int (length ys)) :: u32) = int (length ys)"
    using assms(1) by (simp add: kconst sint_u32 uint_nat unat_of_nat)
  then show "header_n (head_of ys v) = int (length ys)"
    using F assms by (simp add: head_of_def header_n_def get32_put32 kconst)
  show "header_block j (head_of ys v) = ys ! j" if "j < length ys" using F that by (simp add: head_of_def)
qed

section \<open>Disk images and crashes\<close>

type_synonym image = "u32 \<Rightarrow> block"

text \<open>The image after a list of block writes, and the images before each of them, oldest first.\<close>

primrec wrote :: "image \<Rightarrow> (u32 \<times> block) list \<Rightarrow> image" where
  "wrote A [] = A"
| "wrote A (w # ws) = wrote (A(fst w := snd w)) ws"

primrec images :: "image \<Rightarrow> (u32 \<times> block) list \<Rightarrow> image list" where
  "images A [] = []"
| "images A (w # ws) = A # images (A(fst w := snd w)) ws"

lemma wrote_append [simp]: "wrote A (ws @ vs) = wrote (wrote A ws) vs"
  by (induction ws arbitrary: A) auto

lemma images_append [simp]: "images A (ws @ vs) = images A ws @ images (wrote A ws) vs"
  by (induction ws arbitrary: A) auto

lemma length_images [simp]: "length (images A ws) = length ws"
  by (induction ws arbitrary: A) auto

lemma images_prefix: "B \<in> set (images A ws) \<Longrightarrow> \<exists>n. n \<le> length ws \<and> B = wrote A (take n ws)"
proof (induction ws arbitrary: A)
  case (Cons w ws)
  show ?case
  proof (cases "B = A")
    case True
    then show ?thesis by (intro exI [of _ 0]) simp
  next
    case False
    with Cons obtain n where "n \<le> length ws" "B = wrote (A(fst w := snd w)) (take n ws)" by force
    then show ?thesis by (intro exI [of _ "Suc n"]) simp
  qed
qed simp

lemma wrote_other: "k \<notin> fst ` set ws \<Longrightarrow> wrote A ws k = A k"
  by (induction ws arbitrary: A) auto

lemma wrote_in: "distinct (map fst ws) \<Longrightarrow> (k, v) \<in> set ws \<Longrightarrow> wrote A ws k = v"
proof (induction ws arbitrary: A)
  case (Cons w ws)
  show ?case
  proof (cases "(k, v) \<in> set ws")
    case False
    then have w: "w = (k, v)" using Cons.prems by auto
    then have "k \<notin> fst ` set ws" using Cons.prems by auto
    then show ?thesis using wrote_other [of k ws] w by simp
  qed (use Cons in simp)
qed simp

text \<open>Block \<open>i\<close> of the log area, which starts with the header.\<close>

definition lblk :: "int \<Rightarrow> nat \<Rightarrow> u32" where
  "lblk st i = word_of_int (st + int i)"

definition area :: "int \<Rightarrow> nat \<Rightarrow> u32 set" where
  "area st n = lblk st ` {..<n}"

definition log_entries :: "int \<Rightarrow> image \<Rightarrow> u32 list" where
  "log_entries st A = map (\<lambda>i. header_block i (A (lblk st 0))) [0..<nat (header_n (A (lblk st 0)))]"

definition recovered :: "int \<Rightarrow> image \<Rightarrow> image" where
  "recovered st A k = (case find_idx (\<lambda>x. x = k) (log_entries st A) of
     Some i \<Rightarrow> A (lblk st (Suc i)) | None \<Rightarrow> A k)"

definition place_ok :: "int \<Rightarrow> nat \<Rightarrow> bool" where
  "place_ok st n \<longleftrightarrow> 0 \<le> st \<and> 0 < n \<and> n \<le> LOGSIZE \<and> st + int n < 2 ^ 31"

text \<open>Home blocks that may be logged, in a log of \<open>n\<close> blocks.\<close>

definition homes_ok :: "int \<Rightarrow> nat \<Rightarrow> u32 list \<Rightarrow> bool" where
  "homes_ok st n ys \<longleftrightarrow> distinct ys \<and> length ys < n \<and> (\<forall>k \<in> set ys. k < BLIM \<and> k \<notin> area st n)"

definition image_ok :: "int \<Rightarrow> nat \<Rightarrow> image \<Rightarrow> bool" where
  "image_ok st n A \<longleftrightarrow> 0 \<le> header_n (A (lblk st 0)) \<and> homes_ok st n (log_entries st A)
     \<and> (\<forall>k < BLIM. length (A k) = BSIZE)"

lemma word_of_int_val: "0 \<le> x \<Longrightarrow> x < 2 ^ 32 \<Longrightarrow> uint (word_of_int x :: u32) = x"
  by (simp add: unsigned_of_int take_bit_int_eq_self)

lemma lblk_val: "place_ok st n \<Longrightarrow> i < n \<Longrightarrow> uint (lblk st i) = st + int i"
  unfolding place_ok_def lblk_def by (rule word_of_int_val) auto

lemma lblk_inj: "place_ok st n \<Longrightarrow> i < n \<Longrightarrow> j < n \<Longrightarrow> lblk st i = lblk st j \<longleftrightarrow> i = j"
  by (metis lblk_val add_left_cancel of_nat_eq_iff)

lemma lblk_lim: "place_ok st n \<Longrightarrow> i < n \<Longrightarrow> lblk st i < BLIM"
  using lblk_val [of st n i] by (simp add: word_less_def BLIM_def place_ok_def)

lemma lblk_area: "i < n \<Longrightarrow> lblk st i \<in> area st n"
  by (simp add: area_def)

lemma find_nth: "distinct ys \<Longrightarrow> i < length ys \<Longrightarrow> find_idx (\<lambda>x. x = ys ! i) ys = Some i"
  unfolding find_idx_Some_iff using nth_eq_iff_index_eq [of ys _ i] by simp

lemma find_none: "k \<notin> set ys \<Longrightarrow> find_idx (\<lambda>x. x = k) ys = None"
  by (auto simp: find_idx_None_iff)

lemma recovered_nth:
  "distinct (log_entries st A) \<Longrightarrow> i < length (log_entries st A) \<Longrightarrow>
     recovered st A (log_entries st A ! i) = A (lblk st (Suc i))"
  by (simp add: recovered_def find_nth)

lemma recovered_other: "k \<notin> set (log_entries st A) \<Longrightarrow> recovered st A k = A k"
  by (simp add: recovered_def find_none)

section \<open>The writes of the log\<close>

definition sized :: "image \<Rightarrow> bool" where
  "sized A \<longleftrightarrow> (\<forall>k < BLIM. length (A k) = BSIZE)"

lemma sized_wrote: "sized A \<Longrightarrow> (\<And>w. w \<in> set ws \<Longrightarrow> length (snd w) = BSIZE) \<Longrightarrow> sized (wrote A ws)"
  by (induction ws arbitrary: A) (auto simp: sized_def)

text \<open>Copying the blocks \<open>ys\<close> of \<open>V\<close> into the log, and installing \<open>R\<close> for them.\<close>

definition log_writes :: "int \<Rightarrow> image \<Rightarrow> u32 list \<Rightarrow> (u32 \<times> block) list" where
  "log_writes st V ys = map (\<lambda>i. (lblk st (Suc i), V (ys ! i))) [0..<length ys]"

definition installs :: "image \<Rightarrow> u32 list \<Rightarrow> (u32 \<times> block) list" where
  "installs R ys = map (\<lambda>k. (k, R k)) ys"

lemma installs_all:
  assumes "distinct ys"
  shows "wrote A (installs R ys) k = (if k \<in> set ys then R k else A k)"
proof (cases "k \<in> set ys")
  case True
  have "distinct (map fst (installs R ys))" using assms by (simp add: installs_def o_def)
  moreover have "(k, R k) \<in> set (installs R ys)" using True by (simp add: installs_def)
  ultimately show ?thesis using True wrote_in [of "installs R ys" k "R k" A] by simp
next
  case False
  then have "k \<notin> fst ` set (installs R ys)" by (simp add: installs_def image_image)
  then show ?thesis using wrote_other [of k "installs R ys" A] False by simp
qed

lemma installs_prefix:
  assumes i: "image_ok st n A" and p: "place_ok st n"
    and B: "B = wrote A (take m (installs (recovered st A) (log_entries st A)))"
  shows "image_ok st n B" "recovered st B = recovered st A" "log_entries st B = log_entries st A"
    "k \<in> area st n \<Longrightarrow> B k = A k"
proof -
  define ys where "ys = log_entries st A"
  define ws where "ws = take m (installs (recovered st A) ys)"
  have h: "distinct ys" "length ys < n" "\<And>k. k \<in> set ys \<Longrightarrow> k < BLIM \<and> k \<notin> area st n"
    using i by (auto simp: image_ok_def homes_ok_def ys_def)
  have ws: "fst ` set ws \<subseteq> set ys"
    using set_take_subset [of m "installs (recovered st A) ys"] by (auto simp: ws_def installs_def)
  have B: "B = wrote A ws" by (simp add: B ws_def ys_def)
  have off: "B k = A k" if "k \<notin> set ys" for k
    unfolding B using ws that by (intro wrote_other) blast
  then show area: "B k = A k" if "k \<in> area st n" for k using h(3) that by blast
  have n0: "0 < n" using p by (simp add: place_ok_def)
  have e: "log_entries st B = ys" using area [OF lblk_area [OF n0]] by (simp add: log_entries_def ys_def)
  then show "log_entries st B = log_entries st A" by (simp add: ys_def)
  have r: "recovered st A (ys ! j) = A (lblk st (Suc j))" "recovered st B (ys ! j) = B (lblk st (Suc j))"
    if "j < length ys" for j
    using that h(1) recovered_nth [of st A j] recovered_nth [of st B j] e by (simp_all add: ys_def)
  have L: "length (recovered st A k) = BSIZE" if k: "k \<in> set ys" for k
  proof -
    obtain j where j: "j < length ys" "k = ys ! j" using k by (metis in_set_conv_nth)
    have "Suc j < n" using j(1) h(2) by simp
    then show ?thesis using r(1) [OF j(1)] j(2) lblk_lim [OF p] i by (simp add: image_ok_def)
  qed
  have "sized B" unfolding B
  proof (rule sized_wrote)
    show "sized A" using i by (simp add: image_ok_def sized_def)
    show "length (snd w) = BSIZE" if "w \<in> set ws" for w
      using in_set_takeD [OF that [unfolded ws_def]] L by (auto simp: installs_def)
  qed
  then show "image_ok st n B"
    using i e area [OF lblk_area [OF n0]] by (simp add: image_ok_def sized_def ys_def)
  show "recovered st B = recovered st A"
  proof
    fix k
    show "recovered st B k = recovered st A k"
    proof (cases "k \<in> set ys")
      case True
      then obtain j where j: "j < length ys" "k = ys ! j" by (metis in_set_conv_nth)
      have "Suc j < n" using j(1) h(2) by simp
      then show ?thesis using r [OF j(1)] j(2) area [OF lblk_area] by simp
    next
      case False
      then show ?thesis using recovered_other [of k st A] recovered_other [of k st B] e off by (simp add: ys_def)
    qed
  qed
qed

lemma empty_log:
  assumes "header_n (A (lblk st 0)) = 0"
  shows "log_entries st A = []" "recovered st A = A"
    "sized A \<Longrightarrow> 0 < n \<Longrightarrow> image_ok st n A"
proof -
  show e: "log_entries st A = []" using assms by (simp add: log_entries_def)
  then show "recovered st A = A" by (simp add: recovered_def fun_eq_iff)
  show "sized A \<Longrightarrow> 0 < n \<Longrightarrow> image_ok st n A" using assms e by (simp add: image_ok_def homes_ok_def sized_def)
qed

lemma log_writes_prefix:
  assumes h: "header_n (A (lblk st 0)) = 0" and p: "place_ok st n" and ys: "length ys < n"
    and s: "sized A" "\<forall>k \<in> set ys. length (V k) = BSIZE"
    and B: "B = wrote A (take m (log_writes st V ys))"
  shows "image_ok st n B" "recovered st B = B" "B (lblk st 0) = A (lblk st 0)" "k \<notin> area st n \<Longrightarrow> B k = A k" "sized B"
proof -
  define ws where "ws = take m (log_writes st V ys)"
  have ws: "\<exists>i < length ys. w = (lblk st (Suc i), V (ys ! i))" if "w \<in> set ws" for w
    using in_set_takeD [OF that [unfolded ws_def]] by (auto simp: log_writes_def)
  have B: "B = wrote A ws" by (simp add: B ws_def)
  have f: "\<exists>i. Suc i < n \<and> fst w = lblk st (Suc i) \<and> length (snd w) = BSIZE" if "w \<in> set ws" for w
  proof -
    from ws [OF that] obtain i where "i < length ys" "w = (lblk st (Suc i), V (ys ! i))" by blast
    then show ?thesis using ys s(2) by (intro exI [of _ i]) simp
  qed
  have n0: "0 < n" using p by (simp add: place_ok_def)
  have "lblk st 0 \<noteq> fst w" if w: "w \<in> set ws" for w
  proof -
    obtain i where "Suc i < n" "fst w = lblk st (Suc i)" using f [OF w] by blast
    then show ?thesis using lblk_inj [OF p n0, of "Suc i"] by simp
  qed
  then show z: "B (lblk st 0) = A (lblk st 0)" unfolding B by (intro wrote_other) blast
  have "fst w \<in> area st n" if "w \<in> set ws" for w using f [OF that] lblk_area by metis
  then show "B k = A k" if "k \<notin> area st n" unfolding B using that by (intro wrote_other) blast
  show "sized B" unfolding B using f s(1) by (intro sized_wrote) blast+
  then show "image_ok st n B" "recovered st B = B"
    using empty_log(2) [of B st] empty_log(3) [of B st n] h z n0 by simp_all
qed

section \<open>The loops\<close>

lemma bframe_log:
  assumes "bframe s t"
  shows "log_start t = log_start s" "log_size t = log_size s" "log_outstanding t = log_outstanding s"
    "log_committing t = log_committing s" "log_dev t = log_dev s" "lh_n t = lh_n s" "lh_block t = lh_block s"
  using assms by (cases s; cases t; simp add: bframe_def)+

lemma bread_bframe:
  assumes "bread d k s = Ok b t"
  shows "bframe s t"
proof -
  have "t = s\<lparr>bcache := bcache t\<rparr>"
    using assms by (auto simp: bread_def bget_def block_buf_def acquiresleep_def mypid_def upd_buf_def virtio_disk_rw_def
        bnd_eq_Ok simp del: bfind.simps bfree_find.simps split: option.splits if_splits)
  then show ?thesis by (metis bframe_cache(1))
qed

lemma log_block_lblk: "log_block s (int i) = lblk (log_start s) (Suc i)"
  by (simp add: log_block_def lblk_def algebra_simps)

lemma install_trans_loop_Suc:
  "install_trans_loop r i (Suc m) s =
     bnd (bnd (bread (log_dev s) (lblk (log_start s) (Suc i)) s) (\<lambda>a t. bnd (bread (log_dev s) (lh_block s ! i) t) (\<lambda>b s.
       bnd (bwrite b (set_bdata b (bdata a s) s)) (\<lambda>_ s.
       bnd (brelse a (if \<not> r then bunpin b s else s)) (\<lambda>_ s. brelse b s)))))
     (\<lambda>_ s. install_trans_loop r (Suc i) m s)"
  unfolding install_trans_loop.simps bnd_assoc Let_def log_block_lblk
  by (intro bnd_cong refl) (simp_all add: bframe_log [OF bread_bframe])

lemma write_log_loop_Suc:
  "write_log_loop i (Suc m) s =
     bnd (bnd (bread (log_dev s) (lblk (log_start s) (Suc i)) s) (\<lambda>a t. bnd (bread (log_dev s) (lh_block s ! i) t) (\<lambda>b s.
       bnd (bwrite a (set_bdata a (bdata b s) s)) (\<lambda>_ s.
       bnd (brelse b s) (\<lambda>_ s. brelse a s)))))
     (\<lambda>_ s. write_log_loop (Suc i) m s)"
  unfolding write_log_loop.simps bnd_assoc Let_def log_block_lblk
  by (intro bnd_cong refl) (simp_all add: bframe_log [OF bread_bframe])

text \<open>
  \<open>disk_effect s ws t\<close>: between \<open>s\<close> and \<open>t\<close> exactly the block writes \<open>ws\<close> went to the disk;
  \<open>effect\<close> adds that nothing outside the cache changed.
\<close>

definition disk_effect :: "'z klog_scheme \<Rightarrow> (u32 \<times> block) list \<Rightarrow> 'z klog_scheme \<Rightarrow> bool" where
  "disk_effect s ws t \<longleftrightarrow> dv (disk t) = wrote (dv (disk s)) ws
     \<and> map dv (disk_hist t) = rev (images (dv (disk s)) ws) @ map dv (disk_hist s)"

definition effect :: "'z klog_scheme \<Rightarrow> (u32 \<times> block) list \<Rightarrow> 'z klog_scheme \<Rightarrow> bool" where
  "effect s ws t \<longleftrightarrow> dv (disk t) = wrote (dv (disk s)) ws
     \<and> map dv (disk_hist t) = rev (images (dv (disk s)) ws) @ map dv (disk_hist s) \<and> bframe s t"

lemma effect_nil [simp]: "effect s [] s"
  by (simp add: effect_def)

lemma effect_one:
  "dv (disk t) = (dv (disk s))(k := v) \<Longrightarrow> map dv (disk_hist t) = dv (disk s) # map dv (disk_hist s) \<Longrightarrow>
   bframe s t \<Longrightarrow> effect s [(k, v)] t"
  by (simp add: effect_def)

lemma effect_trans: "effect s ws t \<Longrightarrow> effect t vs u \<Longrightarrow> effect s (ws @ vs) u"
  by (auto simp: effect_def intro: bframe_trans)

lemma log_room: "place_ok st n \<Longrightarrow> length ys < n \<Longrightarrow> card (insert lb (set (drop i ys))) \<le> NBUF"
proof -
  assume a: "place_ok st n" "length ys < n"
  have "card (insert lb (set (drop i ys))) \<le> Suc (card (set (drop i ys)))" by (rule card_insert_le_m1) simp_all
  also have "\<dots> \<le> Suc (length ys)" using card_length [of "drop i ys"] by simp
  also have "\<dots> \<le> NBUF" using a by (simp add: place_ok_def kconst)
  finally show ?thesis .
qed

lemma install_loop:
  assumes "cache_ok d (if r then {} else set (drop i ys)) {} s" "log_dev s = d" "log_start s = st"
    "place_ok st n" "homes_ok st n ys" "\<And>j. j < length ys \<Longrightarrow> lh_block s ! j = ys ! j" "i + m = length ys"
    "\<And>j. i \<le> j \<Longrightarrow> j < length ys \<Longrightarrow> dv (disk s) (lblk st (Suc j)) = R (ys ! j)"
  shows "\<exists>t. install_trans_loop r i m s = Ok () t \<and> cache_ok d {} {} t \<and> effect s (installs R (drop i ys)) t"
  using assms
proof (induction m arbitrary: i s)
  case 0
  then have "drop i ys = []" by simp
  with 0 show ?case by (simp add: installs_def split: if_splits)
next
  case (Suc m)
  let ?P = "if r then {} else set (drop i ys)" and ?lb = "lblk st (Suc i)"
  define k where "k = ys ! i"
  have len: "i < length ys" "length ys < n" "Suc i < n" "distinct ys"
    using Suc.prems(5,7) by (simp_all add: homes_ok_def)
  have dr: "drop i ys = k # drop (Suc i) ys" using len by (simp add: k_def Cons_nth_drop_Suc)
  have home: "k < BLIM" "k \<notin> area st n" "\<And>j. j \<in> set ys \<Longrightarrow> j \<notin> area st n"
    using Suc.prems(5) len(1) by (auto simp: homes_ok_def k_def)
  have lb: "?lb < BLIM" "?lb \<in> area st n" using lblk_lim [OF Suc.prems(4) len(3)] lblk_area [OF len(3)] by simp_all
  have ne: "k \<noteq> ?lb" using home lb by blast
  have P: "?lb \<notin> ?P" using home lb by (auto dest: in_set_dropD)
  have rk: "r \<longleftrightarrow> k \<notin> ?P" using dr by simp
  have room: "card (insert k (insert ?lb ?P)) \<le> NBUF"
  proof (cases r)
    case False
    then have "insert k (insert ?lb ?P) = insert ?lb (set (drop i ys))" using dr by auto
    then show ?thesis using log_room [OF Suc.prems(4) len(2)] by simp
  qed (use ne in \<open>simp add: kconst\<close>)
  from bc.install_one_block [OF Suc.prems(1) lb(1) home(1) ne P rk room] obtain t where
    t: "bnd (bread d ?lb s) (\<lambda>a s. bnd (bread d k s) (\<lambda>b s. bnd (bwrite b (set_bdata b (bdata a s) s)) (\<lambda>_ s.
      bnd (brelse a (if \<not> r then bunpin b s else s)) (\<lambda>_ s. brelse b s)))) = Ok () t"
    "cache_ok d (?P - {k}) {} t" "dv (disk t) = (dv (disk s))(k := lv d s ?lb)"
    "map dv (disk_hist t) = dv (disk s) # map dv (disk_hist s)" "bframe s t" by (elim exE conjE) (rule that)
  have v: "lv d s ?lb = R k"
    using lv_clean [OF Suc.prems(1) lb(1)] P Suc.prems(8) [of i] len(1) by (simp add: k_def)
  have lk: "lh_block s ! i = k" using Suc.prems(6) [OF len(1)] by (simp add: k_def)
  have "?P - {k} = (if r then {} else set (drop (Suc i) ys))"
    using dr len(4) distinct_drop [of ys i] by auto
  with t(2) have c: "cache_ok d (if r then {} else set (drop (Suc i) ys)) {} t" by simp
  note F = bframe_log [OF t(5)]
  have "\<exists>u. install_trans_loop r (Suc i) m t = Ok () u \<and> cache_ok d {} {} u \<and> effect t (installs R (drop (Suc i) ys)) u"
  proof (rule Suc.IH [OF c])
    show "dv (disk t) (lblk st (Suc j)) = R (ys ! j)" if "Suc i \<le> j" "j < length ys" for j
    proof -
      have "lblk st (Suc j) \<noteq> k" using home(2) lblk_area [of "Suc j" n st] that len(2) by auto
      then show ?thesis using Suc.prems(8) [of j] that t(3) by simp
    qed
  qed (use Suc.prems(2-7) F in simp_all)
  then obtain u where u: "install_trans_loop r (Suc i) m t = Ok () u" "cache_ok d {} {} u"
    "effect t (installs R (drop (Suc i) ys)) u" by blast
  have "effect s (installs R (drop i ys)) u"
    using effect_trans [OF effect_one [OF t(3-5)] u(3)] v by (simp add: dr installs_def)
  moreover have "install_trans_loop r i (Suc m) s = Ok () u"
    unfolding install_trans_loop_Suc using t(1) u(1) Suc.prems(2,3) lk by simp
  ultimately show ?case using u(2) by blast
qed

lemma write_log_loop_spec:
  assumes "cache_ok d (set ys) {} s" "log_dev s = d" "log_start s = st"
    "place_ok st n" "homes_ok st n ys" "\<And>j. j < length ys \<Longrightarrow> lh_block s ! j = ys ! j" "i + m = length ys"
  shows "\<exists>t. write_log_loop i m s = Ok () t \<and> cache_ok d (set ys) {} t
    \<and> effect s (drop i (log_writes st (lv d s) ys)) t \<and> (\<forall>k. k \<notin> area st n \<longrightarrow> lv d t k = lv d s k)"
  using assms
proof (induction m arbitrary: i s)
  case 0
  then have "drop i (log_writes st (lv d s) ys) = []" by (simp add: log_writes_def)
  with 0 show ?case by simp
next
  case (Suc m)
  let ?lb = "lblk st (Suc i)"
  define k where "k = ys ! i"
  have len: "i < length ys" "length ys < n" "Suc i < n" using Suc.prems(5,7) by (simp_all add: homes_ok_def)
  have home: "k \<in> set ys" "k < BLIM" "\<And>j. j \<in> set ys \<Longrightarrow> j \<notin> area st n"
    using Suc.prems(5) len(1) by (auto simp: homes_ok_def k_def)
  have lb: "?lb < BLIM" "?lb \<in> area st n" using lblk_lim [OF Suc.prems(4) len(3)] lblk_area [OF len(3)] by simp_all
  have P: "?lb \<notin> set ys" using home lb by auto
  have room: "card (insert ?lb (set ys)) \<le> NBUF" using log_room [OF Suc.prems(4) len(2), of _ 0] by simp
  from bc.log_one_block [OF Suc.prems(1) lb(1) home(2,1) P room] obtain t where
    t: "bnd (bread d ?lb s) (\<lambda>a s. bnd (bread d k s) (\<lambda>b s. bnd (bwrite a (set_bdata a (bdata b s) s)) (\<lambda>_ s.
      bnd (brelse b s) (\<lambda>_ s. brelse a s)))) = Ok () t"
    "cache_ok d (set ys) {} t" "lv d t = (lv d s)(?lb := lv d s k)" "dv (disk t) = (dv (disk s))(?lb := lv d s k)"
    "map dv (disk_hist t) = dv (disk s) # map dv (disk_hist s)" "bframe s t" by (elim exE conjE) (rule that)
  note F = bframe_log [OF t(6)]
  have l: "lv d t j = lv d s j" if "j \<notin> area st n" for j using that lb(2) t(3) by auto
  have "log_writes st (lv d t) ys = log_writes st (lv d s) ys"
    using l home(3) by (simp add: log_writes_def)
  moreover obtain u where u: "write_log_loop (Suc i) m t = Ok () u" "cache_ok d (set ys) {} u"
    "effect t (drop (Suc i) (log_writes st (lv d t) ys)) u" "\<And>j. j \<notin> area st n \<Longrightarrow> lv d u j = lv d t j"
    using Suc.IH [OF t(2), of "Suc i"] Suc.prems(2-7) F by auto
  moreover have "drop i (log_writes st (lv d s) ys) = (?lb, lv d s k) # drop (Suc i) (log_writes st (lv d s) ys)"
    using len(1) Cons_nth_drop_Suc [of i "log_writes st (lv d s) ys", symmetric] by (simp add: log_writes_def k_def)
  ultimately have "effect s (drop i (log_writes st (lv d s) ys)) u"
    using effect_trans [OF effect_one [OF t(4-6)] u(3)] by simp
  moreover have "lh_block s ! i = k" using Suc.prems(6) [OF len(1)] by (simp add: k_def)
  then have "write_log_loop i (Suc m) s = Ok () u"
    unfolding write_log_loop_Suc using t(1) u(1) Suc.prems(2,3) by simp
  ultimately show ?case using u(2,4) l by auto
qed

lemma write_head_spec:
  assumes c: "cache_ok d (set ps) {} s" "log_dev s = d" "log_start s = st" and p: "place_ok st n"
    and ps: "homes_ok st n ps" and ys: "lh_n s = int (length ys)" "take (length ys) (lh_block s) = ys" "length ys \<le> LOGSIZE"
    and h: "dv (disk s) (lblk st 0) = v"
  shows "\<exists>t. write_head s = Ok () t \<and> cache_ok d (set ps) {} t \<and> effect s [(lblk st 0, head_of ys v)] t
    \<and> (\<forall>k. k \<noteq> lblk st 0 \<longrightarrow> lv d t k = lv d s k)"
proof -
  let ?h = "lblk st 0"
  have n: "0 < n" "length ps < n" using p ps by (simp_all add: place_ok_def homes_ok_def)
  have hd: "?h < BLIM" "?h \<notin> set ps" "card (insert ?h (set ps)) \<le> NBUF"
    using lblk_lim [OF p n(1)] lblk_area [OF n(1), of st] ps log_room [OF p n(2), of _ 0] by (auto simp: homes_ok_def)
  have v: "lv d s ?h = v" using lv_clean [OF c(1) hd(1)] hd(2) h by simp
  have f: "length (head_of ys w) = BSIZE" if "length w = BSIZE" for w using head_of(1) [OF ys(3) that] .
  obtain t where
    t: "bnd (bread d ?h s) (\<lambda>b s. bnd (bwrite b (set_bdata b (head_of ys (bdata b s)) s)) (\<lambda>_ s. brelse b s)) = Ok () t"
    "cache_ok d (set ps) {} t" "lv d t = (lv d s)(?h := head_of ys (lv d s ?h))"
    "dv (disk t) = (dv (disk s))(?h := head_of ys (lv d s ?h))"
    "map dv (disk_hist t) = dv (disk s) # map dv (disk_hist s)" "bframe s t" 
    by (rule exE [OF bc.update_block [where f = "head_of ys", OF c(1) hd]], rule f, assumption, elim conjE, rule that)
  have "write_head s = bnd (bread d ?h s) (\<lambda>b s. bnd (bwrite b (set_bdata b (head_of ys (bdata b s)) s)) (\<lambda>_ s. brelse b s))"
    unfolding write_head_def Let_def using c(2,3) ys(1,2)
    by (intro bnd_cong refl) (simp_all add: lblk_def bframe_log [OF bread_bframe] head_of_def)
  then show ?thesis using t effect_one [OF t(4-6)] v by auto
qed

text \<open>The fields of the log are not part of the cache.\<close>

lemma log_fields_buf_at [simp]:
  "buf_at d (s\<lparr>lh_n := x\<rparr>) = buf_at d s" "buf_at d (s\<lparr>lh_block := y\<rparr>) = buf_at d s"
  "buf_at d (s\<lparr>log_committing := z\<rparr>) = buf_at d s" "buf_at d (s\<lparr>log_outstanding := n\<rparr>) = buf_at d s"
  by (simp_all add: fun_eq_iff buf_at_def)

lemma log_fields_cache [simp]:
  "cache_ok d P H (s\<lparr>lh_n := x\<rparr>) = cache_ok d P H s" "cache_ok d P H (s\<lparr>lh_block := y\<rparr>) = cache_ok d P H s"
  "cache_ok d P H (s\<lparr>log_committing := z\<rparr>) = cache_ok d P H s" "cache_ok d P H (s\<lparr>log_outstanding := n\<rparr>) = cache_ok d P H s"
  "lv d (s\<lparr>lh_n := x\<rparr>) = lv d s" "lv d (s\<lparr>lh_block := y\<rparr>) = lv d s"
  "lv d (s\<lparr>log_committing := z\<rparr>) = lv d s" "lv d (s\<lparr>log_outstanding := n\<rparr>) = lv d s"
  by (auto simp: cache_ok_def running_def cur_pid_def myproc_def mycpu_def lv_def bdata_def split: option.split)

lemma read_head_spec:
  assumes c: "cache_ok d {} {} s" "log_dev s = d" "log_start s = st" and p: "place_ok st n"
    and i: "image_ok st n (dv (disk s))" and l: "length (lh_block s) = LOGSIZE"
    and ys: "ys = log_entries st (dv (disk s))"
  shows "\<exists>t. read_head s = Ok () t \<and> cache_ok d {} {} t \<and> disk t = disk s \<and> disk_hist t = disk_hist s
    \<and> lh_n t = int (length ys) \<and> (\<forall>j < length ys. lh_block t ! j = ys ! j)
    \<and> length (lh_block t) = LOGSIZE \<and> log_dev t = d \<and> log_start t = st \<and> log_size t = log_size s"
proof -
  let ?h = "lblk st 0" and ?A = "dv (disk s)"
  have n: "0 < n" "n \<le> LOGSIZE" using p by (simp_all add: place_ok_def)
  from bread_served [OF c(1) lblk_lim [OF p n(1)]] obtain b t where
    t: "bread d ?h s = Ok b t" "served d {} {} s ?h b t" by (auto simp: kconst)
  have s: "cache_ok d {} {?h} t" "buf_at d t ?h b" "lv d t = lv d s" "disk t = disk s" "disk_hist t = disk_hist s"
    using t(2) by (simp_all add: served_def)
  have v: "lv d s ?h = ?A ?h" using lv_clean [OF c(1) lblk_lim [OF p n(1)]] by simp
  then have bd: "bdata b t = ?A ?h" using lv_cached [OF s(1,2)] s(3) by simp
  have yl: "0 \<le> header_n (?A ?h)" "length ys = nat (header_n (?A ?h))" "length ys < n"
    "\<And>j. j < length ys \<Longrightarrow> ys ! j = header_block j (?A ?h)"
    using i by (simp_all add: image_ok_def homes_ok_def ys log_entries_def)
  note F = bframe_log [OF bread_bframe [OF t(1)]]
  define u where "u = t\<lparr>lh_n := header_n (?A ?h), lh_block := mapi (\<lambda>i old.
    if int i < header_n (?A ?h) then header_block i (?A ?h) else old) (lh_block t)\<rparr>"
  have u: "cache_ok d {} {?h} u" "buf_at d u ?h b" "lv d u ?h = dv (disk u) ?h" "disk u = disk s" "disk_hist u = disk_hist s"
    using s v by (simp_all add: u_def)
  from brelse_spec [OF u(1,2)] u(3) obtain w where w: "brelse b u = Ok () w" "cache_ok d {} {} w" "disk w = disk u"
    "disk_hist w = disk_hist u" "bframe u w" by auto
  note G = bframe_log [OF w(5)]
  have hn: "\<not> int LOGSIZE < header_n (?A ?h)" "\<And>j. j < length ys \<Longrightarrow> int j < header_n (?A ?h)"
    using yl(1-3) n(2) by linarith+
  have "word_of_int (log_start s) = ?h" by (simp add: lblk_def c(3))
  then have "read_head s = Ok () w"
    unfolding read_head_def c(2) using t(1) w(1) bd hn(1) by (simp add: Let_def u_def)
  moreover have "lh_n w = int (length ys)" using G(6) yl(1,2) by (simp add: u_def)
  moreover have "lh_block w ! j = ys ! j" if "j < length ys" for j
    using G(7) yl(4) [OF that] hn(2) [OF that] that yl(3) n(2) l F(7) by (simp add: u_def)
  moreover have "length (lh_block w) = LOGSIZE" "log_dev w = d" "log_start w = st" "log_size w = log_size s"
    using G F l c by (simp_all add: u_def)
  ultimately show ?thesis using w u by auto
qed

section \<open>Transactions\<close>

definition logged :: "'z klog_scheme \<Rightarrow> u32 list" where
  "logged s = take (nat (lh_n s)) (lh_block s)"

text \<open>
  The state of the log between two commits: the blocks in \<open>lh_block\<close> are pinned, the header on
  disk is empty, \<open>H\<close> are the blocks whose buffers the running process holds.
\<close>

definition log_ok :: "u32 \<Rightarrow> u32 set \<Rightarrow> 'z klog_scheme \<Rightarrow> bool" where
  "log_ok d H s \<longleftrightarrow> log_dev s = d \<and> length (lh_block s) = LOGSIZE \<and> 0 \<le> lh_n s
     \<and> place_ok (log_start s) (nat (log_size s))
     \<and> homes_ok (log_start s) (nat (log_size s)) (logged s) \<and> lh_n s < log_size s
     \<and> cache_ok d (set (logged s)) H s
     \<and> header_n (dv (disk s) (lblk (log_start s) 0)) = 0"

text \<open>The disk images between \<open>s\<close> and \<open>t\<close>, which are those a crash may leave.\<close>

definition crash_images :: "'z klog_scheme \<Rightarrow> 'z klog_scheme \<Rightarrow> image set" where
  "crash_images s t =
     insert (dv (disk t)) (set (map dv (take (length (disk_hist t) - length (disk_hist s)) (disk_hist t))))"

lemma crash_images_effect:
  assumes "disk_effect s ws t" "B \<in> crash_images s t"
  shows "\<exists>n \<le> length ws. B = wrote (dv (disk s)) (take n ws)"
proof -
  have e: "dv (disk t) = wrote (dv (disk s)) ws" "map dv (disk_hist t) = rev (images (dv (disk s)) ws) @ map dv (disk_hist s)"
    using assms(1) by (simp_all add: disk_effect_def)
  have l: "length (disk_hist t) - length (disk_hist s) = length ws"
    using arg_cong [OF e(2), of length] by simp
  have "map dv (take (length ws) (disk_hist t)) = rev (images (dv (disk s)) ws)"
    using e(2) by (simp add: take_map [symmetric])
  then consider "B = wrote (dv (disk s)) ws" | "B \<in> set (images (dv (disk s)) ws)"
    using assms(2) e(1) by (auto simp: crash_images_def l)
  then show ?thesis
  proof cases
    case 1
    then show ?thesis by (intro exI [of _ "length ws"]) simp
  next
    case 2
    from images_prefix [OF this] show ?thesis by blast
  qed
qed

text \<open>The writes of \<open>commit\<close>: the log, the header, the home blocks, the empty header.\<close>

definition commit_writes :: "int \<Rightarrow> image \<Rightarrow> image \<Rightarrow> u32 list \<Rightarrow> (u32 \<times> block) list" where
  "commit_writes st A V ys = log_writes st V ys @ (lblk st 0, head_of ys (A (lblk st 0))) # installs V ys
     @ [(lblk st 0, head_of [] (head_of ys (A (lblk st 0))))]"

text \<open>The image at the commit point.\<close>

definition committed :: "int \<Rightarrow> image \<Rightarrow> image \<Rightarrow> u32 list \<Rightarrow> image" where
  "committed st A V ys = (wrote A (log_writes st V ys))(lblk st 0 := head_of ys (A (lblk st 0)))"

lemma committed_spec:
  assumes h: "header_n (A (lblk st 0)) = 0" and p: "place_ok st n" and ys: "homes_ok st n ys"
    and s: "sized A" "\<forall>k \<in> set ys. length (V k) = BSIZE"
  shows "image_ok st n (committed st A V ys)" "log_entries st (committed st A V ys) = ys"
    "committed st A V ys (lblk st 0) = head_of ys (A (lblk st 0))"
    "j < length ys \<Longrightarrow> committed st A V ys (lblk st (Suc j)) = V (ys ! j)"
    "k \<notin> area st n \<Longrightarrow> committed st A V ys k = A k"
proof -
  let ?C = "committed st A V ys" and ?W = "wrote A (log_writes st V ys)" and ?h = "lblk st 0"
  have n: "0 < n" "length ys < n" "length ys \<le> LOGSIZE" using p ys by (auto simp: place_ok_def homes_ok_def)
  have W: "sized ?W" "\<And>k. k \<notin> area st n \<Longrightarrow> ?W k = A k"
    using log_writes_prefix(4,5) [OF h p n(2) s refl, where m = "length (log_writes st V ys)"] by simp_all
  have vl: "length (A ?h) = BSIZE" using s(1) lblk_lim [OF p n(1)] by (simp add: sized_def)
  note H = head_of [OF n(3) vl]
  show c0: "?C ?h = head_of ys (A ?h)" by (simp add: committed_def)
  show e: "log_entries st ?C = ys" using c0 H by (auto simp: log_entries_def intro: nth_equalityI)
  have "sized ?C" using W(1) H(1) by (auto simp: sized_def committed_def)
  then show "image_ok st n ?C" using e ys c0 H by (simp add: image_ok_def sized_def)
  show "?C k = A k" if "k \<notin> area st n" using W(2) that lblk_area [OF n(1)] by (auto simp: committed_def)
  show "?C (lblk st (Suc j)) = V (ys ! j)" if "j < length ys"
  proof -
    have "distinct (map fst (log_writes st V ys))"
      unfolding log_writes_def distinct_map using lblk_inj [OF p] n(2) by (auto simp: inj_on_def)
    moreover have "(lblk st (Suc j), V (ys ! j)) \<in> set (log_writes st V ys)" using that by (auto simp: log_writes_def)
    ultimately have "?W (lblk st (Suc j)) = V (ys ! j)" by (rule wrote_in)
    moreover have "lblk st (Suc j) \<noteq> ?h" using lblk_inj [OF p, of "Suc j" 0] that n by simp
    ultimately show ?thesis by (simp add: committed_def)
  qed
qed

lemma committed_recovered:
  assumes h: "header_n (A (lblk st 0)) = 0" and p: "place_ok st n" and ys: "homes_ok st n ys"
    and s: "sized A" "\<forall>k \<in> set ys. length (V k) = BSIZE"
    and V: "\<And>k. k \<notin> area st n \<Longrightarrow> k \<notin> set ys \<Longrightarrow> V k = A k"
  shows "k \<notin> area st n \<Longrightarrow> recovered st (committed st A V ys) k = V k"
    "installs (recovered st (committed st A V ys)) ys = installs V ys"
proof -
  note C = committed_spec [OF h p ys s]
  have d: "distinct ys" using ys by (simp add: homes_ok_def)
  have r: "recovered st (committed st A V ys) k = V k" if "k \<in> set ys" for k
    using that recovered_nth [of st "committed st A V ys"] C(2,4) d by (auto simp: in_set_conv_nth)
  then show "installs (recovered st (committed st A V ys)) ys = installs V ys" by (simp add: installs_def)
  show "recovered st (committed st A V ys) k = V k" if "k \<notin> area st n"
  proof (cases "k \<in> set ys")
    case False
    then show ?thesis using recovered_other [of k st "committed st A V ys"] C(2,5) that V by simp
  qed (rule r)
qed

lemma wrote_header:
  assumes "sized A" "place_ok st n" "0 < n"
  shows "header_n ((A(lblk st 0 := head_of [] (A (lblk st 0)))) (lblk st 0)) = 0"
    "sized (A(lblk st 0 := head_of [] (A (lblk st 0))))"
    "k \<notin> area st n \<Longrightarrow> (A(lblk st 0 := head_of [] (A (lblk st 0)))) k = A k"
proof -
  have "length (A (lblk st 0)) = BSIZE" using assms lblk_lim [OF assms(2,3)] by (simp add: sized_def)
  note H = head_of [of "[]", OF _ this]
  show "header_n ((A(lblk st 0 := head_of [] (A (lblk st 0)))) (lblk st 0)) = 0" using H by simp
  show "sized (A(lblk st 0 := head_of [] (A (lblk st 0))))" using H assms by (simp add: sized_def)
  show "k \<notin> area st n \<Longrightarrow> (A(lblk st 0 := head_of [] (A (lblk st 0)))) k = A k"
    using lblk_area [OF assms(3), of st] by auto
qed

text \<open>
  The two halves of the argument: a crash before the header is written leaves the old contents,
  a crash after it the new contents, whether or not the home blocks are installed.
\<close>

definition log_frame :: "int \<Rightarrow> nat \<Rightarrow> image \<Rightarrow> image \<Rightarrow> u32 list \<Rightarrow> bool" where
  "log_frame st n A V ys \<longleftrightarrow> header_n (A (lblk st 0)) = 0 \<and> place_ok st n \<and> homes_ok st n ys \<and> sized A
     \<and> (\<forall>k \<in> set ys. length (V k) = BSIZE) \<and> (\<forall>k. k \<notin> area st n \<longrightarrow> k \<notin> set ys \<longrightarrow> V k = A k)"

lemma log_frameD:
  assumes "log_frame st n A V ys"
  shows "header_n (A (lblk st 0)) = 0" "place_ok st n" "homes_ok st n ys" "sized A"
    "\<forall>k \<in> set ys. length (V k) = BSIZE" "\<And>k. k \<notin> area st n \<Longrightarrow> k \<notin> set ys \<Longrightarrow> V k = A k"
    "0 < n" "length ys < n" "distinct ys" "length (log_writes st V ys) = length ys" "length (installs V ys) = length ys"
    "length (commit_writes st A V ys) = Suc (length ys + Suc (length ys))"
  using assms by (auto simp: log_frame_def place_ok_def homes_ok_def commit_writes_def log_writes_def installs_def)

lemma commit_before:
  assumes f: "log_frame st n A V ys" and m: "m \<le> length ys" and B: "B = wrote A (take m (commit_writes st A V ys))"
  shows "image_ok st n B" "k \<notin> area st n \<Longrightarrow> recovered st B k = A k"
proof -
  note F = log_frameD [OF f]
  have "B = wrote A (take m (log_writes st V ys))" using m by (simp add: B commit_writes_def F(10))
  from log_writes_prefix [OF F(1,2,8,4,5) this]
  show "image_ok st n B" "k \<notin> area st n \<Longrightarrow> recovered st B k = A k" by simp_all
qed

lemma commit_installing:
  assumes f: "log_frame st n A V ys" and B: "B = wrote (committed st A V ys) (take i (installs V ys))"
  shows "image_ok st n B" "k \<notin> area st n \<Longrightarrow> recovered st B k = V k" "B (lblk st 0) = committed st A V ys (lblk st 0)"
proof -
  note F = log_frameD [OF f]
  note C = committed_spec [OF F(1-5)] and R = committed_recovered [OF F(1-6)]
  have B: "B = wrote (committed st A V ys) (take i (installs (recovered st (committed st A V ys)) (log_entries st (committed st A V ys))))"
    using B C(2) R(2) by simp
  note I = installs_prefix [OF C(1) F(2) B]
  show "image_ok st n B" "B (lblk st 0) = committed st A V ys (lblk st 0)" using I(1,4) lblk_area [OF F(7)] by simp_all
  show "k \<notin> area st n \<Longrightarrow> recovered st B k = V k" using I(2) R(1) by simp
qed

lemma commit_done:
  assumes f: "log_frame st n A V ys" and B: "B = wrote A (commit_writes st A V ys)"
  shows "image_ok st n B" "recovered st B = B" "header_n (B (lblk st 0)) = 0" "k \<notin> area st n \<Longrightarrow> B k = V k"
proof -
  note F = log_frameD [OF f]
  note C = committed_spec [OF F(1-5)]
  define D where "D = wrote (committed st A V ys) (installs V ys)"
  have D: "image_ok st n D" "D (lblk st 0) = committed st A V ys (lblk st 0)"
    using commit_installing [OF f, where i = "length ys", OF refl] F(11) by (simp_all add: D_def)
  have dk: "D k = V k" if "k \<notin> area st n" for k
    unfolding D_def installs_all [OF F(9)] using C(5) [OF that] F(6) [OF that] by simp
  have B: "B = D(lblk st 0 := head_of [] (D (lblk st 0)))"
    using C(3) D(2) by (simp add: B commit_writes_def committed_def D_def)
  have "sized D" using D(1) by (simp add: image_ok_def sized_def)
  note W = wrote_header [OF this F(2,7), folded B]
  show "header_n (B (lblk st 0)) = 0" by (rule W(1))
  show "image_ok st n B" "recovered st B = B" 
    using empty_log(2,3) [where A = B, OF W(1)] W(2) F(7) by simp_all
  show "B k = V k" if "k \<notin> area st n" using W(3) [OF that] dk [OF that] by simp
qed

lemma commit_images:
  assumes f: "log_frame st n A V ys" and B: "B = wrote A (take m (commit_writes st A V ys))" "m \<le> length (commit_writes st A V ys)"
  shows "image_ok st n B \<and> ((\<forall>k. k \<notin> area st n \<longrightarrow> recovered st B k = A k) \<or> (\<forall>k. k \<notin> area st n \<longrightarrow> recovered st B k = V k))"
proof -
  note F = log_frameD [OF f]
  consider "m \<le> length ys" | i where "m = Suc (length ys + i)" "i \<le> length ys" | "m = length (commit_writes st A V ys)"
  proof -
    have "m \<le> length ys \<or> (\<exists>i \<le> length ys. m = Suc (length ys + i)) \<or> m = length (commit_writes st A V ys)"
      using B(2) unfolding F(12) by presburger
    then show ?thesis using that by blast
  qed
  then show ?thesis
  proof cases
    case 1
    then show ?thesis using commit_before [OF f 1 B(1)] by blast
  next
    case (2 i)
    then have "B = wrote (committed st A V ys) (take i (installs V ys))"
      by (simp add: B(1) commit_writes_def F(10,11) committed_def)
    from commit_installing [OF f this] show ?thesis by blast
  next
    case 3
    then have "B = wrote A (commit_writes st A V ys)" using B(1) by simp
    from commit_done [OF f this] show ?thesis by simp
  qed
qed

lemma log_ok_frame:
  assumes "log_ok d {} s"
  shows "log_frame (log_start s) (nat (log_size s)) (dv (disk s)) (lv d s) (logged s)"
proof -
  have c: "cache_ok d (set (logged s)) {} s" using assms by (simp add: log_ok_def)
  have "sized (dv (disk s))" using cache_okD(7) [OF c] by (simp add: sized_def dv_def)
  moreover have "\<forall>k \<in> set (logged s). length (lv d s k) = BSIZE"
    using assms lv_length [OF c] by (simp add: log_ok_def homes_ok_def)
  ultimately show ?thesis using assms lv_clean_all [OF c] by (simp add: log_frame_def log_ok_def)
qed

lemma effect_lh_n: "effect (s\<lparr>lh_n := x\<rparr>) ws t \<longleftrightarrow> effect s ws (t\<lparr>lh_n := lh_n s\<rparr>) \<and> lh_n t = x"
  by (cases s; cases t) (auto simp: effect_def bframe_def)

lemma commit_effect:
  assumes ok: "log_ok d {} s" and n: "0 < lh_n s"
  shows "\<exists>t. commit s = Ok () t \<and> cache_ok d {} {} t
    \<and> effect (s\<lparr>lh_n := 0\<rparr>) (commit_writes (log_start s) (dv (disk s)) (lv d s) (logged s)) t"
proof -
  let ?st = "log_start s" and ?n = "nat (log_size s)" and ?A = "dv (disk s)" and ?V = "lv d s" and ?ys = "logged s"
  let ?h = "lblk ?st 0"
  note F = log_frameD [OF log_ok_frame [OF ok]]
  note C = committed_spec [OF F(1-5)]
  have s: "log_dev s = d" "length (lh_block s) = LOGSIZE" "cache_ok d (set ?ys) {} s" using ok by (simp_all add: log_ok_def)
  have ys: "lh_n s = int (length ?ys)" "length ?ys \<le> LOGSIZE" "take (length ?ys) (lh_block s) = ?ys"
    using ok F(2,8) by (auto simp: log_ok_def logged_def place_ok_def min_def)
  have nth: "lh_block s ! j = ?ys ! j" if "j < length ?ys" for j using that by (simp add: logged_def)
  obtain t1 where 1: "write_log_loop 0 (length ?ys) s = Ok () t1" "cache_ok d (set ?ys) {} t1"
    "effect s (log_writes ?st ?V ?ys) t1"
    using write_log_loop_spec [OF s(3,1) refl F(2,3) nth, of 0 "length ?ys"] by auto
  note E1 = bframe_log [OF conjunct2 [OF conjunct2 [OF 1(3) [unfolded effect_def]]]]
  have h1: "dv (disk t1) ?h = ?A ?h" using 1(3) log_writes_prefix(3) [OF F(1,2,8,4,5), where m = "length ?ys", OF refl] F(10)
    by (simp add: effect_def)
  obtain t2 where 2: "write_head t1 = Ok () t2" "cache_ok d (set ?ys) {} t2" "effect t1 [(?h, head_of ?ys (?A ?h))] t2"
    using write_head_spec [OF 1(2) _ _ F(2,3) _ _ ys(2) h1] E1 s(1) ys by auto
  note E2 = bframe_log [OF conjunct2 [OF conjunct2 [OF 2(3) [unfolded effect_def]]]]
  have A2: "dv (disk t2) = committed ?st ?A ?V ?ys" using 1(3) 2(3) by (simp add: effect_def committed_def)
  obtain t3 where 3: "install_trans_loop False 0 (length ?ys) t2 = Ok () t3" "cache_ok d {} {} t3" "effect t2 (installs ?V ?ys) t3"
    using install_loop [where r = False and i = 0 and ys = ?ys and m = "length ?ys" and R = ?V, OF _ _ refl _ _ _ _ , of d t2 ?n]
      2(2) E1 E2 s(1) F(2,3) nth A2 C(4) by auto
  note E3 = bframe_log [OF conjunct2 [OF conjunct2 [OF 3(3) [unfolded effect_def]]]]
  have A3: "dv (disk t3) ?h = head_of ?ys (?A ?h)"
    using commit_installing(3) [OF log_ok_frame [OF ok], where i = "length ?ys", OF refl] A2 3(3) C(3) F(11) by (simp add: effect_def)
  obtain t4 where 4: "write_head (t3\<lparr>lh_n := 0\<rparr>) = Ok () t4" "cache_ok d {} {} t4"
    "effect (t3\<lparr>lh_n := 0\<rparr>) [(?h, head_of [] (head_of ?ys (?A ?h)))] t4"
    using write_head_spec [where ps = "[]" and ys = "[]" and s = "t3\<lparr>lh_n := 0\<rparr>" and d = d, OF _ _ refl _ _ _ _ _ refl, of ?n]
      3(2) E1 E2 E3 s(1) F(2,7) A3 by (auto simp: homes_ok_def)
  have "effect s (commit_writes ?st ?A ?V ?ys) (t4\<lparr>lh_n := lh_n s\<rparr>) \<and> lh_n t4 = 0"
    using effect_trans [OF 1(3) effect_trans [OF 2(3) effect_trans [OF 3(3), of _ "t4\<lparr>lh_n := lh_n s\<rparr>"]]] 4(3) E1 E2 E3
    by (simp add: commit_writes_def effect_lh_n)
  moreover have "commit s = Ok () t4"
    using n 1(1) 2(1) 3(1) 4(1) ys(1) E1 E2 by (simp add: commit_def write_log_def install_trans_def)
  ultimately show ?thesis using 4(2) by (simp add: effect_lh_n)
qed

text \<open>The writes of recovery.\<close>

definition recovery_writes :: "int \<Rightarrow> image \<Rightarrow> (u32 \<times> block) list" where
  "recovery_writes st A = installs (recovered st A) (log_entries st A) @ [(lblk st 0, head_of [] (A (lblk st 0)))]"

lemma recovery_images:
  assumes i: "image_ok st n A" and p: "place_ok st n"
    and B: "B = wrote A (take m (recovery_writes st A))" "m \<le> length (recovery_writes st A)"
  shows "image_ok st n B \<and> (\<forall>k. k \<notin> area st n \<longrightarrow> recovered st B k = recovered st A k)"
    "m = length (recovery_writes st A) \<Longrightarrow> header_n (B (lblk st 0)) = 0 \<and> (\<forall>k. k \<notin> area st n \<longrightarrow> B k = recovered st A k)"
proof -
  let ?ys = "log_entries st A" and ?ws = "installs (recovered st A) (log_entries st A)"
  have n: "0 < n" "distinct ?ys" using p i by (simp_all add: place_ok_def image_ok_def homes_ok_def)
  define D where "D = wrote A ?ws"
  have D: "image_ok st n D" "recovered st D = recovered st A" "D (lblk st 0) = A (lblk st 0)"
    using installs_prefix [OF i p, where m = "length ?ws", OF refl] lblk_area [OF n(1)] by (simp_all add: D_def)
  have dk: "D k = recovered st A k" for k
    unfolding D_def installs_all [OF n(2)] using recovered_other [of k st A] by auto
  have "sized D" using D(1) by (simp add: image_ok_def sized_def)
  note W = wrote_header [OF this p n(1)]
  have fin: "image_ok st n B \<and> (\<forall>k. k \<notin> area st n \<longrightarrow> recovered st B k = recovered st A k)
    \<and> header_n (B (lblk st 0)) = 0 \<and> (\<forall>k. k \<notin> area st n \<longrightarrow> B k = recovered st A k)"
    if "m = length (recovery_writes st A)"
  proof -
    have "B = D(lblk st 0 := head_of [] (D (lblk st 0)))"
      using that B(1) D(3) by (simp add: recovery_writes_def D_def)
    with W empty_log(2) [of B st] empty_log(3) [of B st n] n(1) dk show ?thesis by simp
  qed
  then show "m = length (recovery_writes st A) \<Longrightarrow> header_n (B (lblk st 0)) = 0 \<and> (\<forall>k. k \<notin> area st n \<longrightarrow> B k = recovered st A k)"
    by blast
  show "image_ok st n B \<and> (\<forall>k. k \<notin> area st n \<longrightarrow> recovered st B k = recovered st A k)"
  proof (cases "m = length (recovery_writes st A)")
    case False
    then have "B = wrote A (take m ?ws)" using B by (simp add: recovery_writes_def)
    from installs_prefix [OF i p this] show ?thesis by simp
  qed (use fin in blast)
qed

lemma recovery_effect:
  assumes c: "cache_ok d {} {} s" "log_dev s = d" "log_start s = st" and p: "place_ok st n"
    and i: "image_ok st n (dv (disk s))" and l: "length (lh_block s) = LOGSIZE"
  shows "\<exists>t. recover_from_log s = Ok () t \<and> cache_ok d {} {} t \<and> lh_n t = 0 \<and> length (lh_block t) = LOGSIZE
    \<and> log_dev t = d \<and> log_start t = st \<and> log_size t = log_size s
    \<and> disk_effect s (recovery_writes st (dv (disk s))) t"
proof -
  let ?A = "dv (disk s)" and ?h = "lblk st 0"
  define ys where "ys = log_entries st ?A"
  have h: "homes_ok st n ys" "length ys \<le> LOGSIZE" "0 < n" "distinct ys"
    using i p by (auto simp: image_ok_def ys_def homes_ok_def place_ok_def)
  obtain t1 where 1: "read_head s = Ok () t1" "cache_ok d {} {} t1" "disk t1 = disk s" "disk_hist t1 = disk_hist s"
    "lh_n t1 = int (length ys)" "\<And>j. j < length ys \<Longrightarrow> lh_block t1 ! j = ys ! j" "length (lh_block t1) = LOGSIZE"
    "log_dev t1 = d" "log_start t1 = st" "log_size t1 = log_size s"
    using read_head_spec [OF c p i l ys_def] by blast
  have R: "?A (lblk st (Suc j)) = recovered st ?A (ys ! j)" if "j < length ys" for j
    using recovered_nth [of st ?A j] that h(4) by (simp add: ys_def)
  obtain t2 where 2: "install_trans_loop True 0 (length ys) t1 = Ok () t2" "cache_ok d {} {} t2"
    "effect t1 (installs (recovered st ?A) ys) t2"
    using install_loop [where r = True and i = 0 and ys = ys and m = "length ys" and R = "recovered st ?A" and s = t1,
        OF _ 1(8,9) p h(1) 1(6)] 1(2,3) R by auto
  note E2 = bframe_log [OF conjunct2 [OF conjunct2 [OF 2(3) [unfolded effect_def]]]]
  have hd: "dv (disk t2) ?h = ?A ?h"
    using 2(3) 1(3) installs_prefix(4) [OF i p, where m = "length ys", OF refl] lblk_area [OF h(3)]
    by (simp add: effect_def ys_def installs_def)
  obtain t3 where 3: "write_head (t2\<lparr>lh_n := 0\<rparr>) = Ok () t3" "cache_ok d {} {} t3"
    "effect (t2\<lparr>lh_n := 0\<rparr>) [(?h, head_of [] (?A ?h))] t3"
    using write_head_spec [where ps = "[]" and ys = "[]" and s = "t2\<lparr>lh_n := 0\<rparr>" and d = d, OF _ _ refl _ _ _ _ _ refl, of n]
      2(2) E2 1(8,9) p h(3) hd by (auto simp: homes_ok_def)
  note E3 = bframe_log [OF conjunct2 [OF conjunct2 [OF 3(3) [unfolded effect_def]]]]
  have "recover_from_log s = Ok () t3"
    using 1(1,5) 2(1) 3(1) by (simp add: recover_from_log_def install_trans_def)
  moreover have "disk_effect s (recovery_writes st ?A) t3"
    using 1(3,4) 2(3) 3(3) by (simp add: disk_effect_def effect_def recovery_writes_def ys_def)
  ultimately show ?thesis using 3(2) E2 E3 1(7-10) by auto
qed

section \<open>Joining a transaction\<close>

lemma log_ok_fields [simp]:
  "log_ok d H (s\<lparr>log_outstanding := n\<rparr>) = log_ok d H s" "log_ok d H (s\<lparr>log_committing := c\<rparr>) = log_ok d H s"
  by (simp_all add: log_ok_def logged_def)

lemma log_ok_logged:
  assumes "log_ok d H s"
  shows "lh_n s = int (length (logged s))" "length (logged s) < nat (log_size s)" "nat (log_size s) \<le> LOGSIZE"
    "length (logged s) < LOGSIZE" "distinct (logged s)"
  using assms by (auto simp: log_ok_def logged_def homes_ok_def place_ok_def min_def)

lemma log_write_spec:
  assumes ok: "log_ok d H s" and b: "buf_at d s k b" "k \<in> H" and k: "k \<notin> area (log_start s) (nat (log_size s))"
    and room: "1 \<le> log_outstanding s" "lh_n s < log_size s - 1"
  shows "\<exists>t. log_write b s = Ok () t \<and> log_ok d H t \<and> lv d t = lv d s \<and> disk t = disk s \<and> disk_hist t = disk_hist s
    \<and> buf_at d t = buf_at d s \<and> logged t = (if k \<in> set (logged s) then logged s else logged s @ [k])
    \<and> log_outstanding t = log_outstanding s \<and> log_committing t = log_committing s
    \<and> log_start t = log_start s \<and> log_size t = log_size s"
proof -
  let ?ys = "logged s"
  note L = log_ok_logged [OF ok]
  have c: "cache_ok d (set ?ys) H s" "length (lh_block s) = LOGSIZE" using ok by (simp_all add: log_ok_def)
  have bk: "b_blockno (bcache s ! b) = k" using b(1) by (simp add: buf_at_def)
  have no: "\<not> (lh_n s \<ge> int LOGSIZE \<or> lh_n s \<ge> log_size s - 1)" "\<not> log_outstanding s < 1" using room L by auto
  have tk: "take (nat (lh_n s)) (lh_block s) = ?ys" by (simp add: logged_def)
  show ?thesis
  proof (cases "k \<in> set ?ys")
    case True
    then have "find_idx (\<lambda>x. x = k) ?ys \<noteq> None" by (simp add: find_idx_None_iff)
    then obtain i where i: "find_idx (\<lambda>x. x = k) ?ys = Some i" "i < length ?ys" "?ys ! i = k"
      using find_idx_SomeD(1,2) by blast
    then have "lh_block s ! i = k" by (simp add: logged_def)
    then have "(lh_block s)[i := k] = lh_block s" by (metis list_update_id)
    then have "log_write b s = Ok () s"
      using no bk tk i L(1) by (simp add: log_write_def Let_def)
    with ok True show ?thesis by auto
  next
    case False
    define t where "t = (bpin b (s\<lparr>lh_block := (lh_block s)[nat (lh_n s) := k]\<rparr>))\<lparr>lh_n := lh_n s + 1\<rparr>"
    have e: "log_write b s = Ok () t"
      using no bk tk find_none [OF False] L(1) by (simp add: log_write_def Let_def t_def)
    have "nat (lh_n s + 1) = Suc (nat (lh_n s))" "nat (lh_n s) < LOGSIZE" using L by simp_all
    then have lt: "logged t = ?ys @ [k]"
      using c(2) by (simp add: t_def bpin_def upd_buf_def logged_def take_Suc_conv_app_nth)
    have F: "log_start t = log_start s" "log_size t = log_size s" "log_dev t = log_dev s" "lh_n t = lh_n s + 1"
      "length (lh_block t) = length (lh_block s)" "disk t = disk s" "disk_hist t = disk_hist s"
      "log_outstanding t = log_outstanding s" "log_committing t = log_committing s"
      by (simp_all add: t_def bpin_def upd_buf_def)
    have p: "cache_ok d (insert k (set ?ys)) H t" "lv d t = lv d s" "buf_at d t = buf_at d s"
      using bpin_spec(1-3) [of d "set ?ys" H "s\<lparr>lh_block := (lh_block s)[nat (lh_n s) := k]\<rparr>" k b] c(1) b False
      by (simp_all add: t_def)
    have "k < BLIM" using held_buffer(4) [OF c(1) b] .
    then have "log_ok d H t"
      using ok lt p(1) F k False room L by (auto simp: log_ok_def homes_ok_def)
    with e p lt False F show ?thesis by auto
  qed
qed

end
