(* ===== verification/Logtx.thy ===== *)
theory Logtx
  imports Logcrash
begin

text \<open>
  Transactions on the redo log: an update inside a transaction, the end of the last one, and
  the theorems on crashes. \<open>log_demo\<close> is a small machine with an empty log, on which the
  hypotheses of the theorems hold.
\<close>

section \<open>An update inside a transaction\<close>

text \<open>The pattern that \<^verbatim>\<open>log.c\<close> documents: read, modify, \<open>log_write\<close>, release.\<close>

definition tx_update :: "u32 \<Rightarrow> u32 \<Rightarrow> (block \<Rightarrow> block) \<Rightarrow> 'z klog_scheme \<Rightarrow> (unit, 'z klog_scheme) res" where
  "tx_update d k f s =
     bnd (bread d k s) (\<lambda>b s. bnd (log_write b (set_bdata b (f (bdata b s)) s)) (\<lambda>_ s. brelse b s))"

lemma log_ok_cache:
  assumes "log_ok d H s" "bframe s t" "cache_ok d (set (logged s)) H' t" "disk t = disk s"
  shows "log_ok d H' t" "logged t = logged s"
proof -
  note F = bframe_log [OF assms(2)]
  show l: "logged t = logged s" using F by (simp add: logged_def)
  show "log_ok d H' t" using assms F l by (simp add: log_ok_def)
qed

lemma tx_update_spec:
  assumes ok: "log_ok d {} s" and k: "k < BLIM" "k \<notin> area (log_start s) (nat (log_size s))"
    and room: "1 \<le> log_outstanding s" "lh_n s < log_size s - 1"
    and f: "length (f (lv d s k)) = BSIZE"
  shows "\<exists>t. tx_update d k f s = Ok () t \<and> log_ok d {} t \<and> lv d t = (lv d s)(k := f (lv d s k))
    \<and> disk t = disk s \<and> disk_hist t = disk_hist s
    \<and> logged t = (if k \<in> set (logged s) then logged s else logged s @ [k])
    \<and> log_outstanding t = log_outstanding s \<and> log_committing t = log_committing s
    \<and> log_start t = log_start s \<and> log_size t = log_size s"
proof -
  note L = log_ok_logged [OF ok]
  have c: "cache_ok d (set (logged s)) {} s" using ok by (simp add: log_ok_def)
  have "card (insert k (set (logged s))) \<le> Suc (length (logged s))"
    using card_length [of "k # logged s"] by simp
  also have "\<dots> \<le> NBUF" using L(4) by (simp add: kconst)
  finally have cap: "card (insert k (set (logged s) \<union> {})) \<le> NBUF" by simp
  from bread_served [OF c k(1) _ cap] obtain b t1 where 1: "bread d k s = Ok b t1" "served d (set (logged s)) {} s k b t1" by auto
  have s1: "cache_ok d (set (logged s)) {k} t1" "buf_at d t1 k b" "lv d t1 = lv d s" "disk t1 = disk s"
    "disk_hist t1 = disk_hist s" "bframe s t1" using 1(2) by (simp_all add: served_def)
  have bd: "bdata b t1 = lv d s k" using lv_cached [OF s1(1,2)] s1(3) by simp
  define v where "v = f (lv d s k)"
  note S = set_bdata_spec [OF s1(1,2) _ f [folded v_def], simplified]
  define t2 where "t2 = set_bdata b v t1"
  have f2: "bframe s t2" using bframe_trans [OF s1(6)] S(6) by (simp add: t2_def)
  have c2: "cache_ok d (set (logged s)) {k} t2" "disk t2 = disk s" using S(1,4) s1(4) by (simp_all add: t2_def)
  note o2 = log_ok_cache [OF ok f2 c2] and F2 = bframe_log [OF f2]
  have at2: "buf_at d t2 k b" using S(3) s1(2) by (simp add: t2_def)
  from log_write_spec [OF o2(1) at2] k room F2 obtain t3 where
    3: "log_write b t2 = Ok () t3" "log_ok d {k} t3" "lv d t3 = lv d t2" "disk t3 = disk t2" "disk_hist t3 = disk_hist t2"
    "buf_at d t3 = buf_at d t2" "logged t3 = (if k \<in> set (logged s) then logged s else logged s @ [k])"
    "log_outstanding t3 = log_outstanding s" "log_committing t3 = log_committing s"
    "log_start t3 = log_start s" "log_size t3 = log_size s" using o2(2) by auto
  have c3: "cache_ok d (set (logged t3)) {k} t3" "buf_at d t3 k b" "k \<in> set (logged t3)"
    using 3(2,6,7) at2 by (auto simp: log_ok_def)
  from brelse_spec [OF c3(1,2)] c3(3) obtain t4 where
    4: "brelse b t3 = Ok () t4" "cache_ok d (set (logged t3)) {} t4" "lv d t4 = lv d t3" "disk t4 = disk t3"
    "disk_hist t4 = disk_hist t3" "bframe t3 t4" by auto
  note o4 = log_ok_cache [OF 3(2) 4(6) 4(2,4)] and F4 = bframe_log [OF 4(6)]
  have "tx_update d k f s = Ok () t4"
    using 1(1) 3(1) 4(1) bd by (simp add: tx_update_def t2_def v_def)
  moreover have "lv d t4 = (lv d s)(k := f (lv d s k))" using 4(3) 3(3) S(2) s1(3) by (simp add: t2_def v_def)
  moreover have "disk_hist t4 = disk_hist s" using 4(5) 3(5) S(5) s1(5) by (simp add: t2_def)
  ultimately show ?thesis using o4 F4 3 4 c2 by auto
qed

section \<open>The end of the last transaction\<close>

lemma crash_images_cong:
  "disk_hist s = disk_hist s' \<Longrightarrow> disk t = disk t' \<Longrightarrow> disk_hist t = disk_hist t' \<Longrightarrow> crash_images s t = crash_images s' t'"
  by (simp add: crash_images_def)

text \<open>
  \<open>committed_by s t\<close>: what the end of the last transaction does to the disk. Every image that a
  crash can leave is well-formed and recovers to the contents before the transaction or to
  those after it.
\<close>

definition committed_by :: "u32 \<Rightarrow> 'z klog_scheme \<Rightarrow> 'z klog_scheme \<Rightarrow> bool" where
  "committed_by d s t \<longleftrightarrow>
     (\<forall>k. k \<notin> area (log_start s) (nat (log_size s)) \<longrightarrow> dv (disk t) k = lv d s k)
   \<and> (\<forall>B \<in> crash_images s t. image_ok (log_start s) (nat (log_size s)) B
        \<and> ((\<forall>k. k \<notin> area (log_start s) (nat (log_size s)) \<longrightarrow> recovered (log_start s) B k = dv (disk s) k)
         \<or> (\<forall>k. k \<notin> area (log_start s) (nat (log_size s)) \<longrightarrow> recovered (log_start s) B k = lv d s k)))"

lemma commit_spec:
  assumes ok: "log_ok d {} s"
  shows "\<exists>t. commit s = Ok () t \<and> log_ok d {} t \<and> logged t = [] \<and> committed_by d s t
    \<and> log_outstanding t = log_outstanding s \<and> log_committing t = log_committing s
    \<and> log_start t = log_start s \<and> log_size t = log_size s"
proof (cases "0 < lh_n s")
  case True
  let ?st = "log_start s" and ?n = "nat (log_size s)" and ?A = "dv (disk s)" and ?V = "lv d s" and ?ys = "logged s"
  note fr = log_ok_frame [OF ok]
  obtain t where t: "commit s = Ok () t" "cache_ok d {} {} t"
    "effect (s\<lparr>lh_n := 0\<rparr>) (commit_writes ?st ?A ?V ?ys) t" using commit_effect [OF ok True] by blast
  note F = bframe_log [OF conjunct2 [OF conjunct2 [OF t(3) [unfolded effect_def]]]]
  have de: "disk_effect (s\<lparr>lh_n := 0\<rparr>) (commit_writes ?st ?A ?V ?ys) t" using t(3) by (simp add: effect_def disk_effect_def)
  have dt: "dv (disk t) = wrote ?A (commit_writes ?st ?A ?V ?ys)" using t(3) by (simp add: effect_def)
  note D = commit_done [OF fr dt]
  have "crash_images s t = crash_images (s\<lparr>lh_n := 0\<rparr>) t" by (rule crash_images_cong) simp_all
  then have "image_ok ?st ?n B \<and> ((\<forall>k. k \<notin> area ?st ?n \<longrightarrow> recovered ?st B k = ?A k)
       \<or> (\<forall>k. k \<notin> area ?st ?n \<longrightarrow> recovered ?st B k = ?V k))" if "B \<in> crash_images s t" for B
    using crash_images_effect [OF de, of B] commit_images [OF fr] that by auto
  then have cb: "committed_by d s t" using D(4) unfolding committed_by_def by blast
  have lt: "logged t = []" using F(6) by (simp add: logged_def)
  have "log_ok d {} t"
    using ok F t(2) lt D(3) log_frameD(2,7) [OF fr] by (simp add: log_ok_def homes_ok_def)
  with t(1) lt cb F show ?thesis by auto
next
  case False
  then have e: "commit s = Ok () s" by (simp add: commit_def)
  have l: "logged s = []" using False by (simp add: logged_def)
  have c: "cache_ok d {} {} s" using ok l by (simp add: log_ok_def)
  note fr = log_ok_frame [OF ok]
  have v: "lv d s k = dv (disk s) k" for k using lv_clean_all [OF c] by simp
  have "committed_by d s s"
    using v empty_log(2,3) [where A = "dv (disk s)" and st = "log_start s"] log_frameD(1,4,7) [OF fr]
    by (simp add: committed_by_def crash_images_def)
  with e l ok show ?thesis by auto
qed

lemma end_op_spec:
  assumes ok: "log_ok d {} s" and o: "log_outstanding s = 1" "\<not> log_committing s"
  shows "\<exists>t. end_op s = Ok () t \<and> log_ok d {} t \<and> logged t = [] \<and> log_outstanding t = 0 \<and> \<not> log_committing t
    \<and> committed_by d s t"
proof -
  let ?s = "s\<lparr>log_outstanding := 0, log_committing := True\<rparr>"
  from commit_spec [of d ?s] ok obtain t where
    t: "commit ?s = Ok () t" "log_ok d {} t" "logged t = []" "committed_by d ?s t" "log_outstanding t = 0" by auto
  define u where "u = wakeup ChLog (t\<lparr>log_committing := False\<rparr>)"
  have w: "bframe (t\<lparr>log_committing := False\<rparr>) u" by (simp add: u_def)
  have "cache_ok d (set (logged t)) {} u" using t(2) by (simp add: log_ok_def u_def)
  from log_ok_cache [OF _ w, of d "{}" "{}"] this t(2,3) have ou: "log_ok d {} u" "logged u = []"
    by (simp_all add: logged_def u_def)
  have "committed_by d s u"
    using t(4) crash_images_cong [of s ?s u t] by (simp add: committed_by_def u_def)
  moreover have "end_op s = Ok () u" using o t(1) by (simp add: end_op_def Let_def u_def)
  moreover have "log_outstanding u = 0" "\<not> log_committing u" using bframe_log(3,4) [OF w] t(5) by simp_all
  ultimately show ?thesis using ou by blast
qed

section \<open>A machine with an empty log\<close>

text \<open>One process runs on one hart; the disk holds zeros; the log is where \<^verbatim>\<open>mkfs\<close> puts it.\<close>

definition log_demo :: klog where
  "log_demo = binit \<lparr>mem = (\<lambda>_. 0), freelist = 0, kend = 0, hart = 0,
     cpus = [\<lparr>c_proc = Some 0, c_noff = 0, c_intena = False, c_sie = False\<rparr>],
     procs = [zero_proc], initproc = None, nextpid = 1, ticks = 0, mlfq_ticks = 0, last_boost_tick = 0,
     bcache = replicate (Suc NBUF) zero_buf, disk = (\<lambda>_. replicate 512 0), disk_hist = [],
     log_start = 2, log_size = int LOGSIZE, log_outstanding = 0, log_committing = False, log_dev = 1,
     lh_n = 0, lh_block = replicate LOGSIZE 0\<rparr>"

lemma log_demo_fields:
  "log_start log_demo = 2" "log_size log_demo = 30" "log_outstanding log_demo = 0" "\<not> log_committing log_demo"
  "log_dev log_demo = 1" "lh_n log_demo = 0" "lh_block log_demo = replicate LOGSIZE 0" "disk_hist log_demo = []"
  "disk log_demo = (\<lambda>_. replicate 512 0)" "logged log_demo = []"
  by (simp_all add: log_demo_def binit_def logged_def LOGSIZE_def MAXOPBLOCKS_def del: binit_loop.simps)

lemma le_val_zeros: "le_val (replicate n 0) = 0"
  by (induction n) auto

lemma log_demo_block: "get_block (disk log_demo) k = replicate 1024 0"
  using replicate_add [of 512 512 "0 :: u8"] by (simp add: log_demo_fields get_block_def)

lemma log_demo_cache: "cache_ok 1 {} {} log_demo"
proof -
  have "running (log_demo\<lparr>bcache := x\<rparr>)" for x by (simp add: log_demo_def binit_def running_def myproc_def mycpu_def)
  then show ?thesis
    using log_demo_block unfolding log_demo_def
    by (intro binit_cache_ok) (simp_all add: binit_def running_def myproc_def mycpu_def BSIZE_def del: replicate_Suc)
qed

lemma log_demo_ok: "log_ok 1 {} log_demo"
proof -
  have p: "place_ok 2 30" by (simp add: place_ok_def kconst)
  have "lblk 2 0 < BLIM" using lblk_lim [OF p, of 0] by simp
  then have "header_n (dv (disk log_demo) (lblk 2 0)) = 0"
    by (simp add: dv_def log_demo_block header_n_def get32_def le_val_zeros)
  with p log_demo_cache show ?thesis by (simp add: log_ok_def log_demo_fields homes_ok_def)
qed

section \<open>Recovery after a crash\<close>

text \<open>A machine that has just booted from the disk image \<open>B\<close>: nothing is cached but what is on disk.\<close>

definition booted :: "u32 \<Rightarrow> int \<Rightarrow> image \<Rightarrow> 'z klog_scheme \<Rightarrow> bool" where
  "booted d st B r \<longleftrightarrow> cache_ok d {} {} r \<and> log_dev r = d \<and> log_start r = st
     \<and> length (lh_block r) = LOGSIZE \<and> dv (disk r) = B"

lemma recovery_spec:
  assumes b: "booted d st A r" and p: "place_ok st n" and i: "image_ok st n A"
  shows "\<exists>t. recover_from_log r = Ok () t \<and> cache_ok d {} {} t \<and> lh_n t = 0 \<and> header_n (dv (disk t) (lblk st 0)) = 0
    \<and> (\<forall>k. k \<notin> area st n \<longrightarrow> dv (disk t) k = recovered st A k)
    \<and> (\<forall>B \<in> crash_images r t. image_ok st n B \<and> (\<forall>k. k \<notin> area st n \<longrightarrow> recovered st B k = recovered st A k))"
proof -
  have r: "cache_ok d {} {} r" "log_dev r = d" "log_start r = st" "length (lh_block r) = LOGSIZE" "dv (disk r) = A"
    using b by (simp_all add: booted_def)
  obtain t where t: "recover_from_log r = Ok () t" "cache_ok d {} {} t" "lh_n t = 0"
    "disk_effect r (recovery_writes st A) t"
    using recovery_effect [OF r(1-3) p _ r(4)] i r(5) by auto
  have "dv (disk t) = wrote A (take (length (recovery_writes st A)) (recovery_writes st A))"
    using t(4) r(5) by (simp add: disk_effect_def)
  from recovery_images(2) [OF i p this] have fin: "header_n (dv (disk t) (lblk st 0)) = 0"
    "\<forall>k. k \<notin> area st n \<longrightarrow> dv (disk t) k = recovered st A k" by simp_all
  have "image_ok st n B \<and> (\<forall>k. k \<notin> area st n \<longrightarrow> recovered st B k = recovered st A k)" if "B \<in> crash_images r t" for B
    using crash_images_effect [OF t(4) that] recovery_images(1) [OF i p] r(5) by auto
  with t fin show ?thesis by blast
qed

lemma booted_demo: "booted 1 2 (dv (disk log_demo)) log_demo"
  using log_demo_cache by (simp add: booted_def log_demo_fields)

text \<open>The example machine after one system call has changed block 40, which is outside the log.\<close>

lemma block40: "(40 :: u32) \<notin> area 2 30"
proof -
  have p: "place_ok 2 30" by (simp add: place_ok_def kconst)
  have "lblk 2 i \<noteq> 40" if "i < 30" for i
    using lblk_val [OF p that] that by auto
  then show ?thesis by (force simp: area_def)
qed

lemma log_demo_tx:
  "\<exists>(s :: klog). log_ok 1 {} s \<and> logged s = [40] \<and> lv 1 s 40 = replicate BSIZE 7 \<and> disk s = disk log_demo
    \<and> log_outstanding s = 1 \<and> \<not> log_committing s \<and> log_start s = 2 \<and> log_size s = 30"
proof -
  let ?s = "log_demo\<lparr>log_outstanding := 1\<rparr>"
  have l: "logged ?s = []" by (simp add: logged_def log_demo_fields)
  have ok: "log_ok 1 {} ?s" using log_demo_ok by simp
  have "\<exists>t. tx_update 1 40 (\<lambda>_. replicate BSIZE 7) ?s = Ok () t \<and> log_ok 1 {} t
    \<and> lv 1 t = (lv 1 ?s)(40 := replicate BSIZE 7) \<and> disk t = disk ?s \<and> disk_hist t = disk_hist ?s
    \<and> logged t = (if 40 \<in> set (logged ?s) then logged ?s else logged ?s @ [40])
    \<and> log_outstanding t = log_outstanding ?s \<and> log_committing t = log_committing ?s
    \<and> log_start t = log_start ?s \<and> log_size t = log_size ?s"
    using block40 by (intro tx_update_spec [OF ok]) (simp_all add: log_demo_fields BLIM_def)
  then show ?thesis unfolding l by (elim ex_forward) (simp add: log_demo_fields)
qed

text \<open>
  C4. A file system transaction is atomic with respect to crashes. When the last system call of a
  transaction ends, \<open>end_op\<close> does not panic or run out of buffers and leaves every block on disk as
  the file system calls left it in the cache. If the machine stops before, between or after
  any of its disk writes, then a machine that boots from the disk left behind recovers, and
  finds either all blocks as they were before the transaction or all as they are after it.
\<close>

theorem end_op_crash_atomic:
  assumes "log_ok d {} s" "log_outstanding s = 1" "\<not> log_committing s"
  shows "\<exists>t. end_op s = Ok () t \<and> log_ok d {} t \<and> logged t = [] \<and> log_outstanding t = 0
    \<and> (\<forall>k. k \<notin> area (log_start s) (nat (log_size s)) \<longrightarrow> dv (disk t) k = lv d s k)
    \<and> (\<forall>B \<in> crash_images s t. \<forall>r. booted d (log_start s) B r \<longrightarrow> (\<exists>u. recover_from_log r = Ok () u
        \<and> ((\<forall>k. k \<notin> area (log_start s) (nat (log_size s)) \<longrightarrow> dv (disk u) k = dv (disk s) k)
         \<or> (\<forall>k. k \<notin> area (log_start s) (nat (log_size s)) \<longrightarrow> dv (disk u) k = lv d s k))))"
proof -
  obtain t where t: "end_op s = Ok () t" "log_ok d {} t" "logged t = []" "log_outstanding t = 0" "committed_by d s t"
    using end_op_spec [OF assms] by blast
  have p: "place_ok (log_start s) (nat (log_size s))" using assms(1) by (simp add: log_ok_def)
  have "\<exists>u. recover_from_log r = Ok () u
        \<and> ((\<forall>k. k \<notin> area (log_start s) (nat (log_size s)) \<longrightarrow> dv (disk u) k = dv (disk s) k)
         \<or> (\<forall>k. k \<notin> area (log_start s) (nat (log_size s)) \<longrightarrow> dv (disk u) k = lv d s k))"
    if B: "B \<in> crash_images s t" and r: "booted d (log_start s) B r" for B r
  proof -
    have "image_ok (log_start s) (nat (log_size s)) B" using t(5) B by (simp add: committed_by_def)
    from recovery_spec [OF r p this] obtain u where u: "recover_from_log r = Ok () u"
      "\<And>k. k \<notin> area (log_start s) (nat (log_size s)) \<Longrightarrow> dv (disk u) k = recovered (log_start s) B k" by blast
    with t(5) B show ?thesis unfolding committed_by_def by metis
  qed
  with t show ?thesis unfolding committed_by_def by blast
qed

text \<open>In the example, one system call has changed block 40; the disk still holds zeros.\<close>

theorem end_op_crash_atomic_witness:
  "\<exists>(s :: klog) t. log_ok 1 {} s \<and> logged s = [40] \<and> lv 1 s 40 = replicate BSIZE 7 \<and> dv (disk s) 40 = replicate 1024 0
    \<and> end_op s = Ok () t \<and> dv (disk t) 40 = replicate BSIZE 7"
proof -
  obtain s :: klog where s: "log_ok 1 {} s" "logged s = [40]" "lv 1 s 40 = replicate BSIZE 7" "disk s = disk log_demo"
      "log_outstanding s = 1" "\<not> log_committing s" "log_start s = 2" "log_size s = 30"
    using log_demo_tx by blast
  from end_op_crash_atomic [OF s(1,5,6)] obtain t where t: "end_op s = Ok () t"
    "\<forall>k. k \<notin> area (log_start s) (nat (log_size s)) \<longrightarrow> dv (disk t) k = lv 1 s k" by blast
  have "dv (disk s) 40 = replicate 1024 0" using s(4) by (simp add: dv_def log_demo_block BLIM_def)
  moreover have "dv (disk t) 40 = replicate BSIZE 7" using t(2) s(3,7,8) block40 by simp
  ultimately show ?thesis using s(1-3) t(1) by blast
qed

text \<open>
  C5. Recovery itself survives crashes: it always succeeds on a well-formed disk image, installs
  every block that the log holds, leaves the log empty, and a crash at any point during
  recovery leaves an image from which recovery produces the same contents.
\<close>

theorem recovery_crash_safe:
  assumes "booted d st A r" "place_ok st n" "image_ok st n A"
  shows "\<exists>t. recover_from_log r = Ok () t \<and> header_n (dv (disk t) (lblk st 0)) = 0
    \<and> (\<forall>k. k \<notin> area st n \<longrightarrow> dv (disk t) k = recovered st A k)
    \<and> (\<forall>B \<in> crash_images r t. \<forall>q. booted d st B q \<longrightarrow> (\<exists>u. recover_from_log q = Ok () u
         \<and> (\<forall>k. k \<notin> area st n \<longrightarrow> dv (disk u) k = recovered st A k)))"
proof -
  obtain t where t: "recover_from_log r = Ok () t" "header_n (dv (disk t) (lblk st 0)) = 0"
    "\<And>k. k \<notin> area st n \<Longrightarrow> dv (disk t) k = recovered st A k"
    "\<And>B. B \<in> crash_images r t \<Longrightarrow> image_ok st n B \<and> (\<forall>k. k \<notin> area st n \<longrightarrow> recovered st B k = recovered st A k)"
    using recovery_spec [OF assms] by blast
  have "\<exists>u. recover_from_log q = Ok () u \<and> (\<forall>k. k \<notin> area st n \<longrightarrow> dv (disk u) k = recovered st A k)"
    if "B \<in> crash_images r t" "booted d st B q" for B q
    using recovery_spec [OF that(2) assms(2)] t(4) [OF that(1)] by auto
  with t show ?thesis by blast
qed

theorem recovery_crash_safe_witness:
  "\<exists>t. recover_from_log log_demo = Ok () t \<and> dv (disk t) 40 = replicate 1024 0"
proof -
  have p: "place_ok 2 30" by (simp add: place_ok_def kconst)
  have "header_n (dv (disk log_demo) (lblk 2 0)) = 0" using log_demo_ok by (simp add: log_ok_def log_demo_fields)
  moreover have "sized (dv (disk log_demo))" by (simp add: sized_def dv_def log_demo_block kconst)
  ultimately have "image_ok 2 30 (dv (disk log_demo))" "recovered 2 (dv (disk log_demo)) = dv (disk log_demo)"
    using empty_log(2,3) [where A = "dv (disk log_demo)"] by simp_all
  with recovery_crash_safe [OF booted_demo p] obtain t where "recover_from_log log_demo = Ok () t"
    "dv (disk t) 40 = dv (disk log_demo) 40" using block40 by metis
  then show ?thesis by (simp add: dv_def log_demo_block BLIM_def)
qed

section \<open>Space in the log\<close>






end
