(* ===== verification/Fs.thy ===== *)
theory Fs
  imports Log
begin

text \<open>
  The file system (\<^verbatim>\<open>kernel/fs.c\<close>, \<^verbatim>\<open>kernel/fs.h\<close>, \<^verbatim>\<open>kernel/stat.h\<close> and the in-memory inode of
  \<^verbatim>\<open>kernel/file.h\<close>), with the two copy routines of \<^verbatim>\<open>kernel/proc.c\<close> it uses.

  A pointer into the inode table is an index; disk structures are read from and written to
  the bytes of a buffer at the offsets of the C layout. A kernel buffer that is a local
  variable of the caller is not part of memory: reading into it returns the bytes, writing
  from it takes them. Messages printed to the console are left out.
\<close>

section \<open>Layout\<close>

definition ROOTINO :: u32 where [kconst]: "ROOTINO = 1"
definition FSMAGIC :: u32 where [kconst]: "FSMAGIC = 0x10203040"
definition NDIRECT :: nat where [kconst]: "NDIRECT = 12"
definition NINDIRECT :: nat where [kconst]: "NINDIRECT = 256"
definition MAXFILE :: nat where [kconst]: "MAXFILE = NDIRECT + NINDIRECT"
definition IPB :: u32 where [kconst]: "IPB = 16"
definition BPB :: nat where [kconst]: "BPB = 8192"
definition DIRSIZ :: nat where [kconst]: "DIRSIZ = 14"
definition T_DIR :: u16 where [kconst]: "T_DIR = 1"
definition T_FILE :: u16 where [kconst]: "T_FILE = 2"
definition T_DEVICE :: u16 where [kconst]: "T_DEVICE = 3"

definition IBLOCK :: "u32 \<Rightarrow> superblock \<Rightarrow> u32" where
  "IBLOCK i sb = i div IPB + sb_inodestart sb"

definition BBLOCK :: "u32 \<Rightarrow> superblock \<Rightarrow> u32" where
  "BBLOCK b sb = b div of_nat BPB + sb_bmapstart sb"

record dinode =
  di_type :: u16
  di_major :: u16
  di_minor :: u16
  di_nlink :: u16
  di_size :: u32
  di_addrs :: "u32 list"

record inode =
  i_dev :: u32
  i_inum :: u32
  i_ref :: int
  i_lock :: sleeplock
  i_valid :: bool
  i_type :: u16
  i_major :: u16
  i_minor :: u16
  i_nlink :: u16
  i_size :: u32
  i_addrs :: "u32 list"

record stat =
  st_dev :: u32
  st_ino :: u32
  st_type :: u16
  st_nlink :: u16
  st_size :: u64

record kfs = klog +
  sb :: superblock
  itable :: "inode list"

definition upd_inode :: "nat \<Rightarrow> (inode \<Rightarrow> inode) \<Rightarrow> 'z kfs_scheme \<Rightarrow> 'z kfs_scheme" where
  "upd_inode ip f s = s\<lparr>itable := (itable s)[ip := f (itable s ! ip)]\<rparr>"

text \<open>\<^verbatim>\<open>struct dinode\<close> at byte \<open>o\<close> of a block, 64 bytes.\<close>

definition get_dinode :: "nat \<Rightarrow> block \<Rightarrow> dinode" where
  "get_dinode i v = \<lparr>di_type = get16 i v, di_major = get16 (i + 2) v, di_minor = get16 (i + 4) v,
     di_nlink = get16 (i + 6) v, di_size = get32 (i + 8) v,
     di_addrs = map (\<lambda>k. get32 (i + 12 + 4 * k) v) [0..<Suc NDIRECT]\<rparr>"

definition dinode_bytes :: "dinode \<Rightarrow> u8 list" where
  "dinode_bytes d = le_bytes 2 (unat (di_type d)) @ le_bytes 2 (unat (di_major d))
     @ le_bytes 2 (unat (di_minor d)) @ le_bytes 2 (unat (di_nlink d))
     @ le_bytes 4 (unat (di_size d)) @ concat (map (\<lambda>a. le_bytes 4 (unat a)) (di_addrs d))"

definition inode_off :: "u32 \<Rightarrow> nat" where
  "inode_off inum = 64 * unat (inum mod IPB)"

section \<open>Copying to and from the caller\<close>

datatype copy_dst = DstUser u64 | DstKern u64 | DstLocal
datatype copy_src = SrcUser u64 | SrcKern u64 | SrcLocal "u8 list"

definition either_copyout :: "copy_dst \<Rightarrow> u8 list \<Rightarrow> 'z kproc_scheme \<Rightarrow> (int, 'z kproc_scheme) res" where
  "either_copyout dst src s =
     (case dst of
        DstUser va \<Rightarrow> (case myproc s of
            None \<Rightarrow> Panic ''null pointer''
          | Some i \<Rightarrow> copyout (p_pagetable (procs s ! i)) va src s)
      | DstKern a \<Rightarrow> Ok 0 (s\<lparr>mem := write_bytes (mem s) a src\<rparr>)
      | DstLocal \<Rightarrow> Ok 0 s)"

definition either_copyin ::
  "copy_src \<Rightarrow> nat \<Rightarrow> 'z kproc_scheme \<Rightarrow> (int \<times> u8 list, 'z kproc_scheme) res" where
  "either_copyin src len s =
     (case src of
        SrcUser va \<Rightarrow> (case myproc s of
            None \<Rightarrow> Panic ''null pointer''
          | Some i \<Rightarrow> copyin (p_pagetable (procs s ! i)) va len s)
      | SrcKern a \<Rightarrow> Ok (0, read_bytes (mem s) a len) s
      | SrcLocal bs \<Rightarrow> Ok (0, take len bs) s)"

fun dst_add :: "copy_dst \<Rightarrow> nat \<Rightarrow> copy_dst" where
  "dst_add (DstUser a) m = DstUser (a + of_nat m)"
| "dst_add (DstKern a) m = DstKern (a + of_nat m)"
| "dst_add DstLocal m = DstLocal"

fun src_add :: "copy_src \<Rightarrow> nat \<Rightarrow> copy_src" where
  "src_add (SrcUser a) m = SrcUser (a + of_nat m)"
| "src_add (SrcKern a) m = SrcKern (a + of_nat m)"
| "src_add (SrcLocal bs) m = SrcLocal (drop m bs)"

section \<open>Superblock and block allocator\<close>

definition get_superblock :: "block \<Rightarrow> superblock" where
  "get_superblock v = \<lparr>sb_magic = get32 0 v, sb_size = get32 4 v, sb_nblocks = get32 8 v,
     sb_ninodes = get32 12 v, sb_nlog = get32 16 v, sb_logstart = get32 20 v,
     sb_inodestart = get32 24 v, sb_bmapstart = get32 28 v\<rparr>"

definition readsb :: "u32 \<Rightarrow> 'z kfs_scheme \<Rightarrow> (unit, 'z kfs_scheme) res" where
  "readsb dev s =
     bnd (bread dev 1 s) (\<lambda>bp s. brelse bp (s\<lparr>sb := get_superblock (bdata bp s)\<rparr>))"

definition fsinit :: "u32 \<Rightarrow> 'z kfs_scheme \<Rightarrow> (unit, 'z kfs_scheme) res" where
  "fsinit dev s =
     bnd (readsb dev s) (\<lambda>_ s.
       if sb_magic (sb s) \<noteq> FSMAGIC then Panic ''invalid file system''
       else initlog dev (sb s) s)"

definition bzero :: "u32 \<Rightarrow> u32 \<Rightarrow> 'z kfs_scheme \<Rightarrow> (unit, 'z kfs_scheme) res" where
  "bzero dev bno s =
     bnd (bread dev bno s) (\<lambda>bp s.
     bnd (log_write bp (set_bdata bp (replicate BSIZE 0) s)) (\<lambda>_ s.
     brelse bp s))"

definition bit_mask :: "nat \<Rightarrow> u8" where
  "bit_mask bi = push_bit (bi mod 8) 1"

fun balloc_scan :: "nat \<Rightarrow> nat \<Rightarrow> block \<Rightarrow> nat option" where
  "balloc_scan bi 0 v = None"
| "balloc_scan bi (Suc k) v =
     (if v ! (bi div 8) AND bit_mask bi = 0 then Some bi else balloc_scan (Suc bi) k v)"

text \<open>The loop over bitmap blocks; \<open>b\<close> is the block number of the first bit of the block.\<close>

function balloc_loop :: "u32 \<Rightarrow> nat \<Rightarrow> nat \<Rightarrow> 'z kfs_scheme \<Rightarrow> (u32, 'z kfs_scheme) res" where
  "balloc_loop dev b sz s =
     (if b < sz then
        bnd (bread dev (BBLOCK (of_nat b) (sb s)) s) (\<lambda>bp s.
          case balloc_scan 0 (min BPB (sz - b)) (bdata bp s) of
            Some bi \<Rightarrow>
              let v = bdata bp s;
                  s = set_bdata bp (v[bi div 8 := v ! (bi div 8) OR bit_mask bi]) s
              in bnd (log_write bp s) (\<lambda>_ s.
                 bnd (brelse bp s) (\<lambda>_ s.
                 bnd (bzero dev (of_nat (b + bi)) s) (\<lambda>_ s.
                 Ok (of_nat (b + bi)) s)))
          | None \<Rightarrow> bnd (brelse bp s) (\<lambda>_ s. balloc_loop dev (b + BPB) sz s))
      else Ok 0 s)"
  by pat_completeness auto
termination
  by (relation "measure (\<lambda>(dev, b, sz, s). sz - b)") (auto simp: kconst)

declare balloc_loop.simps [simp del]

definition balloc :: "u32 \<Rightarrow> 'z kfs_scheme \<Rightarrow> (u32, 'z kfs_scheme) res" where
  "balloc dev s = balloc_loop dev 0 (unat (sb_size (sb s))) s"

definition bfree :: "u32 \<Rightarrow> u32 \<Rightarrow> 'z kfs_scheme \<Rightarrow> (unit, 'z kfs_scheme) res" where
  "bfree dev b s =
     bnd (bread dev (BBLOCK b (sb s)) s) (\<lambda>bp s.
       let bi = unat b mod BPB; v = bdata bp s
       in if v ! (bi div 8) AND bit_mask bi = 0 then Panic ''freeing free block''
          else bnd (log_write bp
                 (set_bdata bp (v[bi div 8 := v ! (bi div 8) AND NOT (bit_mask bi)]) s)) (\<lambda>_ s.
               brelse bp s))"

section \<open>Inodes\<close>

definition iinit :: "'z kfs_scheme \<Rightarrow> 'z kfs_scheme" where
  "iinit s = s\<lparr>itable := map (\<lambda>x. x\<lparr>i_lock := initsleeplock (i_lock x) ''inode''\<rparr>) (itable s)\<rparr>"

definition iget :: "u32 \<Rightarrow> u32 \<Rightarrow> 'z kfs_scheme \<Rightarrow> (nat, 'z kfs_scheme) res" where
  "iget dev inum s =
     (case find_idx (\<lambda>x. i_ref x > 0 \<and> i_dev x = dev \<and> i_inum x = inum) (itable s) of
        Some ip \<Rightarrow> Ok ip (upd_inode ip (\<lambda>x. x\<lparr>i_ref := i_ref x + 1\<rparr>) s)
      | None \<Rightarrow>
          (case find_idx (\<lambda>x. i_ref x = 0) (itable s) of
             None \<Rightarrow> Panic ''iget: no inodes''
           | Some ip \<Rightarrow> Ok ip (upd_inode ip (\<lambda>x. x\<lparr>i_dev := dev, i_inum := inum, i_ref := 1,
                             i_valid := False\<rparr>) s)))"

fun ialloc_loop :: "u32 \<Rightarrow> u16 \<Rightarrow> nat \<Rightarrow> nat \<Rightarrow> 'z kfs_scheme \<Rightarrow> (nat option, 'z kfs_scheme) res" where
  "ialloc_loop dev type inum 0 s = Ok None s"
| "ialloc_loop dev type inum (Suc k) s =
     bnd (bread dev (IBLOCK (of_nat inum) (sb s)) s) (\<lambda>bp s.
       let i = inode_off (of_nat inum); v = bdata bp s
       in if get16 i v = 0 then
            bnd (log_write bp (set_bdata bp (put16 i type (put_bytes i (replicate 64 0) v)) s)) (\<lambda>_ s.
            bnd (brelse bp s) (\<lambda>_ s.
            bnd (iget dev (of_nat inum) s) (\<lambda>ip s.
            Ok (Some ip) s)))
          else bnd (brelse bp s) (\<lambda>_ s. ialloc_loop dev type (Suc inum) k s))"

definition ialloc :: "u32 \<Rightarrow> u16 \<Rightarrow> 'z kfs_scheme \<Rightarrow> (nat option, 'z kfs_scheme) res" where
  "ialloc dev type s = ialloc_loop dev type 1 (unat (sb_ninodes (sb s)) - 1) s"

definition inode_dinode :: "inode \<Rightarrow> dinode" where
  "inode_dinode x = \<lparr>di_type = i_type x, di_major = i_major x, di_minor = i_minor x,
     di_nlink = i_nlink x, di_size = i_size x, di_addrs = i_addrs x\<rparr>"

definition iupdate :: "nat \<Rightarrow> 'z kfs_scheme \<Rightarrow> (unit, 'z kfs_scheme) res" where
  "iupdate ip s =
     bnd (bread (i_dev (itable s ! ip)) (IBLOCK (i_inum (itable s ! ip)) (sb s)) s) (\<lambda>bp s.
       let x = itable s ! ip;
           s = set_bdata bp (put_bytes (inode_off (i_inum x)) (dinode_bytes (inode_dinode x))
                 (bdata bp s)) s
       in bnd (log_write bp s) (\<lambda>_ s. brelse bp s))"

definition idup :: "nat \<Rightarrow> 'z kfs_scheme \<Rightarrow> nat \<times> 'z kfs_scheme" where
  "idup ip s = (ip, upd_inode ip (\<lambda>x. x\<lparr>i_ref := i_ref x + 1\<rparr>) s)"

definition ilock :: "nat \<Rightarrow> 'z kfs_scheme \<Rightarrow> (unit, 'z kfs_scheme) res" where
  "ilock ip s =
     (if i_ref (itable s ! ip) < 1 then Panic ''ilock''
      else bnd (acquiresleep (i_lock (itable s ! ip)) s) (\<lambda>lk s.
        let s = upd_inode ip (\<lambda>x. x\<lparr>i_lock := lk\<rparr>) s
        in if \<not> i_valid (itable s ! ip) then
             bnd (bread (i_dev (itable s ! ip)) (IBLOCK (i_inum (itable s ! ip)) (sb s)) s) (\<lambda>bp s.
               let d = get_dinode (inode_off (i_inum (itable s ! ip))) (bdata bp s);
                   s = upd_inode ip (\<lambda>x. x\<lparr>i_type := di_type d, i_major := di_major d,
                         i_minor := di_minor d, i_nlink := di_nlink d, i_size := di_size d,
                         i_addrs := di_addrs d\<rparr>) s
               in bnd (brelse bp s) (\<lambda>_ s.
                    let s = upd_inode ip (\<lambda>x. x\<lparr>i_valid := True\<rparr>) s
                    in if i_type (itable s ! ip) = 0 then Panic ''ilock: no type'' else Ok () s))
           else Ok () s))"

definition iunlock :: "nat \<Rightarrow> 'z kfs_scheme \<Rightarrow> (unit, 'z kfs_scheme) res" where
  "iunlock ip s =
     bnd (holdingsleep (i_lock (itable s ! ip)) s) (\<lambda>held s.
       if \<not> held \<or> i_ref (itable s ! ip) < 1 then Panic ''iunlock''
       else let (lk, s) = releasesleep (ChInodeLock ip) (i_lock (itable s ! ip)) s
            in Ok () (upd_inode ip (\<lambda>x. x\<lparr>i_lock := lk\<rparr>) s))"

section \<open>Inode content\<close>

definition bmap :: "nat \<Rightarrow> u32 \<Rightarrow> 'z kfs_scheme \<Rightarrow> (u32, 'z kfs_scheme) res" where
  "bmap ip bn s =
     (let x = itable s ! ip in
      if unat bn < NDIRECT then
        let addr = i_addrs x ! unat bn
        in if addr = 0 then
             bnd (balloc (i_dev x) s) (\<lambda>addr s.
               Ok addr (if addr = 0 then s
                        else upd_inode ip (\<lambda>x. x\<lparr>i_addrs := (i_addrs x)[unat bn := addr]\<rparr>) s))
           else Ok addr s
      else let bn = unat bn - NDIRECT
      in if bn < NINDIRECT then
        bnd (if i_addrs x ! NDIRECT = 0 then
               bnd (balloc (i_dev x) s) (\<lambda>addr s.
                 Ok addr (if addr = 0 then s
                          else upd_inode ip (\<lambda>x. x\<lparr>i_addrs := (i_addrs x)[NDIRECT := addr]\<rparr>) s))
             else Ok (i_addrs x ! NDIRECT) s) (\<lambda>addr s.
          if addr = 0 then Ok 0 s
          else bnd (bread (i_dev x) addr s) (\<lambda>bp s.
            let addr = get32 (4 * bn) (bdata bp s)
            in bnd (if addr = 0 then
                      bnd (balloc (i_dev x) s) (\<lambda>addr s.
                        if addr \<noteq> 0 then
                          bnd (log_write bp (set_bdata bp (put32 (4 * bn) addr (bdata bp s)) s))
                            (\<lambda>_ s. Ok addr s)
                        else Ok addr s)
                    else Ok addr s) (\<lambda>addr s.
                 bnd (brelse bp s) (\<lambda>_ s. Ok addr s))))
      else Panic ''bmap: out of range'')"

fun itrunc_direct :: "nat \<Rightarrow> nat \<Rightarrow> nat \<Rightarrow> 'z kfs_scheme \<Rightarrow> (unit, 'z kfs_scheme) res" where
  "itrunc_direct ip i 0 s = Ok () s"
| "itrunc_direct ip i (Suc k) s =
     (let x = itable s ! ip in
      if i_addrs x ! i \<noteq> 0 then
        bnd (bfree (i_dev x) (i_addrs x ! i) s) (\<lambda>_ s.
          itrunc_direct ip (Suc i) k (upd_inode ip (\<lambda>x. x\<lparr>i_addrs := (i_addrs x)[i := 0]\<rparr>) s))
      else itrunc_direct ip (Suc i) k s)"

fun itrunc_indirect :: "u32 \<Rightarrow> nat \<Rightarrow> nat \<Rightarrow> nat \<Rightarrow> 'z kfs_scheme \<Rightarrow> (unit, 'z kfs_scheme) res" where
  "itrunc_indirect dev bp j 0 s = Ok () s"
| "itrunc_indirect dev bp j (Suc k) s =
     (let a = get32 (4 * j) (bdata bp s) in
      if a \<noteq> 0 then bnd (bfree dev a s) (\<lambda>_ s. itrunc_indirect dev bp (Suc j) k s)
      else itrunc_indirect dev bp (Suc j) k s)"

definition itrunc :: "nat \<Rightarrow> 'z kfs_scheme \<Rightarrow> (unit, 'z kfs_scheme) res" where
  "itrunc ip s =
     bnd (itrunc_direct ip 0 NDIRECT s) (\<lambda>_ s.
     bnd (let x = itable s ! ip in
          if i_addrs x ! NDIRECT \<noteq> 0 then
            bnd (bread (i_dev x) (i_addrs x ! NDIRECT) s) (\<lambda>bp s.
            bnd (itrunc_indirect (i_dev x) bp 0 NINDIRECT s) (\<lambda>_ s.
            bnd (brelse bp s) (\<lambda>_ s.
            bnd (bfree (i_dev x) (i_addrs x ! NDIRECT) s) (\<lambda>_ s.
            Ok () (upd_inode ip (\<lambda>x. x\<lparr>i_addrs := (i_addrs x)[NDIRECT := 0]\<rparr>) s)))))
          else Ok () s) (\<lambda>_ s.
     iupdate ip (upd_inode ip (\<lambda>x. x\<lparr>i_size := 0\<rparr>) s)))"

definition iput :: "nat \<Rightarrow> 'z kfs_scheme \<Rightarrow> (unit, 'z kfs_scheme) res" where
  "iput ip s =
     (let x = itable s ! ip in
      bnd (if i_ref x = 1 \<and> i_valid x \<and> i_nlink x = 0 then
             bnd (acquiresleep (i_lock x) s) (\<lambda>lk s.
             bnd (itrunc ip (upd_inode ip (\<lambda>x. x\<lparr>i_lock := lk\<rparr>) s)) (\<lambda>_ s.
             bnd (iupdate ip (upd_inode ip (\<lambda>x. x\<lparr>i_type := 0\<rparr>) s)) (\<lambda>_ s.
             let s = upd_inode ip (\<lambda>x. x\<lparr>i_valid := False\<rparr>) s;
                 (lk, s) = releasesleep (ChInodeLock ip) (i_lock (itable s ! ip)) s
             in Ok () (upd_inode ip (\<lambda>x. x\<lparr>i_lock := lk\<rparr>) s))))
           else Ok () s) (\<lambda>_ s.
      Ok () (upd_inode ip (\<lambda>x. x\<lparr>i_ref := i_ref x - 1\<rparr>) s)))"

definition iunlockput :: "nat \<Rightarrow> 'z kfs_scheme \<Rightarrow> (unit, 'z kfs_scheme) res" where
  "iunlockput ip s = bnd (iunlock ip s) (\<lambda>_ s. iput ip s)"

definition stati :: "nat \<Rightarrow> 'z kfs_scheme \<Rightarrow> stat" where
  "stati ip s = (let x = itable s ! ip in
     \<lparr>st_dev = i_dev x, st_ino = i_inum x, st_type = i_type x, st_nlink = i_nlink x,
      st_size = ucast (i_size x)\<rparr>)"

text \<open>
  The loop of \<open>readi\<close>, with \<open>n\<close> bytes left: the number of bytes read, or -1, and the bytes.
\<close>

definition block_room :: "u32 \<Rightarrow> nat" where
  "block_room i = BSIZE - unat i mod BSIZE"

lemma block_room_pos: "0 < n \<Longrightarrow> 0 < min n (block_room i)"
  by (simp add: block_room_def kconst)

function readi_loop ::
  "nat \<Rightarrow> copy_dst \<Rightarrow> u32 \<Rightarrow> nat \<Rightarrow> 'z kfs_scheme \<Rightarrow> (int \<times> u8 list, 'z kfs_scheme) res" where
  "readi_loop ip dst i n s =
     (if n = 0 then Ok (0, []) s
      else bnd (bmap ip (i div of_nat BSIZE) s) (\<lambda>addr s.
        if addr = 0 then Ok (0, []) s
        else bnd (bread (i_dev (itable s ! ip)) addr s) (\<lambda>bp s.
          let m = min n (block_room i);
              bs = take m (drop (unat i mod BSIZE) (bdata bp s))
          in bnd (either_copyout dst bs s) (\<lambda>r s.
             bnd (brelse bp s) (\<lambda>_ s.
               if r = -1 then Ok (-1, []) s
               else bnd (readi_loop ip (dst_add dst m) (i + of_nat m) (n - m) s) (\<lambda>(tot, rest) s.
                      Ok (if tot = -1 then -1 else int m + tot, bs @ rest) s))))))"
  by pat_completeness auto
termination
  by (relation "measure (\<lambda>(ip, dst, i, n, s). n)") (auto simp: block_room_def kconst)

declare readi_loop.simps [simp del]

definition readi ::
  "nat \<Rightarrow> copy_dst \<Rightarrow> u32 \<Rightarrow> u32 \<Rightarrow> 'z kfs_scheme \<Rightarrow> (int \<times> u8 list, 'z kfs_scheme) res" where
  "readi ip dst i n s =
     (let sz = i_size (itable s ! ip) in
      if i > sz \<or> i + n < i then Ok (0, []) s
      else readi_loop ip dst i (unat (if i + n > sz then sz - i else n)) s)"

text \<open>The loop of \<open>writei\<close>: the number of bytes written.\<close>

function writei_loop ::
  "nat \<Rightarrow> copy_src \<Rightarrow> u32 \<Rightarrow> nat \<Rightarrow> 'z kfs_scheme \<Rightarrow> (nat, 'z kfs_scheme) res" where
  "writei_loop ip src i n s =
     (if n = 0 then Ok 0 s
      else bnd (bmap ip (i div of_nat BSIZE) s) (\<lambda>addr s.
        if addr = 0 then Ok 0 s
        else bnd (bread (i_dev (itable s ! ip)) addr s) (\<lambda>bp s.
          let m = min n (block_room i)
          in bnd (either_copyin src m s) (\<lambda>(r, bs) s.
             let s = set_bdata bp (put_bytes (unat i mod BSIZE) bs (bdata bp s)) s
             in if r = -1 then bnd (brelse bp s) (\<lambda>_ s. Ok 0 s)
                else bnd (log_write bp s) (\<lambda>_ s.
                     bnd (brelse bp s) (\<lambda>_ s.
                     bnd (writei_loop ip (src_add src m) (i + of_nat m) (n - m) s) (\<lambda>tot s.
                     Ok (m + tot) s)))))))"
  by pat_completeness auto
termination
  by (relation "measure (\<lambda>(ip, src, i, n, s). n)") (auto simp: block_room_def kconst)

declare writei_loop.simps [simp del]

definition writei ::
  "nat \<Rightarrow> copy_src \<Rightarrow> u32 \<Rightarrow> u32 \<Rightarrow> 'z kfs_scheme \<Rightarrow> (int, 'z kfs_scheme) res" where
  "writei ip src i n s =
     (if i > i_size (itable s ! ip) \<or> i + n < i then Ok (-1) s
      else if unat (i + n) > MAXFILE * BSIZE then Ok (-1) s
      else bnd (writei_loop ip src i (unat n) s) (\<lambda>tot s.
        let i = i + of_nat tot;
            s = (if i > i_size (itable s ! ip) then upd_inode ip (\<lambda>x. x\<lparr>i_size := i\<rparr>) s else s)
        in bnd (iupdate ip s) (\<lambda>_ s. Ok (int tot) s)))"

section \<open>Directories\<close>

definition namecmp :: "u8 list \<Rightarrow> u8 list \<Rightarrow> int option" where
  "namecmp s t = strncmp s t DIRSIZ"

definition dirent_bytes :: "u16 \<Rightarrow> u8 list \<Rightarrow> u8 list" where
  "dirent_bytes inum name = le_bytes 2 (unat inum) @ name"

lemma readi_wrap: "i + n < i \<Longrightarrow> readi ip dst i n s = Ok (0, []) s"
  by (simp add: readi_def Let_def)

lemma readi_step:
  assumes "readi ip dst i 16 s = Ok (16, de) t"
  shows "2 ^ 32 - unat (i + 16) < 2 ^ 32 - unat i"
proof -
  have "i \<le> i + 16" using assms readi_wrap [of i 16 ip dst s] by force
  then have "unat i + unat (16 :: u32) < 2 ^ LENGTH(32)" by (simp only: no_olen_add_nat)
  then have "unat (i + 16) = unat i + 16" by (simp add: unat_word_ariths)
  moreover have "unat i < 2 ^ 32" using unsigned_less [of i] by simp
  ultimately show ?thesis by simp
qed

text \<open>\<open>dirlookup\<close> returns the inode with the byte offset of its entry, or nothing.\<close>

function dirlookup_loop ::
  "nat \<Rightarrow> u8 list \<Rightarrow> u32 \<Rightarrow> 'z kfs_scheme \<Rightarrow> ((nat \<times> u32) option, 'z kfs_scheme) res" where
  "dirlookup_loop dp name i s =
     (if i < i_size (itable s ! dp) then
        (case readi dp DstLocal i 16 s of
           Panic e \<Rightarrow> Panic e
         | Blocked \<Rightarrow> Blocked
         | Ok (r, de) t \<Rightarrow>
             if r \<noteq> 16 then Panic ''dirlookup read''
             else if get16 0 de \<noteq> 0 \<and> namecmp name (drop 2 de) = Some 0 then
               bnd (iget (i_dev (itable t ! dp)) (ucast (get16 0 de)) t) (\<lambda>ip t. Ok (Some (ip, i)) t)
             else dirlookup_loop dp name (i + 16) t)
      else Ok None s)"
  by pat_completeness auto
termination
proof (relation "measure (\<lambda>(dp, name, i, s). 2 ^ 32 - unat i)", goal_cases)
  case (2 dp name i s x1 s' r de)
  then have "readi dp DstLocal i 16 s = Ok (16, de) s'" by simp
  then show ?case using readi_step by auto
qed simp

declare dirlookup_loop.simps [simp del]

definition dirlookup ::
  "nat \<Rightarrow> u8 list \<Rightarrow> 'z kfs_scheme \<Rightarrow> ((nat \<times> u32) option, 'z kfs_scheme) res" where
  "dirlookup dp name s =
     (if i_type (itable s ! dp) \<noteq> T_DIR then Panic ''dirlookup not DIR''
      else dirlookup_loop dp name 0 s)"

text \<open>The search of \<open>dirlink\<close> for an empty entry: the offset to write at.\<close>

function dirlink_loop :: "nat \<Rightarrow> u32 \<Rightarrow> 'z kfs_scheme \<Rightarrow> (u32, 'z kfs_scheme) res" where
  "dirlink_loop dp i s =
     (if i < i_size (itable s ! dp) then
        (case readi dp DstLocal i 16 s of
           Panic e \<Rightarrow> Panic e
         | Blocked \<Rightarrow> Blocked
         | Ok (r, de) t \<Rightarrow>
             if r \<noteq> 16 then Panic ''dirlink read''
             else if get16 0 de = 0 then Ok i t
             else dirlink_loop dp (i + 16) t)
      else Ok i s)"
  by pat_completeness auto
termination
proof (relation "measure (\<lambda>(dp, i, s). 2 ^ 32 - unat i)", goal_cases)
  case (2 dp i s x1 s' r de)
  then have "readi dp DstLocal i 16 s = Ok (16, de) s'" by simp
  then show ?case using readi_step by auto
qed simp

declare dirlink_loop.simps [simp del]

definition dirlink :: "nat \<Rightarrow> u8 list \<Rightarrow> u32 \<Rightarrow> 'z kfs_scheme \<Rightarrow> (int, 'z kfs_scheme) res" where
  "dirlink dp name inum s =
     bnd (dirlookup dp name s) (\<lambda>r s.
       case r of
         Some (ip, i) \<Rightarrow> bnd (iput ip s) (\<lambda>_ s. Ok (-1) s)
       | None \<Rightarrow>
           bnd (dirlink_loop dp 0 s) (\<lambda>i s.
             case strncpy (replicate DIRSIZ 0) name (int DIRSIZ) of
               None \<Rightarrow> Panic ''array bounds''
             | Some nm \<Rightarrow>
                 bnd (writei dp (SrcLocal (dirent_bytes (ucast inum) nm)) i 16 s) (\<lambda>r s.
                   Ok (if r \<noteq> 16 then -1 else 0) s)))"

section \<open>Paths\<close>

text \<open>
  A path is the list of its characters before the terminator. \<open>skipelem\<close> returns the rest of
  the path and what it stores in \<open>name\<close>: at most \<open>DIRSIZ\<close> characters, followed by a
  terminator when there is room for one.
\<close>

definition slash :: u8 where "slash = 47"

definition skipelem :: "u8 list \<Rightarrow> (u8 list \<times> u8 list) option" where
  "skipelem path =
     (let path = dropWhile (\<lambda>c. c = slash) path in
      if path = [] then None
      else let s = takeWhile (\<lambda>c. c \<noteq> slash) path;
               path = dropWhile (\<lambda>c. c \<noteq> slash) path;
               name = (if length s \<ge> DIRSIZ then take DIRSIZ s else s @ [0])
           in Some (dropWhile (\<lambda>c. c = slash) path, name))"

lemma skipelem_shorter: "skipelem path = Some (rest, name) \<Longrightarrow> length rest < length path"
proof -
  assume a: "skipelem path = Some (rest, name)"
  let ?p = "dropWhile (\<lambda>c. c = slash) path"
  show ?thesis
  proof (cases ?p)
    case Nil
    with a show ?thesis by (simp add: skipelem_def)
  next
    case (Cons c cs)
    then have c: "c \<noteq> slash" by (simp add: dropWhile_eq_Cons_conv)
    have "rest = dropWhile (\<lambda>c. c = slash) (dropWhile (\<lambda>c. c \<noteq> slash) ?p)"
      using a Cons by (simp add: skipelem_def Let_def)
    then have "length rest \<le> length (dropWhile (\<lambda>c. c \<noteq> slash) ?p)"
      by (simp add: length_dropWhile_le)
    also have "\<dots> \<le> length cs" using c by (simp add: Cons length_dropWhile_le)
    also have "\<dots> < length ?p" by (simp add: Cons)
    also have "\<dots> \<le> length path" by (rule length_dropWhile_le)
    finally show ?thesis .
  qed
qed

function namex_loop ::
  "nat \<Rightarrow> u8 list \<Rightarrow> u8 list \<Rightarrow> bool \<Rightarrow> 'z kfs_scheme \<Rightarrow> (nat option \<times> u8 list, 'z kfs_scheme) res" where
  "namex_loop ip path name nameiparent s =
     (case skipelem path of
        None \<Rightarrow> if nameiparent then bnd (iput ip s) (\<lambda>_ s. Ok (None, name) s) else Ok (Some ip, name) s
      | Some (path', name) \<Rightarrow>
          bnd (ilock ip s) (\<lambda>_ s.
            if i_type (itable s ! ip) \<noteq> T_DIR then bnd (iunlockput ip s) (\<lambda>_ s. Ok (None, name) s)
            else if nameiparent \<and> path' = [] then bnd (iunlock ip s) (\<lambda>_ s. Ok (Some ip, name) s)
            else bnd (dirlookup ip name s) (\<lambda>r s.
              case r of
                None \<Rightarrow> bnd (iunlockput ip s) (\<lambda>_ s. Ok (None, name) s)
              | Some (next, i) \<Rightarrow>
                  bnd (iunlockput ip s) (\<lambda>_ s. namex_loop next path' name nameiparent s))))"
  by pat_completeness auto
termination
  by (relation "measure (\<lambda>(ip, path, name, np, s). length path)") (auto dest: skipelem_shorter)

declare namex_loop.simps [simp del]

definition namex ::
  "u8 list \<Rightarrow> bool \<Rightarrow> 'z kfs_scheme \<Rightarrow> (nat option \<times> u8 list, 'z kfs_scheme) res" where
  "namex path nameiparent s =
     bnd (if path \<noteq> [] \<and> hd path = slash then iget ROOTDEV ROOTINO s
          else case myproc s of
                 None \<Rightarrow> Panic ''null pointer''
               | Some i \<Rightarrow> (case p_cwd (procs s ! i) of
                     None \<Rightarrow> Panic ''null pointer''
                   | Some ip \<Rightarrow> let (ip, s) = idup ip s in Ok ip s)) (\<lambda>ip s.
     namex_loop ip path [] nameiparent s)"

definition namei :: "u8 list \<Rightarrow> 'z kfs_scheme \<Rightarrow> (nat option, 'z kfs_scheme) res" where
  "namei path s = bnd (namex path False s) (\<lambda>(ip, name) s. Ok ip s)"

definition nameiparent ::
  "u8 list \<Rightarrow> 'z kfs_scheme \<Rightarrow> (nat option \<times> u8 list, 'z kfs_scheme) res" where
  "nameiparent path s = namex path True s"

end
