(* ===== verification/Printf.thy ===== *)
theory Printf
  imports Prelude
begin

text \<open>
  Formatted output of the kernel (\<^verbatim>\<open>kernel/printf.c\<close>) as the characters it sends to
  \<open>consputc\<close>, in order. Characters are bytes; the variable arguments of a call are a list of
  typed values, and a call that consumes more arguments than it was given, or one of another
  type, has no result.
\<close>

definition chars :: "string \<Rightarrow> u8 list" where
  "chars s = map of_char s"

definition digits :: "u8 list" where
  "digits = chars ''0123456789abcdef''"

text \<open>The digits of \<open>x\<close>, least significant first, as the \<^verbatim>\<open>do\<close> loop stores them.\<close>

function digit_loop :: "nat \<Rightarrow> nat \<Rightarrow> u8 list" where
  "digit_loop b x =
     (if b < 2 then [] else digits ! (x mod b) # (if x div b = 0 then [] else digit_loop b (x div b)))"
  by pat_completeness auto
termination
  by (relation "measure snd") (auto simp: div_greater_zero_iff intro!: div_less_dividend)

declare digit_loop.simps [simp del]

definition printint :: "u32 \<Rightarrow> nat \<Rightarrow> bool \<Rightarrow> u8 list" where
  "printint xx base sign =
     (let neg = (sign \<and> sint xx < 0);
          x = (if neg then - xx else xx);
          buf = digit_loop base (unat x)
      in rev (if neg then buf @ [of_char CHR ''-''] else buf))"

fun ptr_loop :: "nat \<Rightarrow> u64 \<Rightarrow> u8 list" where
  "ptr_loop 0 x = []"
| "ptr_loop (Suc n) x = digits ! unat (drop_bit 60 x) # ptr_loop n (push_bit 4 x)"

definition printptr :: "u64 \<Rightarrow> u8 list" where
  "printptr x = chars ''0x'' @ ptr_loop 16 x"

datatype parg = PInt u32 | PPtr u64 | PStr "u8 list option"

text \<open>\<open>percent\<close> is the state after a \<^verbatim>\<open>%\<close>; the strings carry their characters only.\<close>

fun printf_loop :: "bool \<Rightarrow> u8 list \<Rightarrow> parg list \<Rightarrow> u8 list option" where
  "printf_loop percent [] args = Some []"
| "printf_loop False (c # fmt) args =
     (if c = of_char CHR ''%'' then printf_loop True fmt args
      else map_option ((#) c) (printf_loop False fmt args))"
| "printf_loop True (c # fmt) args =
     (if c = of_char CHR ''d'' then
        (case args of PInt x # args \<Rightarrow>
            map_option ((@) (printint x 10 True)) (printf_loop False fmt args) | _ \<Rightarrow> None)
      else if c = of_char CHR ''x'' then
        (case args of PInt x # args \<Rightarrow>
            map_option ((@) (printint x 16 True)) (printf_loop False fmt args) | _ \<Rightarrow> None)
      else if c = of_char CHR ''p'' then
        (case args of PPtr x # args \<Rightarrow>
            map_option ((@) (printptr x)) (printf_loop False fmt args) | _ \<Rightarrow> None)
      else if c = of_char CHR ''s'' then
        (case args of PStr s # args \<Rightarrow>
            map_option ((@) (case s of None \<Rightarrow> chars ''(null)'' | Some s \<Rightarrow> s))
              (printf_loop False fmt args) | _ \<Rightarrow> None)
      else if c = of_char CHR ''%'' then
        map_option ((#) (of_char CHR ''%'')) (printf_loop False fmt args)
      else map_option (\<lambda>r. of_char CHR ''%'' # c # r) (printf_loop False fmt args))"

definition printf :: "string \<Rightarrow> parg list \<Rightarrow> u8 list option" where
  "printf fmt args = printf_loop False (chars fmt) args"

section \<open>Reading numbers back\<close>

definition digit_val :: "u8 \<Rightarrow> nat" where
  "digit_val c = (if c < of_char CHR ''a'' then unat c - 48 else unat c - 87)"

fun num_val :: "nat \<Rightarrow> u8 list \<Rightarrow> nat" where
  "num_val b [] = 0"
| "num_val b (c # cs) = digit_val c + b * num_val b cs"

definition int_val :: "nat \<Rightarrow> u8 list \<Rightarrow> int" where
  "int_val b cs = (if cs \<noteq> [] \<and> hd cs = of_char CHR ''-'' then - int (num_val b (rev (tl cs)))
     else int (num_val b (rev cs)))"

lemma digits_eq: "digits = [48, 49, 50, 51, 52, 53, 54, 55, 56, 57, 97, 98, 99, 100, 101, 102]"
  by (simp add: digits_def chars_def)

lemma less_16_cases: "n < 16 \<Longrightarrow>
  n \<in> {0, 1, 2, 3, 4, 5, 6, 7, 8, 9, 10, 11, 12, 13, 14, 15 :: nat}"
  by (simp, arith)

lemma digit_val_digits: "n < 16 \<Longrightarrow> digit_val (digits ! n) = n \<and> digits ! n \<noteq> 45"
  by (drule less_16_cases) (elim insertE emptyE; simp add: digits_eq digit_val_def)

lemma digit_loop_val: "2 \<le> b \<Longrightarrow> b \<le> 16 \<Longrightarrow> num_val b (digit_loop b x) = x"
proof (induction b x rule: digit_loop.induct)
  case (1 b x)
  have "x mod b < 16" using "1.prems" mod_less_divisor [of b x] by linarith
  then have "digit_val (digits ! (x mod b)) = x mod b" using digit_val_digits by blast
  with 1 show ?case by (subst digit_loop.simps) (auto simp: not_less div_eq_0_iff)
qed

lemma digit_loop_length: "2 \<le> b \<Longrightarrow> x < b ^ Suc n \<Longrightarrow> length (digit_loop b x) \<le> Suc n"
proof (induction n arbitrary: x)
  case 0
  then show ?case by (subst digit_loop.simps) simp
next
  case (Suc n)
  then have "x div b < b ^ Suc n" by (simp add: less_mult_imp_div_less mult.commute)
  with Suc show ?case by (subst digit_loop.simps) simp
qed

lemma digit_loop_no_minus: "2 \<le> b \<Longrightarrow> b \<le> 16 \<Longrightarrow> 45 \<notin> set (digit_loop b x)"
proof (induction b x rule: digit_loop.induct)
  case (1 b x)
  have "x mod b < 16" using "1.prems" mod_less_divisor [of b x] by linarith
  then have "digits ! (x mod b) \<noteq> 45" using digit_val_digits by blast
  with 1 show ?case by (subst digit_loop.simps) auto
qed

lemma printint_val:
  assumes "2 \<le> b" "b \<le> 16"
  shows "int_val b (printint x b True) = sint x" and "int_val b (printint x b False) = uint x"
proof -
  have nm: "45 \<notin> set (rev (digit_loop b y))" for y using digit_loop_no_minus [OF assms] by simp
  have pos: "int_val b (rev (digit_loop b y)) = int y" for y
  proof -
    have "\<not> (rev (digit_loop b y) \<noteq> [] \<and> hd (rev (digit_loop b y)) = of_char CHR ''-'')"
      using nm [of y] hd_in_set [of "rev (digit_loop b y)"] by auto
    then have "int_val b (rev (digit_loop b y)) = int (num_val b (digit_loop b y))"
      by (simp only: int_val_def if_False rev_rev_ident)
    then show ?thesis using digit_loop_val [OF assms, of y] by simp
  qed
  show "int_val b (printint x b False) = uint x" by (simp add: printint_def pos Let_def)
  show "int_val b (printint x b True) = sint x"
  proof (cases "sint x < 0")
    case True
    then have "int (unat (- x)) = - sint x"
      using uint_bounded [of x]
      by (simp add: sint_u32 uint_word_ariths(4) zmod_zminus1_eq_if split: if_splits)
    with True digit_loop_val [OF assms] show ?thesis by (simp add: printint_def int_val_def Let_def)
  next
    case False
    then have "int (unat x) = sint x" using uint_bounded [of x] by (simp add: sint_u32 split: if_splits)
    then show ?thesis by (simp only: printint_def Let_def False simp_thms if_False pos)
  qed
qed


section \<open>Properties\<close>

text \<open>
  C17. Number output round trip: reading the characters \<open>printint\<close> prints for \<^verbatim>\<open>%d\<close> and
  \<^verbatim>\<open>%x\<close> back in the same base gives the signed value of the argument for every 32 bit
  value, the most negative one included, and the characters fit the local buffer of 16.
\<close>

theorem printint_roundtrip:
  "int_val 10 (printint x 10 True) = sint x \<and> int_val 16 (printint x 16 True) = sint x
   \<and> int_val 10 (printint x 10 False) = uint x
   \<and> length (printint x 10 sign) \<le> 16 \<and> length (printint x 16 sign) \<le> 16"
proof -
  have lt: "unat y < 2 ^ 32" for y :: u32 using unsigned_less [of y] by simp
  have "unat y < 10 ^ Suc 9" "unat y < 16 ^ Suc 7" for y :: u32
    using lt [of y] by simp_all
  then have "length (digit_loop 10 (unat y)) \<le> 10" "length (digit_loop 16 (unat y)) \<le> 8" for y :: u32
    using digit_loop_length [of 10 "unat y" 9] digit_loop_length [of 16 "unat y" 7] by simp_all
  from this [of x] this [of "- x"] show ?thesis
    by (simp add: printint_val) (simp add: printint_def Let_def)
qed

end
