(* ===== verification/Console.thy ===== *)
theory Console
  imports Fs Printf
begin

text \<open>
  The serial line (\<^verbatim>\<open>kernel/uart.c\<close>) and the console on top of it (\<^verbatim>\<open>kernel/console.c\<close>),
  with \<open>procdump\<close> of \<^verbatim>\<open>kernel/proc.c\<close>, which the console calls.

  The device is a 16550 UART: \<open>uart_room\<close> is the number of bytes its transmitter accepts
  before \<^verbatim>\<open>LSR_TX_IDLE\<close> reads as zero, \<open>uart_out\<close> the bytes written to \<^verbatim>\<open>THR\<close>, oldest first,
  and \<open>uart_in\<close> the bytes that reading \<^verbatim>\<open>RHR\<close> will return. A busy wait for the transmitter
  ends when the device has sent a byte, so it has no effect here; waiting for a full buffer
  or for input is \<open>Blocked\<close>, and so is the endless loop of a hart after a panic.
\<close>

definition UART_TX_BUF_SIZE :: nat where [kconst]: "UART_TX_BUF_SIZE = 32"
definition INPUT_BUF_SIZE :: nat where [kconst]: "INPUT_BUF_SIZE = 128"
definition BACKSPACE :: int where [kconst]: "BACKSPACE = 0x100"

definition ctrl :: "char \<Rightarrow> int" where
  "ctrl x = of_char x - of_char CHR ''@''"

record kcons = kfs +
  uart_tx_buf :: "u8 list"
  uart_tx_w :: u64
  uart_tx_r :: u64
  uart_room :: nat
  uart_out :: "u8 list"
  uart_in :: "u8 list"
  panicked :: bool
  cons_buf :: "u8 list"
  cons_r :: u32
  cons_w :: u32
  cons_e :: u32
  devsw_console :: bool

section \<open>Serial line\<close>

text \<open>\<^verbatim>\<open>WriteReg(THR, c)\<close>.\<close>

definition write_THR :: "u8 \<Rightarrow> 'z kcons_scheme \<Rightarrow> 'z kcons_scheme" where
  "write_THR c s = s\<lparr>uart_out := uart_out s @ [c], uart_room := uart_room s - 1\<rparr>"

function uartstart :: "'z kcons_scheme \<Rightarrow> 'z kcons_scheme" where
  "uartstart s =
     (if uart_tx_w s = uart_tx_r s then s
      else if uart_room s = 0 then s
      else let c = uart_tx_buf s ! (unat (uart_tx_r s) mod UART_TX_BUF_SIZE);
               s = wakeup ChUartTx (s\<lparr>uart_tx_r := uart_tx_r s + 1\<rparr>)
           in uartstart (write_THR c s))"
  by pat_completeness auto
termination
  by (relation "measure uart_room") (auto simp: write_THR_def wakeup_def)

declare uartstart.simps [simp del]

definition uartputc :: "u8 \<Rightarrow> 'z kcons_scheme \<Rightarrow> (unit, 'z kcons_scheme) res" where
  "uartputc c s =
     (if panicked s then Blocked
      else if uart_tx_w s = uart_tx_r s + of_nat UART_TX_BUF_SIZE then Blocked
      else Ok () (uartstart (s\<lparr>
        uart_tx_buf := (uart_tx_buf s)[unat (uart_tx_w s) mod UART_TX_BUF_SIZE := c],
        uart_tx_w := uart_tx_w s + 1\<rparr>)))"

definition uartputc_sync :: "int \<Rightarrow> 'z kcons_scheme \<Rightarrow> (unit, 'z kcons_scheme) res" where
  "uartputc_sync c s =
     (let cpu = push_off (mycpu s) in
      if panicked s then Blocked
      else bnd (pop_off cpu) (\<lambda>_ cpu. Ok () (set_mycpu cpu (write_THR (word_of_int c) s))))"

definition uartgetc :: "'z kcons_scheme \<Rightarrow> int \<times> 'z kcons_scheme" where
  "uartgetc s = (case uart_in s of [] \<Rightarrow> (-1, s) | c # cs \<Rightarrow> (uint c, s\<lparr>uart_in := cs\<rparr>))"

section \<open>Console output\<close>

definition consputc :: "int \<Rightarrow> 'z kcons_scheme \<Rightarrow> (unit, 'z kcons_scheme) res" where
  "consputc c s =
     (if c = BACKSPACE then
        bnd (uartputc_sync 8 s) (\<lambda>_ s.
        bnd (uartputc_sync 32 s) (\<lambda>_ s.
        uartputc_sync 8 s))
      else uartputc_sync c s)"

fun consputs :: "u8 list \<Rightarrow> 'z kcons_scheme \<Rightarrow> (unit, 'z kcons_scheme) res" where
  "consputs [] s = Ok () s"
| "consputs (c # cs) s = bnd (consputc (uint c) s) (\<lambda>_ s. consputs cs s)"

definition kprintf :: "string \<Rightarrow> parg list \<Rightarrow> 'z kcons_scheme \<Rightarrow> (unit, 'z kcons_scheme) res" where
  "kprintf fmt args s =
     (case printf fmt args of None \<Rightarrow> Panic ''va_arg'' | Some cs \<Rightarrow> consputs cs s)"

fun state_name :: "procstate \<Rightarrow> string" where
  "state_name UNUSED = ''unused''"
| "state_name USED = ''used''"
| "state_name SLEEPING = ''sleep ''"
| "state_name RUNNABLE = ''runble''"
| "state_name RUNNING = ''run   ''"
| "state_name ZOMBIE = ''zombie''"

fun procdump_loop :: "proc list \<Rightarrow> 'z kcons_scheme \<Rightarrow> (unit, 'z kcons_scheme) res" where
  "procdump_loop [] s = Ok () s"
| "procdump_loop (p # ps) s =
     (if p_state p = UNUSED then procdump_loop ps s
      else bnd (kprintf ''%d %s %s'' [PInt (word_of_int (p_pid p)),
             PStr (Some (chars (state_name (p_state p)))), PStr (Some (cstr (p_name p)))] s) (\<lambda>_ s.
           bnd (consputs [10] s) (\<lambda>_ s.
           procdump_loop ps s)))"

definition procdump :: "'z kcons_scheme \<Rightarrow> (unit, 'z kcons_scheme) res" where
  "procdump s = bnd (consputs [10] s) (\<lambda>_ s. procdump_loop (procs s) s)"

section \<open>Console device\<close>

definition consoleinit :: "'z kcons_scheme \<Rightarrow> 'z kcons_scheme" where
  "consoleinit s = s\<lparr>devsw_console := True\<rparr>"

fun consolewrite_loop ::
  "copy_src \<Rightarrow> nat \<Rightarrow> nat \<Rightarrow> 'z kcons_scheme \<Rightarrow> (int, 'z kcons_scheme) res" where
  "consolewrite_loop src i 0 s = Ok (int i) s"
| "consolewrite_loop src i (Suc k) s =
     bnd (either_copyin (src_add src i) 1 s) (\<lambda>(r, c) s.
       if r = -1 then Ok (int i) s
       else bnd (uartputc (hd c) s) (\<lambda>_ s. consolewrite_loop src (Suc i) k s))"

definition consolewrite :: "copy_src \<Rightarrow> int \<Rightarrow> 'z kcons_scheme \<Rightarrow> (int, 'z kcons_scheme) res" where
  "consolewrite src n s = consolewrite_loop src 0 (nat n) s"

text \<open>\<open>n\<close> counts the bytes still wanted, \<open>target\<close> the bytes asked for; the result is \<open>n\<close>.\<close>

fun consoleread_loop ::
  "copy_dst \<Rightarrow> nat \<Rightarrow> nat \<Rightarrow> 'z kcons_scheme \<Rightarrow> (int option, 'z kcons_scheme) res" where
  "consoleread_loop dst target 0 s = Ok (Some 0) s"
| "consoleread_loop dst target (Suc n) s =
     (if cons_r s = cons_w s then
        (case myproc s of
           None \<Rightarrow> Panic ''null pointer''
         | Some i \<Rightarrow> if killed i s \<noteq> 0 then Ok None s else Blocked)
      else let c = cons_buf s ! (unat (cons_r s) mod INPUT_BUF_SIZE);
               s = s\<lparr>cons_r := cons_r s + 1\<rparr>
           in if uint c = ctrl CHR ''D'' then
                Ok (Some (int (Suc n))) (if Suc n < target then s\<lparr>cons_r := cons_r s - 1\<rparr> else s)
              else bnd (either_copyout dst [c] s) (\<lambda>r s.
                if r = -1 then Ok (Some (int (Suc n))) s
                else if c = 10 then Ok (Some (int n)) s
                else consoleread_loop (dst_add dst 1) target n s))"

definition consoleread :: "copy_dst \<Rightarrow> int \<Rightarrow> 'z kcons_scheme \<Rightarrow> (int, 'z kcons_scheme) res" where
  "consoleread dst n s =
     (if n \<le> 0 then Ok 0 s
      else bnd (consoleread_loop dst (nat n) (nat n) s) (\<lambda>r s.
        case r of None \<Rightarrow> Ok (-1) s | Some left \<Rightarrow> Ok (n - left) s))"

lemma cons_set_mycpu [simp]:
  "cons_e (set_mycpu c s) = cons_e s" "cons_w (set_mycpu c s) = cons_w s"
  "cons_r (set_mycpu c s) = cons_r s" "cons_buf (set_mycpu c s) = cons_buf s"
  "uart_out (set_mycpu c s) = uart_out s" "panicked (set_mycpu c s) = panicked s"
  by (simp_all add: set_mycpu_def)

lemma uartputc_sync_frame:
  assumes "uartputc_sync c s = Ok u t"
  shows "cons_e t = cons_e s \<and> cons_w t = cons_w s \<and> cons_r t = cons_r s \<and> cons_buf t = cons_buf s"
  using assms by (auto simp: uartputc_sync_def Let_def res_simps write_THR_def split: if_splits)

lemma consputc_frame:
  assumes "consputc c s = Ok u t"
  shows "cons_e t = cons_e s \<and> cons_w t = cons_w s \<and> cons_r t = cons_r s \<and> cons_buf t = cons_buf s"
  using assms
  by (auto simp: consputc_def res_simps split: if_splits dest!: uartputc_sync_frame)

text \<open>Erasing the current line; the distance from \<open>e\<close> back to \<open>w\<close> bounds the loop.\<close>

function kill_line :: "'z kcons_scheme \<Rightarrow> (unit, 'z kcons_scheme) res" where
  "kill_line s =
     (if cons_e s \<noteq> cons_w s \<and> cons_buf s ! (unat (cons_e s - 1) mod INPUT_BUF_SIZE) \<noteq> 10 then
        bnd (consputc BACKSPACE (s\<lparr>cons_e := cons_e s - 1\<rparr>)) (\<lambda>_ s. kill_line s)
      else Ok () s)"
  by pat_completeness auto
termination
proof (relation "measure (\<lambda>s. unat (cons_e s - cons_w s))", goal_cases)
  case (2 s u t)
  then have t: "cons_e t = cons_e s - 1" "cons_w t = cons_w s"
    using consputc_frame [of BACKSPACE "s\<lparr>cons_e := cons_e s - 1\<rparr>" u t] by auto
  have d: "cons_e s - cons_w s \<noteq> 0" using 2 by simp
  have "unat (cons_e s - cons_w s - 1) < unat (cons_e s - cons_w s)"
    using d unat_minus_one [OF d] unat_eq_zero [of "cons_e s - cons_w s"] by linarith
  moreover have "cons_e t - cons_w t = cons_e s - cons_w s - 1" by (simp add: t)
  ultimately show ?case by simp
qed simp

declare kill_line.simps [simp del]

definition consoleintr :: "int \<Rightarrow> 'z kcons_scheme \<Rightarrow> (unit, 'z kcons_scheme) res" where
  "consoleintr c s =
     (if c = ctrl CHR ''P'' then procdump s
      else if c = ctrl CHR ''U'' then kill_line s
      else if c = ctrl CHR ''H'' \<or> c = 0x7f then
        (if cons_e s \<noteq> cons_w s then consputc BACKSPACE (s\<lparr>cons_e := cons_e s - 1\<rparr>) else Ok () s)
      else if c \<noteq> 0 \<and> unat (cons_e s - cons_r s) < INPUT_BUF_SIZE then
        let c = (if c = 13 then 10 else c) in
        bnd (consputc c s) (\<lambda>_ s.
          let s = s\<lparr>cons_buf := (cons_buf s)[unat (cons_e s) mod INPUT_BUF_SIZE := word_of_int c],
                    cons_e := cons_e s + 1\<rparr>
          in Ok () (if c = 10 \<or> c = ctrl CHR ''D'' \<or> unat (cons_e s - cons_r s) = INPUT_BUF_SIZE
                    then wakeup ChCons (s\<lparr>cons_w := cons_e s\<rparr>) else s))
      else Ok () s)"

text \<open>The input loop of \<open>uartintr\<close> consumes the bytes the device has received.\<close>

fun uartintr_loop :: "nat \<Rightarrow> 'z kcons_scheme \<Rightarrow> (unit, 'z kcons_scheme) res" where
  "uartintr_loop 0 s = Blocked"
| "uartintr_loop (Suc n) s =
     (let (c, s) = uartgetc s in
      if c = -1 then Ok () s else bnd (consoleintr c s) (\<lambda>_ s. uartintr_loop n s))"

definition uartintr :: "'z kcons_scheme \<Rightarrow> (unit, 'z kcons_scheme) res" where
  "uartintr s = bnd (uartintr_loop (Suc (length (uart_in s))) s) (\<lambda>_ s. Ok () (uartstart s))"

end
