(* ===== verification/File.thy ===== *)
theory File
  imports Console
begin

text \<open>
  Open files (\<^verbatim>\<open>kernel/file.h\<close>, \<^verbatim>\<open>kernel/file.c\<close>) and pipes (\<^verbatim>\<open>kernel/pipe.c\<close>). A pointer into
  the file table is an index. A \<^verbatim>\<open>struct pipe\<close> lives in a page of its own and is found by the
  address of that page; its lock guards the routines as a whole. A reader or writer that has
  to sleep is reported with the state it leaves behind, so that it can be resumed.
\<close>

definition PIPESIZE :: nat where [kconst]: "PIPESIZE = 512"
definition CONSOLE :: int where [kconst]: "CONSOLE = 1"

datatype filetype = FD_NONE | FD_PIPE | FD_INODE | FD_DEVICE

record file_t =
  f_type :: filetype
  f_ref :: int
  f_readable :: bool
  f_writable :: bool
  f_pipe :: u64
  f_ip :: nat
  f_off :: u32
  f_major :: u16

record pipe =
  pi_data :: "u8 list"
  pi_nread :: u32
  pi_nwrite :: u32
  pi_readopen :: bool
  pi_writeopen :: bool

record kfile = kcons +
  ftable :: "file_t list"
  pipes :: "u64 \<Rightarrow> pipe"

definition upd_file :: "nat \<Rightarrow> (file_t \<Rightarrow> file_t) \<Rightarrow> 'z kfile_scheme \<Rightarrow> 'z kfile_scheme" where
  "upd_file f g s = s\<lparr>ftable := (ftable s)[f := g (ftable s ! f)]\<rparr>"

definition upd_pipe :: "u64 \<Rightarrow> (pipe \<Rightarrow> pipe) \<Rightarrow> 'z kfile_scheme \<Rightarrow> 'z kfile_scheme" where
  "upd_pipe pi g s = s\<lparr>pipes := (pipes s)(pi := g (pipes s pi))\<rparr>"

section \<open>File table\<close>

definition filealloc :: "'z kfile_scheme \<Rightarrow> nat option \<times> 'z kfile_scheme" where
  "filealloc s =
     (case find_idx (\<lambda>f. f_ref f = 0) (ftable s) of
        Some f \<Rightarrow> (Some f, upd_file f (\<lambda>x. x\<lparr>f_ref := 1\<rparr>) s)
      | None \<Rightarrow> (None, s))"

definition filedup :: "nat \<Rightarrow> 'z kfile_scheme \<Rightarrow> (nat, 'z kfile_scheme) res" where
  "filedup f s =
     (if f_ref (ftable s ! f) < 1 then Panic ''filedup''
      else Ok f (upd_file f (\<lambda>x. x\<lparr>f_ref := f_ref x + 1\<rparr>) s))"

definition pipeclose :: "u64 \<Rightarrow> bool \<Rightarrow> 'z kfile_scheme \<Rightarrow> (unit, 'z kfile_scheme) res" where
  "pipeclose pi writable s =
     (let s = (if writable
               then wakeup (ChPipeRead pi) (upd_pipe pi (\<lambda>p. p\<lparr>pi_writeopen := False\<rparr>) s)
               else wakeup (ChPipeWrite pi) (upd_pipe pi (\<lambda>p. p\<lparr>pi_readopen := False\<rparr>) s))
      in if \<not> pi_readopen (pipes s pi) \<and> \<not> pi_writeopen (pipes s pi) then kfree pi s else Ok () s)"

definition fileclose :: "nat \<Rightarrow> 'z kfile_scheme \<Rightarrow> (unit, 'z kfile_scheme) res" where
  "fileclose f s =
     (if f_ref (ftable s ! f) < 1 then Panic ''fileclose''
      else let s = upd_file f (\<lambda>x. x\<lparr>f_ref := f_ref x - 1\<rparr>) s
      in if f_ref (ftable s ! f) > 0 then Ok () s
      else let ff = ftable s ! f;
               s = upd_file f (\<lambda>x. x\<lparr>f_ref := 0, f_type := FD_NONE\<rparr>) s
      in case f_type ff of
           FD_PIPE \<Rightarrow> pipeclose (f_pipe ff) (f_writable ff) s
         | FD_NONE \<Rightarrow> Ok () s
         | _ \<Rightarrow> bnd (begin_op s) (\<lambda>_ s. bnd (iput (f_ip ff) s) (\<lambda>_ s. end_op s)))"

section \<open>Pipes\<close>

definition close_opt :: "nat option \<Rightarrow> 'z kfile_scheme \<Rightarrow> (unit, 'z kfile_scheme) res" where
  "close_opt f s = (case f of None \<Rightarrow> Ok () s | Some f \<Rightarrow> fileclose f s)"

definition pipealloc :: "'z kfile_scheme \<Rightarrow> ((nat \<times> nat) option, 'z kfile_scheme) res" where
  "pipealloc s =
     (let (f0, s) = filealloc s;
          (f1, s) = (case f0 of None \<Rightarrow> (None, s) | Some _ \<Rightarrow> filealloc s);
          bad = (\<lambda>s. bnd (close_opt f0 s) (\<lambda>_ s. bnd (close_opt f1 s) (\<lambda>_ s. Ok None s)))
      in case (f0, f1) of
           (Some a, Some b) \<Rightarrow>
             bnd (kalloc s) (\<lambda>pi s.
               if pi = 0 then bad s
               else let s = upd_pipe pi (\<lambda>_. \<lparr>pi_data = read_bytes (mem s) pi PIPESIZE, pi_nread = 0,
                          pi_nwrite = 0, pi_readopen = True, pi_writeopen = True\<rparr>) s;
                        s = upd_file a (\<lambda>x. x\<lparr>f_type := FD_PIPE, f_readable := True,
                              f_writable := False, f_pipe := pi\<rparr>) s;
                        s = upd_file b (\<lambda>x. x\<lparr>f_type := FD_PIPE, f_readable := False,
                              f_writable := True, f_pipe := pi\<rparr>) s
                    in Ok (Some (a, b)) s)
         | _ \<Rightarrow> bad s)"

definition pipe_put :: "u8 \<Rightarrow> pipe \<Rightarrow> pipe" where
  "pipe_put c p = p\<lparr>pi_data := (pi_data p)[unat (pi_nwrite p) mod PIPESIZE := c],
     pi_nwrite := pi_nwrite p + 1\<rparr>"

definition pipe_get :: "pipe \<Rightarrow> u8 \<times> pipe" where
  "pipe_get p = (pi_data p ! (unat (pi_nread p) mod PIPESIZE), p\<lparr>pi_nread := pi_nread p + 1\<rparr>)"

datatype pipe_end = Returns int | Sleeps nat

fun pipewrite_loop ::
  "u64 \<Rightarrow> u64 \<Rightarrow> nat \<Rightarrow> nat \<Rightarrow> 'z kfile_scheme \<Rightarrow> (pipe_end, 'z kfile_scheme) res" where
  "pipewrite_loop pi addr i 0 s = Ok (Returns (int i)) (wakeup (ChPipeRead pi) s)"
| "pipewrite_loop pi addr i (Suc k) s =
     (case myproc s of
        None \<Rightarrow> Panic ''null pointer''
      | Some pr \<Rightarrow>
          if \<not> pi_readopen (pipes s pi) \<or> killed pr s \<noteq> 0 then Ok (Returns (-1)) s
          else if pi_nwrite (pipes s pi) = pi_nread (pipes s pi) + of_nat PIPESIZE
          then Ok (Sleeps i) (wakeup (ChPipeRead pi) s)
          else bnd (copyin (p_pagetable (procs s ! pr)) (addr + of_nat i) 1 s) (\<lambda>(r, c) s.
            if r = -1 then Ok (Returns (int i)) (wakeup (ChPipeRead pi) s)
            else pipewrite_loop pi addr (Suc i) k (upd_pipe pi (pipe_put (hd c)) s)))"

fun piperead_loop ::
  "u64 \<Rightarrow> u64 \<Rightarrow> nat \<Rightarrow> nat \<Rightarrow> 'z kfile_scheme \<Rightarrow> (int, 'z kfile_scheme) res" where
  "piperead_loop pi addr i 0 s = Ok (int i) s"
| "piperead_loop pi addr i (Suc k) s =
     (case myproc s of
        None \<Rightarrow> Panic ''null pointer''
      | Some pr \<Rightarrow>
          if pi_nread (pipes s pi) = pi_nwrite (pipes s pi) then Ok (int i) s
          else let (ch, p) = pipe_get (pipes s pi)
               in bnd (copyout (p_pagetable (procs s ! pr)) (addr + of_nat i) [ch]
                        (upd_pipe pi (\<lambda>_. p) s)) (\<lambda>r s.
                    if r = -1 then Ok (int i) s else piperead_loop pi addr (Suc i) k s))"

definition pipe_wait :: "pipe_end \<Rightarrow> 'z kfile_scheme \<Rightarrow> (int, 'z kfile_scheme) res" where
  "pipe_wait r s = (case r of Returns v \<Rightarrow> Ok v s | Sleeps i \<Rightarrow> Blocked)"

definition pipewrite :: "u64 \<Rightarrow> u64 \<Rightarrow> int \<Rightarrow> 'z kfile_scheme \<Rightarrow> (int, 'z kfile_scheme) res" where
  "pipewrite pi addr n s = bnd (pipewrite_loop pi addr 0 (nat n) s) pipe_wait"

definition piperead :: "u64 \<Rightarrow> u64 \<Rightarrow> int \<Rightarrow> 'z kfile_scheme \<Rightarrow> (int, 'z kfile_scheme) res" where
  "piperead pi addr n s =
     (case myproc s of
        None \<Rightarrow> Panic ''null pointer''
      | Some pr \<Rightarrow>
          if pi_nread (pipes s pi) = pi_nwrite (pipes s pi) \<and> pi_writeopen (pipes s pi) then
            (if killed pr s \<noteq> 0 then Ok (-1) s else Blocked)
          else bnd (piperead_loop pi addr 0 (nat n) s) (\<lambda>i s. Ok i (wakeup (ChPipeWrite pi) s)))"

section \<open>Operations on open files\<close>

text \<open>\<^verbatim>\<open>struct stat\<close> as it is copied to user space, 24 bytes.\<close>

definition stat_bytes :: "stat \<Rightarrow> u8 list" where
  "stat_bytes st = le_bytes 4 (unat (st_dev st)) @ le_bytes 4 (unat (st_ino st))
     @ le_bytes 2 (unat (st_type st)) @ le_bytes 2 (unat (st_nlink st)) @ replicate 4 0
     @ le_bytes 8 (unat (st_size st))"

definition filestat :: "nat \<Rightarrow> u64 \<Rightarrow> 'z kfile_scheme \<Rightarrow> (int, 'z kfile_scheme) res" where
  "filestat f addr s =
     (let ff = ftable s ! f in
      if f_type ff = FD_INODE \<or> f_type ff = FD_DEVICE then
        bnd (ilock (f_ip ff) s) (\<lambda>_ s.
        let st = stati (f_ip ff) s in
        bnd (iunlock (f_ip ff) s) (\<lambda>_ s.
        bnd (either_copyout (DstUser addr) (stat_bytes st) s) (\<lambda>r s.
        Ok (if r < 0 then -1 else 0) s)))
      else Ok (-1) s)"

definition dev_ok :: "file_t \<Rightarrow> 'z kfile_scheme \<Rightarrow> bool" where
  "dev_ok ff s \<longleftrightarrow> sint (f_major ff) \<ge> 0 \<and> sint (f_major ff) < int NDEV
     \<and> (sint (f_major ff) = CONSOLE \<and> devsw_console s)"

definition fileread :: "nat \<Rightarrow> u64 \<Rightarrow> int \<Rightarrow> 'z kfile_scheme \<Rightarrow> (int, 'z kfile_scheme) res" where
  "fileread f addr n s =
     (let ff = ftable s ! f in
      if \<not> f_readable ff then Ok (-1) s
      else case f_type ff of
        FD_PIPE \<Rightarrow> piperead (f_pipe ff) addr n s
      | FD_DEVICE \<Rightarrow> if \<not> dev_ok ff s then Ok (-1) s else consoleread (DstUser addr) n s
      | FD_INODE \<Rightarrow>
          bnd (ilock (f_ip ff) s) (\<lambda>_ s.
          bnd (readi (f_ip ff) (DstUser addr) (f_off ff) (word_of_int n) s) (\<lambda>(r, bs) s.
          let s = (if r > 0 then upd_file f (\<lambda>x. x\<lparr>f_off := f_off x + word_of_int r\<rparr>) s else s) in
          bnd (iunlock (f_ip ff) s) (\<lambda>_ s. Ok r s)))
      | FD_NONE \<Rightarrow> Panic ''fileread'')"

definition write_max :: int where
  "write_max = ((int MAXOPBLOCKS - 1 - 1 - 2) div 2) * int BSIZE"

text \<open>One transaction of \<open>filewrite\<close>: at most \<open>write_max\<close> bytes.\<close>

definition write_chunk :: "nat \<Rightarrow> u64 \<Rightarrow> int \<Rightarrow> 'z kfile_scheme \<Rightarrow> (int, 'z kfile_scheme) res" where
  "write_chunk f addr n1 s =
     bnd (begin_op s) (\<lambda>_ s.
     let ff = ftable s ! f in
     bnd (ilock (f_ip ff) s) (\<lambda>_ s.
     bnd (writei (f_ip ff) (SrcUser addr) (f_off (ftable s ! f)) (word_of_int n1) s) (\<lambda>r s.
     let s = (if r > 0 then upd_file f (\<lambda>x. x\<lparr>f_off := f_off x + word_of_int r\<rparr>) s else s) in
     bnd (iunlock (f_ip ff) s) (\<lambda>_ s.
     bnd (end_op s) (\<lambda>_ s. Ok r s)))))"

function filewrite_loop ::
  "nat \<Rightarrow> u64 \<Rightarrow> int \<Rightarrow> int \<Rightarrow> 'z kfile_scheme \<Rightarrow> (int, 'z kfile_scheme) res" where
  "filewrite_loop f addr i n s =
     (if i < n then
        let n1 = min (n - i) write_max
        in bnd (write_chunk f (addr + word_of_int i) n1 s) (\<lambda>r s.
             if r \<noteq> n1 then Ok i s else filewrite_loop f addr (i + r) n s)
      else Ok i s)"
  by pat_completeness auto
termination
  by (relation "measure (\<lambda>(f, addr, i, n, s). nat (n - i))") (auto simp: write_max_def kconst)

declare filewrite_loop.simps [simp del]

definition filewrite :: "nat \<Rightarrow> u64 \<Rightarrow> int \<Rightarrow> 'z kfile_scheme \<Rightarrow> (int, 'z kfile_scheme) res" where
  "filewrite f addr n s =
     (let ff = ftable s ! f in
      if \<not> f_writable ff then Ok (-1) s
      else case f_type ff of
        FD_PIPE \<Rightarrow> pipewrite (f_pipe ff) addr n s
      | FD_DEVICE \<Rightarrow> if \<not> dev_ok ff s then Ok (-1) s else consolewrite (SrcUser addr) n s
      | FD_INODE \<Rightarrow> bnd (filewrite_loop f addr 0 n s) (\<lambda>i s. Ok (if i = n then n else -1) s)
      | FD_NONE \<Rightarrow> Panic ''filewrite'')"

end
