(* ===== verification/Proc.thy ===== *)
theory Proc
  imports File
begin

text \<open>
  Processes: the part of \<^verbatim>\<open>kernel/proc.c\<close> that creates, destroys and describes them. The
  entry that \<open>allocproc\<close> returns stays locked until its creator is done, so that the creation
  is one step; \<open>wait_lock\<close> and \<open>pid_lock\<close> guard single steps. \<open>trampoline\<close> and
  \<open>usertrap_addr\<close> are addresses the linker chooses, \<open>kernel_pagetable\<close> is that of \<^verbatim>\<open>kernel/vm.c\<close>,
  \<open>forkret_first\<close> is the static variable of \<open>forkret\<close>.
\<close>

record kernel = kfile +
  trampoline :: u64
  usertrap_addr :: u64
  kernel_pagetable :: u64
  forkret_first :: bool

text \<open>Byte offsets of the fields of \<^verbatim>\<open>struct trapframe\<close> that the kernel uses, and its size.\<close>

definition tf_kernel_satp :: u64 where "tf_kernel_satp = 0"
definition tf_kernel_sp :: u64 where "tf_kernel_sp = 8"
definition tf_kernel_trap :: u64 where "tf_kernel_trap = 16"
definition tf_epc :: u64 where "tf_epc = 24"
definition tf_kernel_hartid :: u64 where "tf_kernel_hartid = 32"
definition tf_sp :: u64 where "tf_sp = 48"
definition tf_a :: "nat \<Rightarrow> u64" where "tf_a n = 112 + 8 * of_nat n"
definition tf_size :: nat where "tf_size = 288"

lemmas tf_defs = tf_kernel_satp_def tf_kernel_sp_def tf_kernel_trap_def tf_epc_def
  tf_kernel_hartid_def tf_sp_def tf_a_def tf_size_def

section \<open>Allocation\<close>

definition allocpid :: "'z kproc_scheme \<Rightarrow> int \<times> 'z kproc_scheme" where
  "allocpid s = (nextpid s, s\<lparr>nextpid := nextpid s + 1\<rparr>)"

definition proc_pagetable :: "nat \<Rightarrow> 'z kernel_scheme \<Rightarrow> (u64, 'z kernel_scheme) res" where
  "proc_pagetable p s =
     bnd (uvmcreate s) (\<lambda>pagetable s.
       if pagetable = 0 then Ok 0 s
       else bnd (mappages pagetable TRAMPOLINE PGSIZE (trampoline s) (PTE_R OR PTE_X) s) (\<lambda>r s.
         if r < 0 then bnd (uvmfree pagetable 0 s) (\<lambda>_ s. Ok 0 s)
         else bnd (mappages pagetable TRAPFRAME PGSIZE (p_trapframe (procs s ! p)) (PTE_R OR PTE_W) s)
           (\<lambda>r s.
             if r < 0 then
               bnd (uvmunmap pagetable TRAMPOLINE 1 False s) (\<lambda>_ s.
               bnd (uvmfree pagetable 0 s) (\<lambda>_ s. Ok 0 s))
             else Ok pagetable s)))"

definition proc_freepagetable :: "u64 \<Rightarrow> u64 \<Rightarrow> 'z pmem_scheme \<Rightarrow> (unit, 'z pmem_scheme) res" where
  "proc_freepagetable pagetable sz s =
     bnd (uvmunmap pagetable TRAMPOLINE 1 False s) (\<lambda>_ s.
     bnd (uvmunmap pagetable TRAPFRAME 1 False s) (\<lambda>_ s.
     uvmfree pagetable sz s))"

definition clear_proc :: "proc \<Rightarrow> proc" where
  "clear_proc p = p\<lparr>p_pagetable := 0, p_sz := 0, p_pid := 0, p_parent := None,
     p_name := (p_name p)[0 := 0], p_chan := NullChan, p_killed := 0, p_xstate := 0,
     p_state := UNUSED, p_priority := 0, p_ticks_used := 0, p_ticks_total := 0,
     p_last_run_time := 0, p_num_scheduled := 0, p_num_demoted := 0, p_num_boosted := 0\<rparr>"

definition freeproc :: "nat \<Rightarrow> 'z kproc_scheme \<Rightarrow> (unit, 'z kproc_scheme) res" where
  "freeproc p s =
     bnd (if p_trapframe (procs s ! p) \<noteq> 0 then kfree (p_trapframe (procs s ! p)) s else Ok () s) (\<lambda>_ s.
     let s = upd_proc p (\<lambda>x. x\<lparr>p_trapframe := 0\<rparr>) s in
     bnd (if p_pagetable (procs s ! p) \<noteq> 0
          then proc_freepagetable (p_pagetable (procs s ! p)) (p_sz (procs s ! p)) s
          else Ok () s) (\<lambda>_ s.
     Ok () (upd_proc p clear_proc s)))"

definition start_proc :: "proc \<Rightarrow> proc" where
  "start_proc p = p\<lparr>p_context := AtForkret, p_priority := 0, p_ticks_used := 0,
     p_ticks_total := 0, p_last_run_time := 0, p_num_scheduled := 0, p_num_demoted := 0,
     p_num_boosted := 0\<rparr>"

definition allocproc :: "'z kernel_scheme \<Rightarrow> (nat option, 'z kernel_scheme) res" where
  "allocproc s =
     (case find_idx (\<lambda>p. p_state p = UNUSED) (procs s) of
        None \<Rightarrow> Ok None s
      | Some p \<Rightarrow>
          let (pid, s) = allocpid s;
              s = upd_proc p (\<lambda>x. x\<lparr>p_pid := pid, p_state := USED\<rparr>) s
          in bnd (kalloc s) (\<lambda>tf s.
             let s = upd_proc p (\<lambda>x. x\<lparr>p_trapframe := tf\<rparr>) s in
             if tf = 0 then bnd (freeproc p s) (\<lambda>_ s. Ok None s)
             else bnd (proc_pagetable p s) (\<lambda>pagetable s.
               let s = upd_proc p (\<lambda>x. x\<lparr>p_pagetable := pagetable\<rparr>) s in
               if pagetable = 0 then bnd (freeproc p s) (\<lambda>_ s. Ok None s)
               else Ok (Some p) (upd_proc p start_proc s))))"

text \<open>The machine code of \<^verbatim>\<open>user/initcode.S\<close> that is built into the kernel.\<close>

definition initcode :: "u8 list" where
  "initcode = [
     0x17, 0x05, 0x00, 0x00, 0x13, 0x05, 0x45, 0x02,
     0x97, 0x05, 0x00, 0x00, 0x93, 0x85, 0x35, 0x02,
     0x93, 0x08, 0x70, 0x00, 0x73, 0x00, 0x00, 0x00,
     0x93, 0x08, 0x20, 0x00, 0x73, 0x00, 0x00, 0x00,
     0xef, 0xf0, 0x9f, 0xff, 0x2f, 0x69, 0x6e, 0x69,
     0x74, 0x00, 0x00, 0x24, 0x00, 0x00, 0x00, 0x00,
     0x00, 0x00, 0x00, 0x00]"

definition set_name :: "nat \<Rightarrow> u8 list \<Rightarrow> 'z kproc_scheme \<Rightarrow> (unit, 'z kproc_scheme) res" where
  "set_name p name s =
     (case safestrcpy (p_name (procs s ! p)) name 16 of
        None \<Rightarrow> Panic ''array bounds''
      | Some nm \<Rightarrow> Ok () (upd_proc p (\<lambda>x. x\<lparr>p_name := nm\<rparr>) s))"

definition set_tf :: "nat \<Rightarrow> u64 \<Rightarrow> u64 \<Rightarrow> 'z kproc_scheme \<Rightarrow> 'z kproc_scheme" where
  "set_tf p i v s = s\<lparr>mem := store64 (mem s) (p_trapframe (procs s ! p) + i) v\<rparr>"

definition userinit :: "'z kernel_scheme \<Rightarrow> (unit, 'z kernel_scheme) res" where
  "userinit s =
     bnd (allocproc s) (\<lambda>r s.
       case r of
         None \<Rightarrow> Panic ''null pointer''
       | Some p \<Rightarrow>
           let s = s\<lparr>initproc := Some p\<rparr> in
           bnd (uvmfirst (p_pagetable (procs s ! p)) initcode s) (\<lambda>_ s.
           let s = upd_proc p (\<lambda>x. x\<lparr>p_sz := PGSIZE\<rparr>) s;
               s = set_tf p tf_epc 0 s;
               s = set_tf p tf_sp PGSIZE s
           in bnd (set_name p (chars ''initcode'' @ [0]) s) (\<lambda>_ s.
              bnd (namei (chars ''/'') s) (\<lambda>cwd s.
              Ok () (upd_proc p (\<lambda>x. x\<lparr>p_cwd := cwd, p_state := RUNNABLE\<rparr>) s)))))"

definition growproc :: "int \<Rightarrow> 'z kernel_scheme \<Rightarrow> (int, 'z kernel_scheme) res" where
  "growproc n s =
     (case myproc s of
        None \<Rightarrow> Panic ''null pointer''
      | Some p \<Rightarrow>
          let sz = p_sz (procs s ! p); pt = p_pagetable (procs s ! p) in
          if n > 0 then
            bnd (uvmalloc pt sz (sz + word_of_int n) PTE_W s) (\<lambda>sz s.
              if sz = 0 then Ok (-1) s else Ok 0 (upd_proc p (\<lambda>x. x\<lparr>p_sz := sz\<rparr>) s))
          else if n < 0 then
            bnd (uvmdealloc pt sz (sz + word_of_int n) s) (\<lambda>sz s.
              Ok 0 (upd_proc p (\<lambda>x. x\<lparr>p_sz := sz\<rparr>) s))
          else Ok 0 (upd_proc p (\<lambda>x. x\<lparr>p_sz := sz\<rparr>) s))"

section \<open>Fork, exit, wait\<close>

fun fork_files :: "nat \<Rightarrow> nat \<Rightarrow> nat option list \<Rightarrow> 'z kernel_scheme \<Rightarrow> (unit, 'z kernel_scheme) res" where
  "fork_files np i [] s = Ok () s"
| "fork_files np i (None # fs) s = fork_files np (Suc i) fs s"
| "fork_files np i (Some f # fs) s =
     bnd (filedup f s) (\<lambda>f s.
       fork_files np (Suc i) fs (upd_proc np (\<lambda>x. x\<lparr>p_ofile := (p_ofile x)[i := Some f]\<rparr>) s))"

definition fork :: "'z kernel_scheme \<Rightarrow> (int, 'z kernel_scheme) res" where
  "fork s =
     (case myproc s of
        None \<Rightarrow> Panic ''null pointer''
      | Some p \<Rightarrow>
          bnd (allocproc s) (\<lambda>r s.
            case r of
              None \<Rightarrow> Ok (-1) s
            | Some np \<Rightarrow>
                bnd (uvmcopy (p_pagetable (procs s ! p)) (p_pagetable (procs s ! np))
                       (p_sz (procs s ! p)) s) (\<lambda>r s.
                if r < 0 then bnd (freeproc np s) (\<lambda>_ s. Ok (-1) s)
                else
                  let s = upd_proc np (\<lambda>x. x\<lparr>p_sz := p_sz (procs s ! p)\<rparr>) s;
                      s = s\<lparr>mem := write_bytes (mem s) (p_trapframe (procs s ! np))
                            (read_bytes (mem s) (p_trapframe (procs s ! p)) tf_size)\<rparr>;
                      s = set_tf np (tf_a 0) 0 s
                  in bnd (fork_files np 0 (p_ofile (procs s ! p)) s) (\<lambda>_ s.
                     case p_cwd (procs s ! p) of
                       None \<Rightarrow> Panic ''null pointer''
                     | Some cwd \<Rightarrow>
                         let (cwd, s) = idup cwd s;
                             s = upd_proc np (\<lambda>x. x\<lparr>p_cwd := Some cwd\<rparr>) s
                         in bnd (set_name np (p_name (procs s ! p)) s) (\<lambda>_ s.
                            Ok (p_pid (procs s ! np))
                              (upd_proc np (\<lambda>x. x\<lparr>p_parent := Some p, p_state := RUNNABLE\<rparr>) s))))))"

definition proc_chan :: "nat option \<Rightarrow> chan" where
  "proc_chan p = (case p of None \<Rightarrow> NullChan | Some i \<Rightarrow> ChProc i)"

fun reparent_loop :: "nat \<Rightarrow> nat \<Rightarrow> nat \<Rightarrow> 'z kproc_scheme \<Rightarrow> 'z kproc_scheme" where
  "reparent_loop p pp 0 s = s"
| "reparent_loop p pp (Suc k) s =
     reparent_loop p (Suc pp) k
       (if p_parent (procs s ! pp) = Some p
        then wakeup (proc_chan (initproc s)) (upd_proc pp (\<lambda>x. x\<lparr>p_parent := initproc s\<rparr>) s)
        else s)"

definition reparent :: "nat \<Rightarrow> 'z kproc_scheme \<Rightarrow> 'z kproc_scheme" where
  "reparent p s = reparent_loop p 0 NPROC s"

fun exit_files :: "nat \<Rightarrow> nat \<Rightarrow> nat \<Rightarrow> 'z kernel_scheme \<Rightarrow> (unit, 'z kernel_scheme) res" where
  "exit_files p fd 0 s = Ok () s"
| "exit_files p fd (Suc k) s =
     (case p_ofile (procs s ! p) ! fd of
        None \<Rightarrow> exit_files p (Suc fd) k s
      | Some f \<Rightarrow>
          bnd (fileclose f s) (\<lambda>_ s.
            exit_files p (Suc fd) k (upd_proc p (\<lambda>x. x\<lparr>p_ofile := (p_ofile x)[fd := None]\<rparr>) s)))"

text \<open>\<open>exit\<close> up to the switch to the scheduler; the rest of \<open>exit\<close> is never executed.\<close>

definition exit_proc :: "int \<Rightarrow> nat \<Rightarrow> 'z kproc_scheme \<Rightarrow> (unit, 'z kproc_scheme) res" where
  "exit_proc status p s =
     (let s = reparent p s;
          s = wakeup (proc_chan (p_parent (procs s ! p))) s
      in bnd (acquire_p p s) (\<lambda>_ s.
           sched AfterExit (upd_proc p (\<lambda>x. x\<lparr>p_xstate := status, p_state := ZOMBIE\<rparr>) s)))"

definition exit :: "int \<Rightarrow> 'z kernel_scheme \<Rightarrow> (unit, 'z kernel_scheme) res" where
  "exit status s =
     (case myproc s of
        None \<Rightarrow> Panic ''null pointer''
      | Some p \<Rightarrow>
          if initproc s = Some p then Panic ''init exiting''
          else bnd (exit_files p 0 NOFILE s) (\<lambda>_ s.
               bnd (begin_op s) (\<lambda>_ s.
               bnd (case p_cwd (procs s ! p) of
                      None \<Rightarrow> Panic ''null pointer'' | Some ip \<Rightarrow> iput ip s) (\<lambda>_ s.
               bnd (end_op s) (\<lambda>_ s.
               exit_proc status p (upd_proc p (\<lambda>x. x\<lparr>p_cwd := None\<rparr>) s))))))"

text \<open>
  \<open>wait\<close>: the scan of the table for a zombie child, whether a child was seen at all, and
  what happens then. A parent without a zombie child sleeps (\<open>Blocked\<close>) and scans again.
\<close>

definition wait_scan :: "nat \<Rightarrow> proc list \<Rightarrow> nat option" where
  "wait_scan p ps = find_idx (\<lambda>pp. p_parent pp = Some p \<and> p_state pp = ZOMBIE) ps"

definition havekids :: "nat \<Rightarrow> proc list \<Rightarrow> bool" where
  "havekids p ps \<longleftrightarrow> (\<exists>pp \<in> set ps. p_parent pp = Some p)"

definition int_bytes :: "int \<Rightarrow> u8 list" where
  "int_bytes x = le_bytes 4 (unat (word_of_int x :: u32))"

definition wait :: "u64 \<Rightarrow> 'z kernel_scheme \<Rightarrow> (int, 'z kernel_scheme) res" where
  "wait addr s =
     (case myproc s of
        None \<Rightarrow> Panic ''null pointer''
      | Some p \<Rightarrow>
          (case wait_scan p (procs s) of
             Some pp \<Rightarrow>
               let pid = p_pid (procs s ! pp) in
               bnd (if addr \<noteq> 0
                    then copyout (p_pagetable (procs s ! p)) addr (int_bytes (p_xstate (procs s ! pp))) s
                    else Ok 0 s) (\<lambda>r s.
               if r < 0 then Ok (-1) s
               else bnd (freeproc pp s) (\<lambda>_ s. Ok pid s))
           | None \<Rightarrow>
               if \<not> havekids p (procs s) \<or> killed p s \<noteq> 0 then Ok (-1) s else Blocked))"

section \<open>Reporting\<close>

fun state_code :: "procstate \<Rightarrow> int" where
  "state_code UNUSED = 0"
| "state_code USED = 1"
| "state_code SLEEPING = 2"
| "state_code RUNNABLE = 3"
| "state_code RUNNING = 4"
| "state_code ZOMBIE = 5"

text \<open>
  One record of \<open>getprocinfo\<close>, 40 bytes. \<open>old\<close> is what the name field of the local variable
  held before: only its first byte is set for an unused entry.
\<close>

definition pinfo_name :: "u8 list \<Rightarrow> proc \<Rightarrow> u8 list" where
  "pinfo_name old p = (if p_state p = UNUSED then old[0 := 0] else take 16 (p_name p))"

definition pinfo_bytes :: "u8 list \<Rightarrow> proc \<Rightarrow> u8 list" where
  "pinfo_bytes old p =
     (if p_state p = UNUSED then concat (replicate 6 (int_bytes 0))
      else int_bytes 1 @ int_bytes (p_pid p) @ int_bytes (p_priority p)
        @ int_bytes (state_code (p_state p)) @ int_bytes (p_ticks_used p)
        @ int_bytes (p_ticks_total p)) @ pinfo_name old p"

fun getprocinfo_loop ::
  "u64 \<Rightarrow> u8 list \<Rightarrow> u64 \<Rightarrow> nat \<Rightarrow> proc list \<Rightarrow> 'z kernel_scheme \<Rightarrow> (int, 'z kernel_scheme) res" where
  "getprocinfo_loop pagetable old addr i [] s = Ok 0 s"
| "getprocinfo_loop pagetable old addr i (p # ps) s =
     bnd (copyout pagetable (addr + of_nat (i * 40)) (pinfo_bytes old p) s) (\<lambda>r s.
       if r < 0 then Ok (-1) s
       else getprocinfo_loop pagetable (pinfo_name old p) addr (Suc i) ps s)"

text \<open>\<open>junk\<close> is the uninitialised name field on the kernel stack.\<close>

definition getprocinfo :: "u8 list \<Rightarrow> u64 \<Rightarrow> 'z kernel_scheme \<Rightarrow> (int, 'z kernel_scheme) res" where
  "getprocinfo junk addr s =
     (case myproc s of
        None \<Rightarrow> Panic ''null pointer''
      | Some p \<Rightarrow> getprocinfo_loop (p_pagetable (procs s ! p)) junk addr 0 (procs s) s)"

record proc_stat =
  ps_inuse :: int
  ps_pid :: int
  ps_ppid :: int
  ps_state :: int
  ps_priority :: int
  ps_ticks_current :: int
  ps_ticks_total :: int
  ps_time_slice :: int
  ps_num_scheduled :: int
  ps_num_demoted :: int
  ps_num_boosted :: int
  ps_name :: "u8 list"

record mlfq_stat =
  ms_global_ticks :: int
  ms_last_boost_tick :: int
  ms_next_boost_in :: int
  ms_queue_count :: "int list"
  ms_total_processes :: int
  ms_running_count :: int
  ms_sleeping_count :: int
  ms_runnable_count :: int

record pstat =
  pst_sys :: mlfq_stat
  pst_procs :: "proc_stat list"

definition zero_stat :: proc_stat where
  "zero_stat = \<lparr>ps_inuse = 0, ps_pid = 0, ps_ppid = 0, ps_state = 0, ps_priority = 0,
     ps_ticks_current = 0, ps_ticks_total = 0, ps_time_slice = 0, ps_num_scheduled = 0,
     ps_num_demoted = 0, ps_num_boosted = 0, ps_name = replicate 16 0\<rparr>"

definition stat_of :: "proc list \<Rightarrow> proc \<Rightarrow> proc_stat" where
  "stat_of ps p =
     (if p_state p = UNUSED then zero_stat
      else \<lparr>ps_inuse = 1, ps_pid = p_pid p,
        ps_ppid = (case p_parent p of None \<Rightarrow> 0 | Some q \<Rightarrow> p_pid (ps ! q)),
        ps_state = state_code (p_state p), ps_priority = p_priority p,
        ps_ticks_current = p_ticks_used p, ps_ticks_total = p_ticks_total p,
        ps_time_slice = (if p_priority p = 0 then MLFQ_TICKS_0
                         else if p_priority p = 1 then MLFQ_TICKS_1 else MLFQ_TICKS_2),
        ps_num_scheduled = p_num_scheduled p, ps_num_demoted = p_num_demoted p,
        ps_num_boosted = p_num_boosted p, ps_name = p_name p\<rparr>)"

definition count_proc :: "proc \<Rightarrow> mlfq_stat \<Rightarrow> mlfq_stat" where
  "count_proc p m =
     (if p_state p = UNUSED then m
      else let m = m\<lparr>ms_total_processes := ms_total_processes m + 1\<rparr>;
               m = (if p_priority p \<ge> 0 \<and> p_priority p < NMLFQ
                    then let q = nat (p_priority p) in
                         m\<lparr>ms_queue_count := (ms_queue_count m)[q := ms_queue_count m ! q + 1]\<rparr>
                    else m)
           in if p_state p = RUNNING then m\<lparr>ms_running_count := ms_running_count m + 1\<rparr>
              else if p_state p = SLEEPING then m\<lparr>ms_sleeping_count := ms_sleeping_count m + 1\<rparr>
              else if p_state p = RUNNABLE then m\<lparr>ms_runnable_count := ms_runnable_count m + 1\<rparr>
              else m)"

definition gather_pstat :: "'z kproc_scheme \<Rightarrow> pstat" where
  "gather_pstat s =
     \<lparr>pst_sys = fold count_proc (procs s)
        \<lparr>ms_global_ticks = sint (ticks s), ms_last_boost_tick = last_boost_tick s,
         ms_next_boost_in = uint (BOOST_INTERVAL - mlfq_ticks s mod BOOST_INTERVAL),
         ms_queue_count = [0, 0, 0], ms_total_processes = 0, ms_running_count = 0,
         ms_sleeping_count = 0, ms_runnable_count = 0\<rparr>,
      pst_procs = map (stat_of (procs s)) (procs s)\<rparr>"

definition proc_stat_bytes :: "proc_stat \<Rightarrow> u8 list" where
  "proc_stat_bytes x = concat (map int_bytes [ps_inuse x, ps_pid x, ps_ppid x, ps_state x,
     ps_priority x, ps_ticks_current x, ps_ticks_total x, ps_time_slice x, ps_num_scheduled x,
     ps_num_demoted x, ps_num_boosted x]) @ ps_name x"

definition pstat_bytes :: "pstat \<Rightarrow> u8 list" where
  "pstat_bytes x = (let m = pst_sys x in
     concat (map int_bytes ([ms_global_ticks m, ms_last_boost_tick m, ms_next_boost_in m]
       @ ms_queue_count m @ [ms_total_processes m, ms_running_count m, ms_sleeping_count m,
         ms_runnable_count m]))
     @ concat (map proc_stat_bytes (pst_procs x)))"

definition getpstat :: "u64 \<Rightarrow> 'z kernel_scheme \<Rightarrow> (int, 'z kernel_scheme) res" where
  "getpstat addr s =
     (case myproc s of
        None \<Rightarrow> Panic ''null pointer''
      | Some myp \<Rightarrow>
          bnd (kalloc s) (\<lambda>kstat s.
            if kstat = 0 then Ok (-1) s
            else let bs = pstat_bytes (gather_pstat s);
                     s = s\<lparr>mem := write_bytes (mem s) kstat bs\<rparr>
                 in bnd (copyout (p_pagetable (procs s ! myp)) addr bs s) (\<lambda>r s.
                    bnd (kfree kstat s) (\<lambda>_ s.
                    Ok (if r < 0 then -1 else 0) s))))"

end
