(* ===== verification/Sysproc.thy ===== *)
theory Sysproc
  imports Proc
begin

text \<open>
  System call arguments (\<^verbatim>\<open>kernel/syscall.c\<close>) and the process system calls
  (\<^verbatim>\<open>kernel/sysproc.c\<close>). The registers of the caller are in its trapframe page. A system call
  returns the value stored in \<^verbatim>\<open>a0\<close>, an \<^verbatim>\<open>int\<close> sign extended to 64 bits.
\<close>

section \<open>Arguments\<close>

definition get_tf :: "nat \<Rightarrow> u64 \<Rightarrow> 'z kproc_scheme \<Rightarrow> u64" where
  "get_tf p i s = load64 (mem s) (p_trapframe (procs s ! p) + i)"

definition fetchaddr :: "u64 \<Rightarrow> 'z kproc_scheme \<Rightarrow> (u64 option, 'z kproc_scheme) res" where
  "fetchaddr addr s =
     (case myproc s of
        None \<Rightarrow> Panic ''null pointer''
      | Some p \<Rightarrow>
          let sz = p_sz (procs s ! p) in
          if addr \<ge> sz \<or> addr + 8 > sz then Ok None s
          else bnd (copyin (p_pagetable (procs s ! p)) addr 8 s) (\<lambda>(r, bs) s.
            if r \<noteq> 0 then Ok None s else Ok (Some (of_nat (le_val bs))) s))"

text \<open>The string without its terminator and its length, or -1.\<close>

definition fetchstr :: "u64 \<Rightarrow> nat \<Rightarrow> 'z kproc_scheme \<Rightarrow> (int \<times> u8 list, 'z kproc_scheme) res" where
  "fetchstr addr max_n s =
     (case myproc s of
        None \<Rightarrow> Panic ''null pointer''
      | Some p \<Rightarrow>
          bnd (copyinstr (p_pagetable (procs s ! p)) addr max_n s) (\<lambda>(r, buf) s.
            if r < 0 then Ok (-1, buf) s
            else case strlen buf of
                   None \<Rightarrow> Panic ''array bounds''
                 | Some n \<Rightarrow> Ok (int n, cstr buf) s))"

definition argraw :: "nat \<Rightarrow> 'z kproc_scheme \<Rightarrow> (u64, 'z kproc_scheme) res" where
  "argraw n s =
     (case myproc s of
        None \<Rightarrow> Panic ''null pointer''
      | Some p \<Rightarrow> if n \<le> 5 then Ok (get_tf p (tf_a n) s) s else Panic ''argraw'')"

definition argint :: "nat \<Rightarrow> 'z kproc_scheme \<Rightarrow> (int, 'z kproc_scheme) res" where
  "argint n s = bnd (argraw n s) (\<lambda>x s. Ok (sint (ucast x :: u32)) s)"

definition argaddr :: "nat \<Rightarrow> 'z kproc_scheme \<Rightarrow> (u64, 'z kproc_scheme) res" where
  "argaddr n s = argraw n s"

definition argstr :: "nat \<Rightarrow> nat \<Rightarrow> 'z kproc_scheme \<Rightarrow> (int \<times> u8 list, 'z kproc_scheme) res" where
  "argstr n max_n s = bnd (argaddr n s) (\<lambda>addr s. fetchstr addr max_n s)"

section \<open>Process system calls\<close>

definition ret_int :: "int \<Rightarrow> u64" where
  "ret_int r = word_of_int r"

definition sys_exit :: "'z kernel_scheme \<Rightarrow> (unit, 'z kernel_scheme) res" where
  "sys_exit s = bnd (argint 0 s) (\<lambda>n s. exit n s)"

definition sys_getpid :: "'z kernel_scheme \<Rightarrow> (u64, 'z kernel_scheme) res" where
  "sys_getpid s = bnd (mypid s) (\<lambda>pid s. Ok (ret_int pid) s)"

definition sys_fork :: "'z kernel_scheme \<Rightarrow> (u64, 'z kernel_scheme) res" where
  "sys_fork s = bnd (fork s) (\<lambda>r s. Ok (ret_int r) s)"

definition sys_wait :: "'z kernel_scheme \<Rightarrow> (u64, 'z kernel_scheme) res" where
  "sys_wait s = bnd (argaddr 0 s) (\<lambda>p s. bnd (wait p s) (\<lambda>r s. Ok (ret_int r) s))"

definition sys_sbrk :: "'z kernel_scheme \<Rightarrow> (u64, 'z kernel_scheme) res" where
  "sys_sbrk s =
     bnd (argint 0 s) (\<lambda>n s.
       case myproc s of
         None \<Rightarrow> Panic ''null pointer''
       | Some p \<Rightarrow>
           let addr = p_sz (procs s ! p) in
           bnd (growproc n s) (\<lambda>r s. if r < 0 then Ok (ret_int (-1)) s else Ok addr s))"

text \<open>The loop of \<open>sys_sleep\<close>, entered anew after every wake-up of the sleeper.\<close>

definition sys_sleep_loop :: "int \<Rightarrow> u32 \<Rightarrow> 'z kernel_scheme \<Rightarrow> (u64, 'z kernel_scheme) res" where
  "sys_sleep_loop n ticks0 s =
     (if ticks s - ticks0 < word_of_int n then
        (case myproc s of
           None \<Rightarrow> Panic ''null pointer''
         | Some p \<Rightarrow> if killed p s \<noteq> 0 then Ok (ret_int (-1)) s else Blocked)
      else Ok 0 s)"

definition sys_sleep :: "'z kernel_scheme \<Rightarrow> (u64, 'z kernel_scheme) res" where
  "sys_sleep s = bnd (argint 0 s) (\<lambda>n s. sys_sleep_loop (if n < 0 then 0 else n) (ticks s) s)"

definition sys_kill :: "'z kernel_scheme \<Rightarrow> (u64, 'z kernel_scheme) res" where
  "sys_kill s = bnd (argint 0 s) (\<lambda>pid s. let (r, s) = kill pid s in Ok (ret_int r) s)"

definition sys_uptime :: "'z kernel_scheme \<Rightarrow> (u64, 'z kernel_scheme) res" where
  "sys_uptime s = Ok (ucast (ticks s)) s"

definition sys_getpstat :: "'z kernel_scheme \<Rightarrow> (u64, 'z kernel_scheme) res" where
  "sys_getpstat s = bnd (argaddr 0 s) (\<lambda>addr s. bnd (getpstat addr s) (\<lambda>r s. Ok (ret_int r) s))"

definition sys_getpinfo :: "u8 list \<Rightarrow> 'z kernel_scheme \<Rightarrow> (u64, 'z kernel_scheme) res" where
  "sys_getpinfo junk s =
     bnd (argaddr 0 s) (\<lambda>addr s. bnd (getprocinfo junk addr s) (\<lambda>r s. Ok (ret_int r) s))"

definition sys_setpriority :: "'z kernel_scheme \<Rightarrow> (u64, 'z kernel_scheme) res" where
  "sys_setpriority s =
     bnd (argint 0 s) (\<lambda>pid s.
     bnd (argint 1 s) (\<lambda>priority s.
     let (r, s) = setprocpriority pid priority s in Ok (ret_int r) s))"

end
