(* ===== verification/Sysfile.thy ===== *)
theory Sysfile
  imports Sysproc
begin

text \<open>
  The file system calls (\<^verbatim>\<open>kernel/sysfile.c\<close>). The results follow the C code: -1 on failure,
  with every reference, lock and transaction given back on the way.
\<close>

definition O_RDONLY :: u32 where [kconst]: "O_RDONLY = 0"
definition O_WRONLY :: u32 where [kconst]: "O_WRONLY = 1"
definition O_RDWR :: u32 where [kconst]: "O_RDWR = 2"
definition O_CREATE :: u32 where [kconst]: "O_CREATE = 0x200"
definition O_TRUNC :: u32 where [kconst]: "O_TRUNC = 0x400"

section \<open>Descriptors\<close>

definition argfd :: "nat \<Rightarrow> 'z kernel_scheme \<Rightarrow> ((nat \<times> nat) option, 'z kernel_scheme) res" where
  "argfd n s =
     bnd (argint n s) (\<lambda>fd s.
       if fd < 0 \<or> fd \<ge> int NOFILE then Ok None s
       else case myproc s of
              None \<Rightarrow> Panic ''null pointer''
            | Some p \<Rightarrow> (case p_ofile (procs s ! p) ! nat fd of
                  None \<Rightarrow> Ok None s
                | Some f \<Rightarrow> Ok (Some (nat fd, f)) s))"

definition fdalloc :: "nat \<Rightarrow> 'z kernel_scheme \<Rightarrow> (nat option, 'z kernel_scheme) res" where
  "fdalloc f s =
     (case myproc s of
        None \<Rightarrow> Panic ''null pointer''
      | Some p \<Rightarrow>
          (case find_idx (\<lambda>x. x = None) (p_ofile (procs s ! p)) of
             None \<Rightarrow> Ok None s
           | Some fd \<Rightarrow> Ok (Some fd) (upd_proc p (\<lambda>x. x\<lparr>p_ofile := (p_ofile x)[fd := Some f]\<rparr>) s)))"

definition drop_fd :: "nat \<Rightarrow> 'z kernel_scheme \<Rightarrow> (unit, 'z kernel_scheme) res" where
  "drop_fd fd s =
     (case myproc s of
        None \<Rightarrow> Panic ''null pointer''
      | Some p \<Rightarrow> Ok () (upd_proc p (\<lambda>x. x\<lparr>p_ofile := (p_ofile x)[fd := None]\<rparr>) s))"

definition sys_dup :: "'z kernel_scheme \<Rightarrow> (int, 'z kernel_scheme) res" where
  "sys_dup s =
     bnd (argfd 0 s) (\<lambda>r s.
       case r of
         None \<Rightarrow> Ok (-1) s
       | Some (_, f) \<Rightarrow>
           bnd (fdalloc f s) (\<lambda>r s.
             case r of
               None \<Rightarrow> Ok (-1) s
             | Some fd \<Rightarrow> bnd (filedup f s) (\<lambda>_ s. Ok (int fd) s)))"

definition sys_read :: "'z kernel_scheme \<Rightarrow> (int, 'z kernel_scheme) res" where
  "sys_read s =
     bnd (argaddr 1 s) (\<lambda>p s.
     bnd (argint 2 s) (\<lambda>n s.
     bnd (argfd 0 s) (\<lambda>r s.
       case r of None \<Rightarrow> Ok (-1) s | Some (_, f) \<Rightarrow> fileread f p n s)))"

definition sys_write :: "'z kernel_scheme \<Rightarrow> (int, 'z kernel_scheme) res" where
  "sys_write s =
     bnd (argaddr 1 s) (\<lambda>p s.
     bnd (argint 2 s) (\<lambda>n s.
     bnd (argfd 0 s) (\<lambda>r s.
       case r of None \<Rightarrow> Ok (-1) s | Some (_, f) \<Rightarrow> filewrite f p n s)))"

definition sys_close :: "'z kernel_scheme \<Rightarrow> (int, 'z kernel_scheme) res" where
  "sys_close s =
     bnd (argfd 0 s) (\<lambda>r s.
       case r of
         None \<Rightarrow> Ok (-1) s
       | Some (fd, f) \<Rightarrow> bnd (drop_fd fd s) (\<lambda>_ s. bnd (fileclose f s) (\<lambda>_ s. Ok 0 s)))"

definition sys_fstat :: "'z kernel_scheme \<Rightarrow> (int, 'z kernel_scheme) res" where
  "sys_fstat s =
     bnd (argaddr 1 s) (\<lambda>st s.
     bnd (argfd 0 s) (\<lambda>r s.
       case r of None \<Rightarrow> Ok (-1) s | Some (_, f) \<Rightarrow> filestat f st s))"

section \<open>Links\<close>

text \<open>Leaving a system call that has opened a transaction.\<close>

definition end_with :: "int \<Rightarrow> 'z kernel_scheme \<Rightarrow> (int, 'z kernel_scheme) res" where
  "end_with r s = bnd (end_op s) (\<lambda>_ s. Ok r s)"

definition sys_link_bad :: "nat \<Rightarrow> 'z kernel_scheme \<Rightarrow> (int, 'z kernel_scheme) res" where
  "sys_link_bad ip s =
     bnd (ilock ip s) (\<lambda>_ s.
     bnd (iupdate ip (upd_inode ip (\<lambda>x. x\<lparr>i_nlink := i_nlink x - 1\<rparr>) s)) (\<lambda>_ s.
     bnd (iunlockput ip s) (\<lambda>_ s.
     end_with (-1) s)))"

definition sys_link_to :: "u8 list \<Rightarrow> nat \<Rightarrow> 'z kernel_scheme \<Rightarrow> (int, 'z kernel_scheme) res" where
  "sys_link_to new ip s =
     bnd (iupdate ip (upd_inode ip (\<lambda>x. x\<lparr>i_nlink := i_nlink x + 1\<rparr>) s)) (\<lambda>_ s.
     bnd (iunlock ip s) (\<lambda>_ s.
     bnd (nameiparent new s) (\<lambda>(dp, name) s.
       case dp of
         None \<Rightarrow> sys_link_bad ip s
       | Some dp \<Rightarrow>
           bnd (ilock dp s) (\<lambda>_ s.
           bnd (if i_dev (itable s ! dp) \<noteq> i_dev (itable s ! ip) then Ok (-1) s
                else dirlink dp name (i_inum (itable s ! ip)) s) (\<lambda>r s.
           bnd (iunlockput dp s) (\<lambda>_ s.
             if r < 0 then sys_link_bad ip s
             else bnd (iput ip s) (\<lambda>_ s. end_with 0 s)))))))"

definition sys_link :: "'z kernel_scheme \<Rightarrow> (int, 'z kernel_scheme) res" where
  "sys_link s =
     bnd (argstr 0 MAXPATH s) (\<lambda>(r, old) s.
     if r < 0 then Ok (-1) s else
     bnd (argstr 1 MAXPATH s) (\<lambda>(r, new) s.
     if r < 0 then Ok (-1) s else
     bnd (begin_op s) (\<lambda>_ s.
     bnd (namei old s) (\<lambda>ip s.
       case ip of
         None \<Rightarrow> end_with (-1) s
       | Some ip \<Rightarrow>
           bnd (ilock ip s) (\<lambda>_ s.
             if i_type (itable s ! ip) = T_DIR then
               bnd (iunlockput ip s) (\<lambda>_ s. end_with (-1) s)
             else sys_link_to new ip s)))))"

text \<open>\<open>isdirempty\<close> starts after the entries for the directory and its parent.\<close>

function isdirempty_loop :: "nat \<Rightarrow> u32 \<Rightarrow> 'z kfs_scheme \<Rightarrow> (bool, 'z kfs_scheme) res" where
  "isdirempty_loop dp i s =
     (if i < i_size (itable s ! dp) then
        (case readi dp DstLocal i 16 s of
           Panic e \<Rightarrow> Panic e
         | Blocked \<Rightarrow> Blocked
         | Ok (r, de) t \<Rightarrow>
             if r \<noteq> 16 then Panic ''isdirempty: readi''
             else if get16 0 de \<noteq> 0 then Ok False t
             else isdirempty_loop dp (i + 16) t)
      else Ok True s)"
  by pat_completeness auto
termination
proof (relation "measure (\<lambda>(dp, i, s). 2 ^ 32 - unat i)", goal_cases)
  case (2 dp i s x1 s' r de)
  then have "readi dp DstLocal i 16 s = Ok (16, de) s'" by simp
  then show ?case using readi_step by auto
qed simp

declare isdirempty_loop.simps [simp del]

definition isdirempty :: "nat \<Rightarrow> 'z kfs_scheme \<Rightarrow> (bool, 'z kfs_scheme) res" where
  "isdirempty dp s = isdirempty_loop dp 32 s"

definition unlink_bad :: "nat \<Rightarrow> 'z kernel_scheme \<Rightarrow> (int, 'z kernel_scheme) res" where
  "unlink_bad dp s = bnd (iunlockput dp s) (\<lambda>_ s. end_with (-1) s)"

definition unlink_entry :: "nat \<Rightarrow> nat \<Rightarrow> u32 \<Rightarrow> 'z kernel_scheme \<Rightarrow> (int, 'z kernel_scheme) res" where
  "unlink_entry dp ip i s =
     bnd (writei dp (SrcLocal (replicate 16 0)) i 16 s) (\<lambda>r s.
     if r \<noteq> 16 then Panic ''unlink: writei'' else
     bnd (if i_type (itable s ! ip) = T_DIR
          then iupdate dp (upd_inode dp (\<lambda>x. x\<lparr>i_nlink := i_nlink x - 1\<rparr>) s)
          else Ok () s) (\<lambda>_ s.
     bnd (iunlockput dp s) (\<lambda>_ s.
     bnd (iupdate ip (upd_inode ip (\<lambda>x. x\<lparr>i_nlink := i_nlink x - 1\<rparr>) s)) (\<lambda>_ s.
     bnd (iunlockput ip s) (\<lambda>_ s.
     end_with 0 s)))))"

definition sys_unlink :: "'z kernel_scheme \<Rightarrow> (int, 'z kernel_scheme) res" where
  "sys_unlink s =
     bnd (argstr 0 MAXPATH s) (\<lambda>(r, path) s.
     if r < 0 then Ok (-1) s else
     bnd (begin_op s) (\<lambda>_ s.
     bnd (nameiparent path s) (\<lambda>(dp, name) s.
       case dp of
         None \<Rightarrow> end_with (-1) s
       | Some dp \<Rightarrow>
           bnd (ilock dp s) (\<lambda>_ s.
           if namecmp name (chars ''.'' @ [0]) = Some 0 \<or> namecmp name (chars ''..'' @ [0]) = Some 0
           then unlink_bad dp s
           else bnd (dirlookup dp name s) (\<lambda>r s.
             case r of
               None \<Rightarrow> unlink_bad dp s
             | Some (ip, i) \<Rightarrow>
                 bnd (ilock ip s) (\<lambda>_ s.
                 if sint (i_nlink (itable s ! ip)) < 1 then Panic ''unlink: nlink < 1''
                 else bnd (if i_type (itable s ! ip) = T_DIR then isdirempty ip s else Ok True s)
                   (\<lambda>empty s.
                     if \<not> empty then bnd (iunlockput ip s) (\<lambda>_ s. unlink_bad dp s)
                     else unlink_entry dp ip i s)))))))"

section \<open>Creating and opening\<close>

definition create_fail :: "nat \<Rightarrow> nat \<Rightarrow> 'z kernel_scheme \<Rightarrow> (nat option, 'z kernel_scheme) res" where
  "create_fail dp ip s =
     bnd (iupdate ip (upd_inode ip (\<lambda>x. x\<lparr>i_nlink := 0\<rparr>) s)) (\<lambda>_ s.
     bnd (iunlockput ip s) (\<lambda>_ s.
     bnd (iunlockput dp s) (\<lambda>_ s.
     Ok None s)))"

text \<open>The entries for the directory itself and its parent; a failing call stops the pair.\<close>

definition create_dots :: "nat \<Rightarrow> nat \<Rightarrow> u16 \<Rightarrow> 'z kernel_scheme \<Rightarrow> (bool, 'z kernel_scheme) res" where
  "create_dots dp ip type s =
     (if type = T_DIR then
        bnd (dirlink ip (chars ''.'' @ [0]) (i_inum (itable s ! ip)) s) (\<lambda>r s.
          if r < 0 then Ok False s
          else bnd (dirlink ip (chars ''..'' @ [0]) (i_inum (itable s ! dp)) s) (\<lambda>r s.
            Ok (\<not> r < 0) s))
      else Ok True s)"

definition create_new ::
  "nat \<Rightarrow> u8 list \<Rightarrow> u16 \<Rightarrow> u16 \<Rightarrow> u16 \<Rightarrow> 'z kernel_scheme \<Rightarrow> (nat option, 'z kernel_scheme) res" where
  "create_new dp name type major minor s =
     bnd (ialloc (i_dev (itable s ! dp)) type s) (\<lambda>r s.
       case r of
         None \<Rightarrow> bnd (iunlockput dp s) (\<lambda>_ s. Ok None s)
       | Some ip \<Rightarrow>
           bnd (ilock ip s) (\<lambda>_ s.
           bnd (iupdate ip (upd_inode ip (\<lambda>x. x\<lparr>i_major := major, i_minor := minor, i_nlink := 1\<rparr>) s))
             (\<lambda>_ s.
           bnd (create_dots dp ip type s) (\<lambda>fine s.
           if \<not> fine then create_fail dp ip s else
           bnd (dirlink dp name (i_inum (itable s ! ip)) s) (\<lambda>r s.
           if r < 0 then create_fail dp ip s else
           bnd (if type = T_DIR
                then iupdate dp (upd_inode dp (\<lambda>x. x\<lparr>i_nlink := i_nlink x + 1\<rparr>) s)
                else Ok () s) (\<lambda>_ s.
           bnd (iunlockput dp s) (\<lambda>_ s.
           Ok (Some ip) s)))))))"

definition create ::
  "u8 list \<Rightarrow> u16 \<Rightarrow> u16 \<Rightarrow> u16 \<Rightarrow> 'z kernel_scheme \<Rightarrow> (nat option, 'z kernel_scheme) res" where
  "create path type major minor s =
     bnd (nameiparent path s) (\<lambda>(dp, name) s.
       case dp of
         None \<Rightarrow> Ok None s
       | Some dp \<Rightarrow>
           bnd (ilock dp s) (\<lambda>_ s.
           bnd (dirlookup dp name s) (\<lambda>r s.
             case r of
               Some (ip, _) \<Rightarrow>
                 bnd (iunlockput dp s) (\<lambda>_ s.
                 bnd (ilock ip s) (\<lambda>_ s.
                 if type = T_FILE \<and> (i_type (itable s ! ip) = T_FILE \<or> i_type (itable s ! ip) = T_DEVICE)
                 then Ok (Some ip) s
                 else bnd (iunlockput ip s) (\<lambda>_ s. Ok None s)))
             | None \<Rightarrow> create_new dp name type major minor s)))"

text \<open>The first half of \<open>sys_open\<close>: the locked inode, or nothing.\<close>

definition open_inode :: "u8 list \<Rightarrow> u32 \<Rightarrow> 'z kernel_scheme \<Rightarrow> (nat option, 'z kernel_scheme) res" where
  "open_inode path omode s =
     bnd (if omode AND O_CREATE \<noteq> 0 then create path T_FILE 0 0 s
          else bnd (namei path s) (\<lambda>ip s.
            case ip of
              None \<Rightarrow> Ok None s
            | Some ip \<Rightarrow>
                bnd (ilock ip s) (\<lambda>_ s.
                  if i_type (itable s ! ip) = T_DIR \<and> omode \<noteq> O_RDONLY
                  then bnd (iunlockput ip s) (\<lambda>_ s. Ok None s)
                  else Ok (Some ip) s))) (\<lambda>ip s.
       case ip of
         None \<Rightarrow> Ok None s
       | Some ip \<Rightarrow>
           if i_type (itable s ! ip) = T_DEVICE
              \<and> (sint (i_major (itable s ! ip)) < 0 \<or> sint (i_major (itable s ! ip)) \<ge> int NDEV)
           then bnd (iunlockput ip s) (\<lambda>_ s. Ok None s)
           else Ok (Some ip) s)"

definition open_file :: "nat \<Rightarrow> u32 \<Rightarrow> nat \<Rightarrow> 'z kernel_scheme \<Rightarrow> (unit, 'z kernel_scheme) res" where
  "open_file ip omode f s =
     (let x = itable s ! ip;
          s = upd_file f (\<lambda>y. if i_type x = T_DEVICE
                then y\<lparr>f_type := FD_DEVICE, f_major := i_major x\<rparr>
                else y\<lparr>f_type := FD_INODE, f_off := 0\<rparr>) s;
          s = upd_file f (\<lambda>y. y\<lparr>f_ip := ip, f_readable := (omode AND O_WRONLY = 0),
                f_writable := (omode AND O_WRONLY \<noteq> 0 \<or> omode AND O_RDWR \<noteq> 0)\<rparr>) s
      in bnd (if omode AND O_TRUNC \<noteq> 0 \<and> i_type x = T_FILE then itrunc ip s else Ok () s) (\<lambda>_ s.
         iunlock ip s))"

definition sys_open :: "'z kernel_scheme \<Rightarrow> (int, 'z kernel_scheme) res" where
  "sys_open s =
     bnd (argint 1 s) (\<lambda>omode s.
     let omode = word_of_int omode in
     bnd (argstr 0 MAXPATH s) (\<lambda>(n, path) s.
     if n < 0 then Ok (-1) s else
     bnd (begin_op s) (\<lambda>_ s.
     bnd (open_inode path omode s) (\<lambda>ip s.
       case ip of
         None \<Rightarrow> end_with (-1) s
       | Some ip \<Rightarrow>
           let (f, s) = filealloc s;
               bad = (\<lambda>s. bnd (iunlockput ip s) (\<lambda>_ s. end_with (-1) s))
           in case f of
                None \<Rightarrow> bad s
              | Some f \<Rightarrow>
                  bnd (fdalloc f s) (\<lambda>fd s.
                    case fd of
                      None \<Rightarrow> bnd (fileclose f s) (\<lambda>_ s. bad s)
                    | Some fd \<Rightarrow>
                        bnd (open_file ip omode f s) (\<lambda>_ s. end_with (int fd) s))))))"

definition make_node :: "int \<Rightarrow> u8 list \<Rightarrow> u16 \<Rightarrow> u16 \<Rightarrow> u16 \<Rightarrow> 'z kernel_scheme \<Rightarrow> (int, 'z kernel_scheme) res" where
  "make_node r path type major minor s =
     bnd (if r < 0 then Ok None s else create path type major minor s) (\<lambda>ip s.
       case ip of
         None \<Rightarrow> end_with (-1) s
       | Some ip \<Rightarrow> bnd (iunlockput ip s) (\<lambda>_ s. end_with 0 s))"

definition sys_mkdir :: "'z kernel_scheme \<Rightarrow> (int, 'z kernel_scheme) res" where
  "sys_mkdir s =
     bnd (begin_op s) (\<lambda>_ s.
     bnd (argstr 0 MAXPATH s) (\<lambda>(r, path) s.
     make_node r path T_DIR 0 0 s))"

definition sys_mknod :: "'z kernel_scheme \<Rightarrow> (int, 'z kernel_scheme) res" where
  "sys_mknod s =
     bnd (begin_op s) (\<lambda>_ s.
     bnd (argint 1 s) (\<lambda>major s.
     bnd (argint 2 s) (\<lambda>minor s.
     bnd (argstr 0 MAXPATH s) (\<lambda>(r, path) s.
     make_node r path T_DEVICE (word_of_int major) (word_of_int minor) s))))"

definition sys_chdir :: "'z kernel_scheme \<Rightarrow> (int, 'z kernel_scheme) res" where
  "sys_chdir s =
     (case myproc s of
        None \<Rightarrow> Panic ''null pointer''
      | Some p \<Rightarrow>
          bnd (begin_op s) (\<lambda>_ s.
          bnd (argstr 0 MAXPATH s) (\<lambda>(r, path) s.
          bnd (if r < 0 then Ok None s else namei path s) (\<lambda>ip s.
            case ip of
              None \<Rightarrow> end_with (-1) s
            | Some ip \<Rightarrow>
                bnd (ilock ip s) (\<lambda>_ s.
                if i_type (itable s ! ip) \<noteq> T_DIR then
                  bnd (iunlockput ip s) (\<lambda>_ s. end_with (-1) s)
                else
                  bnd (iunlock ip s) (\<lambda>_ s.
                  bnd (case p_cwd (procs s ! p) of
                         None \<Rightarrow> Panic ''null pointer'' | Some cwd \<Rightarrow> iput cwd s) (\<lambda>_ s.
                  bnd (end_op s) (\<lambda>_ s.
                  Ok 0 (upd_proc p (\<lambda>x. x\<lparr>p_cwd := Some ip\<rparr>) s)))))))))"

definition sys_pipe :: "'z kernel_scheme \<Rightarrow> (int, 'z kernel_scheme) res" where
  "sys_pipe s =
     bnd (argaddr 0 s) (\<lambda>fdarray s.
     bnd (pipealloc s) (\<lambda>r s.
       case r of
         None \<Rightarrow> Ok (-1) s
       | Some (rfile, wfile) \<Rightarrow>
           let close_both = (\<lambda>s. bnd (fileclose rfile s) (\<lambda>_ s. bnd (fileclose wfile s) (\<lambda>_ s. Ok (-1) s)))
           in bnd (fdalloc rfile s) (\<lambda>fd0 s.
              case fd0 of
                None \<Rightarrow> close_both s
              | Some fd0 \<Rightarrow>
                  bnd (fdalloc wfile s) (\<lambda>fd1 s.
                  case fd1 of
                    None \<Rightarrow> bnd (drop_fd fd0 s) (\<lambda>_ s. close_both s)
                  | Some fd1 \<Rightarrow>
                      bnd (either_copyout (DstUser fdarray) (int_bytes (int fd0)) s) (\<lambda>r0 s.
                      bnd (if r0 < 0 then Ok (-1) s
                           else either_copyout (DstUser (fdarray + 4)) (int_bytes (int fd1)) s) (\<lambda>r1 s.
                      if r1 < 0 then
                        bnd (drop_fd fd0 s) (\<lambda>_ s. bnd (drop_fd fd1 s) (\<lambda>_ s. close_both s))
                      else Ok 0 s))))))"

end
