(* ===== verification/Exec.thy ===== *)
theory Exec
  imports Sysfile
begin

text \<open>
  Loading a program (\<^verbatim>\<open>kernel/exec.c\<close>, \<^verbatim>\<open>kernel/elf.h\<close>) and \<open>sys_exec\<close> of \<^verbatim>\<open>kernel/sysfile.c\<close>.
  The ELF structures are read from the bytes of the file. The arguments are the strings
  \<open>sys_exec\<close> has fetched into kernel pages, in order. The page counter of \<open>loadseg\<close> is a
  natural number: the 32 bit counter of the code differs only for a segment of almost 4 GB.
\<close>

definition get64 :: "nat \<Rightarrow> u8 list \<Rightarrow> u64" where
  "get64 i xs = of_nat (le_val (take 8 (drop i xs)))"

definition ELF_MAGIC :: u32 where [kconst]: "ELF_MAGIC = 0x464C457F"
definition ELF_PROG_LOAD :: u32 where [kconst]: "ELF_PROG_LOAD = 1"

record elfhdr =
  e_magic :: u32
  e_entry :: u64
  e_phoff :: u64
  e_phnum :: u16

definition get_elfhdr :: "u8 list \<Rightarrow> elfhdr" where
  "get_elfhdr v = \<lparr>e_magic = get32 0 v, e_entry = get64 24 v, e_phoff = get64 32 v,
     e_phnum = get16 56 v\<rparr>"

record proghdr =
  ph_type :: u32
  ph_flags :: u32
  ph_off :: u64
  ph_vaddr :: u64
  ph_filesz :: u64
  ph_memsz :: u64

definition get_proghdr :: "u8 list \<Rightarrow> proghdr" where
  "get_proghdr v = \<lparr>ph_type = get32 0 v, ph_flags = get32 4 v, ph_off = get64 8 v,
     ph_vaddr = get64 16 v, ph_filesz = get64 32 v, ph_memsz = get64 40 v\<rparr>"

definition flags2perm :: "u32 \<Rightarrow> u64" where
  "flags2perm flags =
     (let perm = (if flags AND 1 \<noteq> 0 then PTE_X else 0)
      in if flags AND 2 \<noteq> 0 then perm OR PTE_W else perm)"

function loadseg_loop ::
  "u64 \<Rightarrow> u64 \<Rightarrow> nat \<Rightarrow> u32 \<Rightarrow> nat \<Rightarrow> nat \<Rightarrow> 'z kfs_scheme \<Rightarrow> (int, 'z kfs_scheme) res" where
  "loadseg_loop pagetable va ip offset i sz s =
     (if i < sz then
        bnd (walkaddr pagetable (va + of_nat i) s) (\<lambda>pa s.
          if pa = 0 then Panic ''loadseg: address should exist''
          else let n = (if sz - i < 4096 then sz - i else 4096)
               in bnd (readi ip (DstKern pa) (offset + of_nat i) (of_nat n) s) (\<lambda>(r, bs) s.
                    if r \<noteq> int n then Ok (-1) s
                    else loadseg_loop pagetable va ip offset (i + 4096) sz s))
      else Ok 0 s)"
  by pat_completeness auto
termination
  by (relation "measure (\<lambda>(pt, va, ip, offset, i, sz, s). sz - i)") auto

declare loadseg_loop.simps [simp del]

definition loadseg ::
  "u64 \<Rightarrow> u64 \<Rightarrow> nat \<Rightarrow> u32 \<Rightarrow> u32 \<Rightarrow> 'z kfs_scheme \<Rightarrow> (int, 'z kfs_scheme) res" where
  "loadseg pagetable va ip offset sz s = loadseg_loop pagetable va ip offset 0 (unat sz) s"

text \<open>The loop over program headers: whether it went through, and the size reached.\<close>

fun exec_segments ::
  "u64 \<Rightarrow> nat \<Rightarrow> nat \<Rightarrow> u32 \<Rightarrow> u64 \<Rightarrow> 'z kernel_scheme \<Rightarrow> (bool \<times> u64, 'z kernel_scheme) res" where
  "exec_segments pagetable ip 0 i sz s = Ok (True, sz) s"
| "exec_segments pagetable ip (Suc k) i sz s =
     bnd (readi ip DstLocal i 56 s) (\<lambda>(r, bs) s.
       let ph = get_proghdr bs in
       if r \<noteq> 56 then Ok (False, sz) s
       else if ph_type ph \<noteq> ELF_PROG_LOAD then exec_segments pagetable ip k (i + 56) sz s
       else if ph_memsz ph < ph_filesz ph then Ok (False, sz) s
       else if ph_vaddr ph + ph_memsz ph < ph_vaddr ph then Ok (False, sz) s
       else if ph_vaddr ph mod PGSIZE \<noteq> 0 then Ok (False, sz) s
       else bnd (uvmalloc pagetable sz (ph_vaddr ph + ph_memsz ph) (flags2perm (ph_flags ph)) s)
         (\<lambda>sz1 s.
           if sz1 = 0 then Ok (False, sz) s
           else bnd (loadseg pagetable (ph_vaddr ph) ip (ucast (ph_off ph)) (ucast (ph_filesz ph)) s)
             (\<lambda>r s.
               if r < 0 then Ok (False, sz1) s
               else exec_segments pagetable ip k (i + 56) sz1 s)))"

text \<open>Pushing the argument strings: the stack pointer and their addresses.\<close>

fun push_args ::
  "u64 \<Rightarrow> u64 \<Rightarrow> u8 list list \<Rightarrow> u64 \<Rightarrow> u64 list \<Rightarrow> 'z kernel_scheme
    \<Rightarrow> ((u64 \<times> u64 list) option, 'z kernel_scheme) res" where
  "push_args pagetable stackbase [] sp ustack s = Ok (Some (sp, ustack)) s"
| "push_args pagetable stackbase (a # args) sp ustack s =
     (if length ustack \<ge> MAXARG then Ok None s
      else let sp = sp - of_nat (length a + 1);
               sp = sp - sp mod 16
           in if sp < stackbase then Ok None s
              else bnd (copyout pagetable sp (a @ [0]) s) (\<lambda>r s.
                if r < 0 then Ok None s
                else push_args pagetable stackbase args sp (ustack @ [sp]) s))"

definition u64_bytes :: "u64 \<Rightarrow> u8 list" where
  "u64_bytes x = le_bytes 8 (unat x)"

fun last_elem :: "u8 list \<Rightarrow> u8 list \<Rightarrow> u8 list" where
  "last_elem l [] = l"
| "last_elem l (c # cs) = last_elem (if c = slash then cs else l) cs"

text \<open>The error exit; \<open>ip\<close> is still locked before the program is loaded.\<close>

definition exec_bad :: "u64 \<Rightarrow> u64 \<Rightarrow> nat option \<Rightarrow> 'z kernel_scheme \<Rightarrow> (int, 'z kernel_scheme) res" where
  "exec_bad pagetable sz ip s =
     bnd (if pagetable \<noteq> 0 then proc_freepagetable pagetable sz s else Ok () s) (\<lambda>_ s.
       case ip of
         None \<Rightarrow> Ok (-1) s
       | Some ip \<Rightarrow> bnd (iunlockput ip s) (\<lambda>_ s. end_with (-1) s))"

definition exec_commit ::
  "nat \<Rightarrow> u64 \<Rightarrow> u64 \<Rightarrow> u64 \<Rightarrow> u64 \<Rightarrow> u8 list \<Rightarrow> nat \<Rightarrow> u64 \<Rightarrow> 'z kernel_scheme \<Rightarrow> (int, 'z kernel_scheme) res" where
  "exec_commit p pagetable sz oldsz sp path argc entry s =
     (let s = set_tf p (tf_a 1) sp s in
      bnd (set_name p (last_elem path path @ [0]) s) (\<lambda>_ s.
      let oldpagetable = p_pagetable (procs s ! p);
          s = upd_proc p (\<lambda>x. x\<lparr>p_pagetable := pagetable, p_sz := sz\<rparr>) s;
          s = set_tf p tf_epc entry s;
          s = set_tf p tf_sp sp s
      in bnd (proc_freepagetable oldpagetable oldsz s) (\<lambda>_ s. Ok (int argc) s)))"

text \<open>From the loaded program on: the stack, its contents and the switch to the new image.\<close>

definition exec_stack ::
  "nat \<Rightarrow> u64 \<Rightarrow> u64 \<Rightarrow> u8 list \<Rightarrow> u8 list list \<Rightarrow> u64 \<Rightarrow> 'z kernel_scheme \<Rightarrow> (int, 'z kernel_scheme) res" where
  "exec_stack p pagetable sz path argv entry s =
     (let oldsz = p_sz (procs s ! p); sz = PGROUNDUP sz in
      bnd (uvmalloc pagetable sz (sz + 2 * PGSIZE) PTE_W s) (\<lambda>sz1 s.
      if sz1 = 0 then exec_bad pagetable sz None s else
      let sz = sz1 in
      bnd (uvmclear pagetable (sz - 2 * PGSIZE) s) (\<lambda>_ s.
      bnd (push_args pagetable (sz - PGSIZE) argv sz [] s) (\<lambda>r s.
        case r of
          None \<Rightarrow> exec_bad pagetable sz None s
        | Some (sp, ustack) \<Rightarrow>
            let argc = length ustack;
                sp = sp - of_nat ((argc + 1) * 8);
                sp = sp - sp mod 16
            in if sp < sz - PGSIZE then exec_bad pagetable sz None s
               else bnd (copyout pagetable sp (concat (map u64_bytes (ustack @ [0]))) s) (\<lambda>r s.
                 if r < 0 then exec_bad pagetable sz None s
                 else exec_commit p pagetable sz oldsz sp path argc entry s)))))"

definition exec :: "u8 list \<Rightarrow> u8 list list \<Rightarrow> 'z kernel_scheme \<Rightarrow> (int, 'z kernel_scheme) res" where
  "exec path argv s =
     (case myproc s of
        None \<Rightarrow> Panic ''null pointer''
      | Some p \<Rightarrow>
          bnd (begin_op s) (\<lambda>_ s.
          bnd (namei path s) (\<lambda>ip s.
            case ip of
              None \<Rightarrow> end_with (-1) s
            | Some ip \<Rightarrow>
                bnd (ilock ip s) (\<lambda>_ s.
                bnd (readi ip DstLocal 0 64 s) (\<lambda>(r, bs) s.
                let elf = get_elfhdr bs in
                if r \<noteq> 64 then exec_bad 0 0 (Some ip) s
                else if e_magic elf \<noteq> ELF_MAGIC then exec_bad 0 0 (Some ip) s
                else bnd (proc_pagetable p s) (\<lambda>pagetable s.
                if pagetable = 0 then exec_bad 0 0 (Some ip) s
                else bnd (exec_segments pagetable ip (unat (e_phnum elf)) (ucast (e_phoff elf)) 0 s)
                  (\<lambda>(fine, sz) s.
                    if \<not> fine then exec_bad pagetable sz (Some ip) s
                    else bnd (iunlockput ip s) (\<lambda>_ s.
                         bnd (end_op s) (\<lambda>_ s.
                         exec_stack p pagetable sz path argv (e_entry elf) s)))))))))"

section \<open>The system call\<close>

text \<open>
  The argument loop of \<open>sys_exec\<close>: the pages allocated and the strings in them, and whether
  the terminating null pointer was reached; \<open>k\<close> slots of \<open>argv\<close> are left.
\<close>

fun exec_args ::
  "nat \<Rightarrow> u64 \<Rightarrow> u64 list \<Rightarrow> u8 list list \<Rightarrow> 'z kernel_scheme
    \<Rightarrow> (bool \<times> u64 list \<times> u8 list list, 'z kernel_scheme) res" where
  "exec_args 0 uargv pages argv s = Ok (False, pages, argv) s"
| "exec_args (Suc k) uargv pages argv s =
     bnd (fetchaddr uargv s) (\<lambda>r s.
       case r of
         None \<Rightarrow> Ok (False, pages, argv) s
       | Some uarg \<Rightarrow>
           if uarg = 0 then Ok (True, pages, argv) s
           else bnd (kalloc s) (\<lambda>pg s.
             if pg = 0 then Ok (False, pages, argv) s
             else bnd (fetchstr uarg 4096 s) (\<lambda>(n, str) s.
               if n < 0 then Ok (False, pages @ [pg], argv) s
               else exec_args k (uargv + 8) (pages @ [pg]) (argv @ [str])
                      (s\<lparr>mem := write_bytes (mem s) pg (str @ [0])\<rparr>))))"

fun kfree_all :: "u64 list \<Rightarrow> 'z pmem_scheme \<Rightarrow> (unit, 'z pmem_scheme) res" where
  "kfree_all [] s = Ok () s"
| "kfree_all (p # ps) s = bnd (kfree p s) (\<lambda>_ s. kfree_all ps s)"

definition sys_exec :: "'z kernel_scheme \<Rightarrow> (int, 'z kernel_scheme) res" where
  "sys_exec s =
     bnd (argaddr 1 s) (\<lambda>uargv s.
     bnd (argstr 0 MAXPATH s) (\<lambda>(r, path) s.
     if r < 0 then Ok (-1) s else
     bnd (exec_args MAXARG uargv [] [] s) (\<lambda>(fine, pages, argv) s.
     if fine then
       bnd (exec path argv s) (\<lambda>ret s.
       bnd (kfree_all pages s) (\<lambda>_ s. Ok ret s))
     else bnd (kfree_all pages s) (\<lambda>_ s. Ok (-1) s))))"

end
