(* ===== verification/Trap.thy ===== *)
theory Trap
  imports Exec
begin

text \<open>
  Traps (\<^verbatim>\<open>kernel/trap.c\<close>) and the system call dispatcher (\<^verbatim>\<open>kernel/syscall.c\<close>). The control
  registers a handler reads are its arguments: \<open>scause\<close>, \<open>sepc\<close>, the privilege the trap came
  from, and \<open>irq\<close>, what the interrupt controller answers to \<open>plic_claim\<close>. The disk interrupt
  has no work of its own here, because a disk request is one step of the process that made
  it. A handler ends when the hart goes to the scheduler or back to user space.
\<close>

definition UART0_IRQ :: int where [kconst]: "UART0_IRQ = 10"
definition VIRTIO0_IRQ :: int where [kconst]: "VIRTIO0_IRQ = 1"

section \<open>Dispatcher\<close>

text \<open>\<open>None\<close>: no system call has this number. Call 2, \<open>exit\<close>, does not return and is separate.\<close>

definition sys_call :: "u8 list \<Rightarrow> int \<Rightarrow> ('z kernel_scheme \<Rightarrow> (u64, 'z kernel_scheme) res) option" where
  "sys_call junk num =
     (let ri = (\<lambda>f s. bnd (f s) (\<lambda>r s. Ok (ret_int r) s)) in
      if num = 1 then Some sys_fork
      else if num = 3 then Some sys_wait
      else if num = 4 then Some (ri sys_pipe)
      else if num = 5 then Some (ri sys_read)
      else if num = 6 then Some sys_kill
      else if num = 7 then Some (ri sys_exec)
      else if num = 8 then Some (ri sys_fstat)
      else if num = 9 then Some (ri sys_chdir)
      else if num = 10 then Some (ri sys_dup)
      else if num = 11 then Some sys_getpid
      else if num = 12 then Some sys_sbrk
      else if num = 13 then Some sys_sleep
      else if num = 14 then Some sys_uptime
      else if num = 15 then Some (ri sys_open)
      else if num = 16 then Some (ri sys_write)
      else if num = 17 then Some (ri sys_mknod)
      else if num = 18 then Some (ri sys_unlink)
      else if num = 19 then Some (ri sys_link)
      else if num = 20 then Some (ri sys_mkdir)
      else if num = 21 then Some (ri sys_close)
      else if num = 22 then Some (sys_getpinfo junk)
      else if num = 23 then Some sys_setpriority
      else if num = 24 then Some sys_getpstat
      else None)"

text \<open>The result says whether the call returned to its caller.\<close>

definition syscall :: "u8 list \<Rightarrow> 'z kernel_scheme \<Rightarrow> (bool, 'z kernel_scheme) res" where
  "syscall junk s =
     (case myproc s of
        None \<Rightarrow> Panic ''null pointer''
      | Some p \<Rightarrow>
          let num = sint (ucast (get_tf p (tf_a 7) s) :: u32) in
          if num = 2 then bnd (sys_exit s) (\<lambda>_ s. Ok False s)
          else case sys_call junk num of
                 Some f \<Rightarrow> bnd (f s) (\<lambda>r s. Ok True (set_tf p (tf_a 0) r s))
               | None \<Rightarrow>
                   bnd (kprintf ''%d %s: unknown sys call %d'' [PInt (word_of_int (p_pid (procs s ! p))),
                          PStr (Some (cstr (p_name (procs s ! p)))), PInt (word_of_int num)] s) (\<lambda>_ s.
                   bnd (consputs [10] s) (\<lambda>_ s.
                   Ok True (set_tf p (tf_a 0) (ret_int (-1)) s))))"

section \<open>Interrupts\<close>

definition devintr :: "u64 \<Rightarrow> int \<Rightarrow> 'z kernel_scheme \<Rightarrow> (int, 'z kernel_scheme) res" where
  "devintr scause irq s =
     (if scause AND 0x8000000000000000 \<noteq> 0 \<and> scause AND 0xff = 9 then
        bnd (if irq = UART0_IRQ then uartintr s
             else if irq = VIRTIO0_IRQ then Ok () s
             else if irq \<noteq> 0 then
               bnd (kprintf ''unexpected interrupt irq=%d'' [PInt (word_of_int irq)] s) (\<lambda>_ s.
               consputs [10] s)
             else Ok () s) (\<lambda>_ s. Ok 1 s)
      else if scause = 0x8000000000000001 then Ok 2 (if hart s = 0 then clockintr s else s)
      else Ok 0 s)"

definition MAKE_SATP :: "u64 \<Rightarrow> u64" where
  "MAKE_SATP pagetable = push_bit 60 8 OR drop_bit 12 pagetable"

text \<open>The part of \<open>usertrapret\<close> that the next trap of the process relies on.\<close>

definition usertrapret :: "'z kernel_scheme \<Rightarrow> (unit, 'z kernel_scheme) res" where
  "usertrapret s =
     (case myproc s of
        None \<Rightarrow> Panic ''null pointer''
      | Some p \<Rightarrow>
          let s = set_mycpu (intr_off (mycpu s)) s;
              s = set_tf p tf_kernel_satp (MAKE_SATP (kernel_pagetable s)) s;
              s = set_tf p tf_kernel_sp (p_kstack (procs s ! p) + PGSIZE) s;
              s = set_tf p tf_kernel_trap (usertrap_addr s) s;
              s = set_tf p tf_kernel_hartid (of_nat (hart s)) s
          in Ok () s)"

text \<open>
  \<open>forkret\<close> after the release of the process lock, which is in \<open>resume_proc\<close>: the first process
  to run initialises the file system.
\<close>

definition forkret :: "'z kernel_scheme \<Rightarrow> (unit, 'z kernel_scheme) res" where
  "forkret s =
     (if forkret_first s
      then bnd (fsinit ROOTDEV s) (\<lambda>_ s. usertrapret (s\<lparr>forkret_first := False\<rparr>))
      else usertrapret s)"

definition usertrap_finish :: "nat \<Rightarrow> int \<Rightarrow> 'z kernel_scheme \<Rightarrow> (unit, 'z kernel_scheme) res" where
  "usertrap_finish p which_dev s =
     (if killed p s \<noteq> 0 then exit (-1) s
      else if which_dev = 2 then timer_yield s
      else usertrapret s)"

definition usertrap ::
  "u8 list \<Rightarrow> bool \<Rightarrow> u64 \<Rightarrow> u64 \<Rightarrow> u64 \<Rightarrow> int \<Rightarrow> 'z kernel_scheme \<Rightarrow> (unit, 'z kernel_scheme) res" where
  "usertrap junk from_supervisor scause sepc stval irq s =
     (if from_supervisor then Panic ''usertrap: not from user mode''
      else case myproc s of
        None \<Rightarrow> Panic ''null pointer''
      | Some p \<Rightarrow>
          let s = set_tf p tf_epc sepc s in
          if scause = 8 then
            (if killed p s \<noteq> 0 then exit (-1) s
             else let s = set_tf p tf_epc (get_tf p tf_epc s + 4) s;
                      s = set_mycpu (intr_on (mycpu s)) s
                  in bnd (syscall junk s) (\<lambda>returned s.
                       if \<not> returned then Ok () s else usertrap_finish p 0 s))
          else bnd (devintr scause irq s) (\<lambda>which_dev s.
            if which_dev \<noteq> 0 then usertrap_finish p which_dev s
            else bnd (kprintf ''usertrap(): unexpected scause %p pid=%d''
                        [PPtr scause, PInt (word_of_int (p_pid (procs s ! p)))] s) (\<lambda>_ s.
                 bnd (consputs [10] s) (\<lambda>_ s.
                 bnd (kprintf ''            sepc=%p stval=%p'' [PPtr sepc, PPtr stval] s) (\<lambda>_ s.
                 bnd (consputs [10] s) (\<lambda>_ s.
                 usertrap_finish p 0 (setkilled p s)))))))"

definition kerneltrap ::
  "bool \<Rightarrow> u64 \<Rightarrow> int \<Rightarrow> 'z kernel_scheme \<Rightarrow> (unit, 'z kernel_scheme) res" where
  "kerneltrap from_supervisor scause irq s =
     (if \<not> from_supervisor then Panic ''kerneltrap: not from supervisor mode''
      else if intr_get (mycpu s) then Panic ''kerneltrap: interrupts enabled''
      else bnd (devintr scause irq s) (\<lambda>which_dev s.
        if which_dev = 0 then Panic ''kerneltrap''
        else case myproc s of
               None \<Rightarrow> Ok () s
             | Some p \<Rightarrow>
                 if which_dev = 2 \<and> p_state (procs s ! p) = RUNNING then timer_yield s else Ok () s))"

end
