(* ===== verification/Mlfq_Fair.thy ===== *)
theory Mlfq_Fair
  imports Mlfq
begin

text \<open>
  The queues and their rules: what one time slice does to a process of each level and to the
  order in which \<open>select_proc\<close> takes the processes of a queue; \<open>sleep\<close> and \<open>setprocpriority\<close>.
\<close>

text \<open>The processes that \<open>scheduler\<close> may choose, at level \<open>q\<close> and at any level.\<close>

definition queue :: "int \<Rightarrow> proc list \<Rightarrow> nat list" where
  "queue q ps = filter (\<lambda>i. runnable_at q (ps ! i)) [0..<length ps]"

definition runnables :: "proc list \<Rightarrow> nat list" where
  "runnables ps = filter (\<lambda>i. p_state (ps ! i) = RUNNABLE) [0..<length ps]"

text \<open>
  What happens to a process that is dispatched, runs in user mode until the next tick and is
  preempted there, with the interrupts off.
\<close>

definition run_slice :: "proc \<Rightarrow> proc" where
  "run_slice p = (yield_demote (tick_proc (resumed p)))
     \<lparr>p_state := RUNNABLE, p_context := InSched False AfterYield\<rparr>"

text \<open>A state in which hart 0 runs process 1, for the examples below.\<close>

definition one_running :: kproc where
  "one_running = upd_proc 1 (\<lambda>p. p\<lparr>p_state := RUNNING\<rparr>)
     (set_mycpu ((mycpu two_procs)\<lparr>c_proc := Some 1\<rparr>) two_procs)"

lemma run_slice_simps [simp]:
  "p_state (run_slice p) = RUNNABLE"
  "p_priority (run_slice p) = p_priority (yield_demote (tick_proc p))"
  "p_ticks_used (run_slice p) = p_ticks_used (yield_demote (tick_proc p))"
  by (simp_all add: run_slice_def resumed_def yield_demote_def tick_proc_def Let_def)

section \<open>Queues\<close>

lemma select_queue0:
  assumes "queue 0 ps = i # is"
  shows "select_proc ps = Some i" and "i < length ps" and "runnable_at 0 (ps ! i)"
    and "\<not> runnable_at 0 p \<Longrightarrow> queue 0 (ps[i := p]) = is"
proof -
  have "distinct (queue 0 ps)" "sorted (queue 0 ps)"
    by (simp_all add: queue_def sorted_wrt_filter)
  then have d: "distinct (i # is)" and so: "sorted (i # is)" by (simp_all only: assms)
  have "i \<in> set (queue 0 ps)" by (simp add: assms)
  then show i: "i < length ps" "runnable_at 0 (ps ! i)" by (simp_all add: queue_def)
  have "i \<le> j" if "j < length ps" "runnable_at 0 (ps ! j)" for j
  proof -
    have "j \<in> set (i # is)" using that by (simp flip: assms add: queue_def)
    with so show ?thesis by auto
  qed
  then show "select_proc ps = Some i"
    using i by (force simp: select_proc_def select_from_Some runnable_at_def kconst)
  assume p: "\<not> runnable_at 0 p"
  have "queue 0 (ps[i := p]) = filter (\<lambda>j. j \<noteq> i) (queue 0 ps)"
    using p i by (auto simp: queue_def nth_list_update intro!: filter_cong)
  also have "\<dots> = is"
    using d by (auto simp: assms filter_id_conv)
  finally show "queue 0 (ps[i := p]) = is" .
qed

lemma queue_boost:
  "queue 0 (map boost_proc ps) = runnables ps"
proof -
  have "runnable_at 0 (boost_proc p) \<longleftrightarrow> p_state p = RUNNABLE" for p
    by (cases "p_state p = RUNNABLE") (simp_all add: runnable_at_def boost_proc_def)
  then show ?thesis by (simp add: queue_def runnables_def) (rule filter_cong, auto)
qed

lemma length_runnables: "length (runnables ps) \<le> length ps"
  unfolding runnables_def using length_filter_le [of _ "[0..<length ps]"] by simp

text \<open>At level 0 the slice is one tick: a process that is preempted there leaves the level.\<close>

lemma run_slice_leaves: "mlfq_ok p \<Longrightarrow> p_priority p = 0 \<Longrightarrow> p_priority (run_slice p) = 1"
  by (simp add: mlfq_ok_def yield_demote_def tick_proc_def get_time_slice_def kconst Let_def)

section \<open>Between boosts\<close>

lemma demote_lowest:
  "p_priority p = 2 \<Longrightarrow> p_priority (yield_demote p) = 2"
  by (simp add: yield_demote_def kconst Let_def)

lemma select_again:
  assumes "select_proc ps = Some i" "p_priority (ps ! i) = 2"
    and "p_state p = RUNNABLE" "p_priority p = 2"
  shows "select_proc (ps[i := p]) = Some i"
  using assms by (auto simp: select_proc_def select_from_Some nth_list_update kconst)

text \<open>The effect of one tick on a process of each level.\<close>

lemma tick_level:
  "p_priority p = 0 \<Longrightarrow> p_ticks_used p = 0 \<Longrightarrow>
     yield_demote (tick_proc p) = p\<lparr>p_priority := 1, p_ticks_used := 0,
       p_ticks_total := p_ticks_total p + 1, p_num_demoted := p_num_demoted p + 1\<rparr>"
  "p_priority p = 1 \<Longrightarrow> p_ticks_used p = 0 \<Longrightarrow>
     yield_demote (tick_proc p) = p\<lparr>p_ticks_used := 1, p_ticks_total := p_ticks_total p + 1\<rparr>"
  "p_priority p = 1 \<Longrightarrow> p_ticks_used p = 1 \<Longrightarrow>
     yield_demote (tick_proc p) = p\<lparr>p_priority := 2, p_ticks_used := 0,
       p_ticks_total := p_ticks_total p + 1, p_num_demoted := p_num_demoted p + 1\<rparr>"
  "p_priority p = 2 \<Longrightarrow> 0 \<le> p_ticks_used p \<Longrightarrow> p_ticks_used p < 4 \<Longrightarrow>
     yield_demote (tick_proc p) = p\<lparr>p_ticks_used := (p_ticks_used p + 1) mod 4,
       p_ticks_total := p_ticks_total p + 1\<rparr>"
proof -
  assume "p_priority p = 2" "0 \<le> p_ticks_used p" "p_ticks_used p < 4"
  then show "yield_demote (tick_proc p) = p\<lparr>p_ticks_used := (p_ticks_used p + 1) mod 4,
       p_ticks_total := p_ticks_total p + 1\<rparr>"
    by (cases "p_ticks_used p = 3")
      (simp_all add: yield_demote_def tick_proc_def get_time_slice_def kconst Let_def)
qed (simp_all add: yield_demote_def tick_proc_def get_time_slice_def kconst Let_def)

lemma tick_fields:
  assumes "mlfq_ok p"
  shows "p_priority (yield_demote (tick_proc p)) =
      (if p_ticks_used p + 1 = get_time_slice (p_priority p) then min 2 (p_priority p + 1)
       else p_priority p)"
    and "p_ticks_used (yield_demote (tick_proc p)) =
      (if p_ticks_used p + 1 = get_time_slice (p_priority p) then 0 else p_ticks_used p + 1)"
    and "p_ticks_total (yield_demote (tick_proc p)) = p_ticks_total p + 1"
proof -
  have "get_time_slice (p_priority p) \<le> p_ticks_used p + 1 \<longleftrightarrow>
      p_ticks_used p + 1 = get_time_slice (p_priority p)" "p_priority p < 3"
    using assms by (auto simp: mlfq_ok_def kconst)
  then show "p_priority (yield_demote (tick_proc p)) =
      (if p_ticks_used p + 1 = get_time_slice (p_priority p) then min 2 (p_priority p + 1)
       else p_priority p)"
    and "p_ticks_used (yield_demote (tick_proc p)) =
      (if p_ticks_used p + 1 = get_time_slice (p_priority p) then 0 else p_ticks_used p + 1)"
    and "p_ticks_total (yield_demote (tick_proc p)) = p_ticks_total p + 1"
    by (simp_all add: yield_demote_def tick_proc_def kconst Let_def)
qed

lemma one_running:
  "sched_inv one_running" "myproc one_running = Some 1"
  "procs one_running ! 1 = (procs boot ! 1)\<lparr>p_state := RUNNING, p_context := AtForkret,
      p_priority := 2\<rparr>"
  "mycpu one_running = (cpus boot ! 0)\<lparr>c_proc := Some 1\<rparr>"
proof -
  have p: "procs two_procs ! 1 = (procs boot ! 1)\<lparr>p_state := RUNNABLE, p_context := AtForkret,
      p_priority := 2\<rparr>" and b: "length (procs two_procs) = 64" "length (cpus two_procs) = 8"
      "hart two_procs = 0" "mycpu two_procs = cpus boot ! 0"
    by (simp_all add: two_procs_def boot_simps kconst mycpu_def)
  have "entry_ok (procs two_procs ! 1)"
    using sched_invD(5) [OF two_procs_inv, of 1] by (simp add: kconst)
  with p b show "sched_inv one_running" unfolding one_running_def
    by (intro inv_enter two_procs_inv)
      (simp_all add: myproc_def boot_simps kconst entry_ok_def mlfq_ok_def)
  show "myproc one_running = Some 1" "mycpu one_running = (cpus boot ! 0)\<lparr>c_proc := Some 1\<rparr>"
    "procs one_running ! 1 = (procs boot ! 1)\<lparr>p_state := RUNNING, p_context := AtForkret,
      p_priority := 2\<rparr>"
    using p b by (simp_all add: one_running_def myproc_def)
qed

section \<open>Properties\<close>

text \<open>
  C8. A process that sleeps keeps its queue: \<open>sleep\<close>, called with a lock just acquired,
  records the channel, resets the tick count, leaves the priority and every other process
  alone, gives the lock back and leaves the hart idle; a later wake-up on the channel makes
  it runnable at the same priority, and \<open>wakeup\<close> touches exactly the processes that sleep
  on its channel.
\<close>

theorem sleep_wakeup:
  assumes "sched_inv s" "myproc s = Some i" "acquire (hart s) (mycpu s) lk = Ok () (c, lk')"
  shows "\<exists>t. sleep ch lk' (set_mycpu c s) = Ok (lk'\<lparr>lk_cpu := None, lk_locked := False\<rparr>) t
    \<and> myproc t = None \<and> c_sie (mycpu t) = c_sie (mycpu s)
    \<and> p_state (procs t ! i) = SLEEPING \<and> p_chan (procs t ! i) = ch
    \<and> p_priority (procs t ! i) = p_priority (procs s ! i) \<and> p_ticks_used (procs t ! i) = 0
    \<and> (\<forall>j. j \<noteq> i \<longrightarrow> procs t ! j = procs s ! j)
    \<and> (\<forall>j < NPROC. procs (wakeup ch t) ! j =
         (if p_state (procs t ! j) = SLEEPING \<and> p_chan (procs t ! j) = ch
          then (procs t ! j)\<lparr>p_state := RUNNABLE\<rparr> else procs t ! j))"
proof -
  have i: "i < length (procs s)" "hart s < length (cpus s)" "length (procs s) = NPROC"
    using sched_invD(1-3) [OF assms(1)] sched_invD(6) [OF assms(1,2)] by simp_all
  then show ?thesis
    unfolding sleep_locked_eq [OF assms]
    by (simp add: myproc_def mycpu_def wakeup_def)
qed

theorem sleep_wakeup_witness:
  "\<exists>t. sleep ChTicks ((initlock (p_lock zero_proc) ''time'')\<lparr>lk_locked := True, lk_cpu := Some 0\<rparr>)
       (set_mycpu (push_off (mycpu one_running)) one_running)
     = Ok (initlock (p_lock zero_proc) ''time'') t \<and> p_priority (procs t ! 1) = 2"
proof -
  let ?lk = "initlock (p_lock zero_proc) ''time''"
  have "hart one_running = 0" by (simp add: one_running_def two_procs_def boot_simps)
  then have "acquire (hart one_running) (mycpu one_running) ?lk = Ok ()
      (push_off (mycpu one_running), ?lk\<lparr>lk_locked := True, lk_cpu := Some 0\<rparr>)"
    by (simp add: acquire_def holding_def initlock_def Let_def)
  from sleep_wakeup [OF one_running(1,2) this, of ChTicks] one_running(3) show ?thesis
    by (auto simp: initlock_def)
qed

text \<open>
  C9. \<open>setprocpriority\<close> rejects a priority outside the three queues and a pid that no used
  entry has, changing nothing; otherwise it moves the first such process to the queue asked
  for with a fresh slice and changes nothing else.
\<close>

theorem setprocpriority_spec:
  "setprocpriority pid n s =
     (if n \<in> {0, 1, 2} \<and> (\<exists>p \<in> set (procs s). p_pid p = pid \<and> p_state p \<noteq> UNUSED)
      then (0, upd_proc (LEAST i. i < length (procs s) \<and> p_pid (procs s ! i) = pid
                    \<and> p_state (procs s ! i) \<noteq> UNUSED)
               (\<lambda>p. p\<lparr>p_priority := n, p_ticks_used := 0\<rparr>) s)
      else (-1, s))"
proof -
  let ?P = "\<lambda>p. p_pid p = pid \<and> p_state p \<noteq> UNUSED"
  have n: "n \<in> {0, 1, 2} \<longleftrightarrow> \<not> (n < 0 \<or> n > 2)" by auto
  show ?thesis
  proof (cases "find_idx ?P (procs s)")
    case None
    then have "\<not> (\<exists>p \<in> set (procs s). ?P p)" by (auto dest: find_idx_NoneD simp: in_set_conv_nth)
    with None show ?thesis by (simp add: setprocpriority_def)
  next
    case (Some i)
    note i = find_idx_SomeD [OF Some]
    have "(LEAST i. i < length (procs s) \<and> ?P (procs s ! i)) = i"
      using i by (intro Least_equality) (auto simp: not_less [symmetric])
    moreover have "\<exists>p \<in> set (procs s). ?P p" using i(1,2) nth_mem by blast
    ultimately show ?thesis using Some n by (simp add: setprocpriority_def)
  qed
qed

theorem setprocpriority_spec_witness: "setprocpriority 7 3 boot = (-1, boot)"
  using setprocpriority_spec [of 7 3 boot] by simp

end
