(* ===== verification/Mlfq_User.thy ===== *)
theory Mlfq_User
  imports Trap Mlfq_Fair
begin

text \<open>
  Timer interrupts and the long-run behaviour of the feedback queue, on the whole trap path:
  \<open>usertrap\<close> and \<open>kerneltrap\<close> with the clock interrupt of hart 0, which wakes the processes that
  sleep on the clock, and the exit of a killed process. A round is what one hart does with a
  process that only computes: an iteration of the scheduler loop, the return of the process
  to user space, and the timer interrupt that ends its tick.
\<close>

definition TIMER_CAUSE :: u64 where "TIMER_CAUSE = 0x8000000000000001"

text \<open>The state in which \<open>devintr\<close> leaves the machine after a timer interrupt.\<close>

definition clock_tick :: "'z kproc_scheme \<Rightarrow> 'z kproc_scheme" where
  "clock_tick s = (if hart s = 0 then clockintr s else s)"

text \<open>
  How a process that was interrupted in user mode, or that never ran, gets back to user space
  once it is dispatched.
\<close>

definition to_user :: "nat \<Rightarrow> 'z kernel_scheme \<Rightarrow> (unit, 'z kernel_scheme) res" where
  "to_user i s = (case p_context (procs s ! i) of AtForkret \<Rightarrow> forkret s | _ \<Rightarrow> usertrapret s)"

definition user_round :: "u64 \<Rightarrow> 'z kernel_scheme \<Rightarrow> (nat option, 'z kernel_scheme) res" where
  "user_round pc s =
     bnd (scheduler s) (\<lambda>r s. case r of
         None \<Rightarrow> Ok None s
       | Some i \<Rightarrow> bnd (to_user i s) (\<lambda>_ s.
           bnd (usertrap [] False TIMER_CAUSE pc 0 0 s) (\<lambda>_ s. Ok (Some i) s)))"

text \<open>One round per element of \<open>pcs\<close>, the program counters at which the ticks come.\<close>

fun user_rounds :: "u64 list \<Rightarrow> 'z kernel_scheme \<Rightarrow> (nat option list, 'z kernel_scheme) res" where
  "user_rounds [] s = Ok [] s"
| "user_rounds (pc # pcs) s =
     bnd (user_round pc s) (\<lambda>r s. bnd (user_rounds pcs s) (\<lambda>rs s. Ok (r # rs) s))"

text \<open>
  The scope of the theorems on rounds: nobody sleeps on the clock, and every process that is
  ready to run either starts in \<open>forkret\<close> or was preempted in \<open>usertrap\<close>, and has not been
  killed. Only the hart of the state takes steps, so no other hart runs a process, starts one
  or wakes one up in between.
\<close>

definition computing :: "proc \<Rightarrow> bool" where
  "computing p \<longleftrightarrow> \<not> (p_state p = SLEEPING \<and> p_chan p = ChTicks)
     \<and> (p_state p = RUNNABLE \<longrightarrow> p_killed p = 0
          \<and> (p_context p = AtForkret \<or> p_context p = InSched False AfterYield))"

definition cpu_bound :: "'z kernel_scheme \<Rightarrow> bool" where
  "cpu_bound s \<longleftrightarrow> \<not> forkret_first s \<and> (\<forall>p \<in> set (procs s). computing p)"

text \<open>A kernel with the given process table and harts, all other static data zero.\<close>

definition kernel_of :: "kproc \<Rightarrow> kernel" where
  "kernel_of s = \<lparr>mem = mem s, freelist = freelist s, kend = kend s, hart = hart s, cpus = cpus s,
     procs = procs s, initproc = initproc s, nextpid = nextpid s, ticks = ticks s,
     mlfq_ticks = mlfq_ticks s, last_boost_tick = last_boost_tick s,
     bcache = [], disk = (\<lambda>_. []), disk_hist = [],
     log_start = 0, log_size = 0, log_outstanding = 0, log_committing = False, log_dev = 0,
     lh_n = 0, lh_block = [],
     sb = \<lparr>sb_magic = 0, sb_size = 0, sb_nblocks = 0, sb_ninodes = 0, sb_nlog = 0, sb_logstart = 0,
       sb_inodestart = 0, sb_bmapstart = 0\<rparr>, itable = [],
     uart_tx_buf = [], uart_tx_w = 0, uart_tx_r = 0, uart_room = 0, uart_out = [], uart_in = [],
     panicked = False, cons_buf = [], cons_r = 0, cons_w = 0, cons_e = 0, devsw_console = False,
     ftable = [], pipes = (\<lambda>_. \<lparr>pi_data = [], nread = 0, nwrite = 0, readopen = False, writeopen = False\<rparr>),
     trampoline = 0, usertrap_addr = 0, kernel_pagetable = 0, forkret_first = False\<rparr>"

section \<open>Timer interrupts\<close>

lemma clock_tick_procs:
  "procs (clock_tick s) = (if hart s = 0
     then mapi (\<lambda>j p. if Some j \<noteq> myproc s \<and> p_state p = SLEEPING \<and> p_chan p = ChTicks
                      then p\<lparr>p_state := RUNNABLE\<rparr> else p) (procs s)
     else procs s)"
  by (simp add: clock_tick_def clockintr_def wakeup_def myproc_def mycpu_def)

lemma clock_tick_simps [simp]:
  "hart (clock_tick s) = hart s" "cpus (clock_tick s) = cpus s" "mycpu (clock_tick s) = mycpu s"
  "myproc (clock_tick s) = myproc s" "mlfq_ticks (clock_tick s) = mlfq_ticks s"
  "ticks (clock_tick s) = ticks s + (if hart s = 0 then 1 else 0)"
  "length (procs (clock_tick s)) = length (procs s)"
  by (simp_all add: clock_tick_def clockintr_def wakeup_def myproc_def mycpu_def)

lemma inv_clock_tick: "sched_inv s \<Longrightarrow> sched_inv (clock_tick s)"
  by (simp add: clock_tick_def inv_clockintr)

lemma clock_tick_running:
  assumes "sched_inv s" "myproc s = Some i"
  shows "procs (clock_tick s) ! i = procs s ! i"
  using sched_invD(2,6) [OF assms(1)] assms(2) by (simp add: clock_tick_procs)

lemma devintr_timer: "devintr TIMER_CAUSE irq s = Ok 2 (clock_tick s)"
  by (simp add: devintr_def TIMER_CAUSE_def clock_tick_def)

lemma set_tf_simps [simp]:
  "hart (set_tf p i v s) = hart s" "cpus (set_tf p i v s) = cpus s" "procs (set_tf p i v s) = procs s"
  "mycpu (set_tf p i v s) = mycpu s" "myproc (set_tf p i v s) = myproc s"
  "mlfq_ticks (set_tf p i v s) = mlfq_ticks s" "ticks (set_tf p i v s) = ticks s"
  "initproc (set_tf p i v s) = initproc s"
  by (simp_all add: set_tf_def myproc_def mycpu_def)

lemma set_tf_forkret_first [simp]: "forkret_first (set_tf p i v s) = forkret_first s"
  by (simp add: set_tf_def)

lemma inv_set_tf: "sched_inv s \<Longrightarrow> sched_inv (set_tf p i v s)"
  by (erule inv_frame) simp_all

lemma usertrap_timer:
  assumes "myproc s = Some i"
  shows "usertrap junk False TIMER_CAUSE pc stval irq s =
    (let t = clock_tick (set_tf i tf_epc pc s)
     in if killed i t \<noteq> 0 then exit (-1) t else timer_yield t)"
proof -
  have "TIMER_CAUSE \<noteq> 8" by (simp add: TIMER_CAUSE_def)
  then show ?thesis using assms by (simp add: usertrap_def devintr_timer usertrap_finish_def Let_def)
qed

lemma kerneltrap_timer:
  assumes "\<not> c_sie (mycpu s)"
  shows "kerneltrap True TIMER_CAUSE irq s =
    (case myproc s of None \<Rightarrow> Ok () (clock_tick s)
     | Some i \<Rightarrow> if p_state (procs (clock_tick s) ! i) = RUNNING then timer_yield (clock_tick s)
                  else Ok () (clock_tick s))"
  using assms by (auto simp: kerneltrap_def devintr_timer intr_get_def split: option.split)

text \<open>
  \<open>ticked s t i\<close>: from \<open>s\<close> to \<open>t\<close> the running process \<open>i\<close> was charged one tick and preempted.
\<close>

definition ticked :: "'z kproc_scheme \<Rightarrow> 'z kproc_scheme \<Rightarrow> nat \<Rightarrow> bool" where
  "ticked s t i \<longleftrightarrow>
     p_state (procs t ! i) = RUNNABLE
   \<and> p_ticks_total (procs t ! i) = p_ticks_total (procs s ! i) + 1
   \<and> p_priority (procs t ! i) =
       (if p_ticks_used (procs s ! i) + 1 = get_time_slice (p_priority (procs s ! i))
        then min 2 (p_priority (procs s ! i) + 1) else p_priority (procs s ! i))
   \<and> p_ticks_used (procs t ! i) =
       (if p_ticks_used (procs s ! i) + 1 = get_time_slice (p_priority (procs s ! i))
        then 0 else p_ticks_used (procs s ! i) + 1)
   \<and> myproc t = None \<and> c_sie (mycpu t) = c_sie (mycpu s) \<and> c_noff (mycpu t) = 0
   \<and> mlfq_ticks t = mlfq_ticks s + 1
   \<and> ticks t = ticks s + (if hart s = 0 then 1 else 0)
   \<and> length (procs t) = length (procs s)
   \<and> (\<forall>j < length (procs s). j \<noteq> i \<longrightarrow> procs t ! j =
        (if hart s = 0 \<and> p_state (procs s ! j) = SLEEPING \<and> p_chan (procs s ! j) = ChTicks
         then (procs s ! j)\<lparr>p_state := RUNNABLE\<rparr> else procs s ! j))"

lemma timer_ticked:
  assumes s: "sched_inv s" "myproc s = Some i"
  shows "\<exists>t. timer_yield (clock_tick s) = Ok () t \<and> ticked s t i"
proof -
  let ?c = "clock_tick s"
  have c: "sched_inv ?c" "myproc ?c = Some i" "procs ?c ! i = procs s ! i"
    using inv_clock_tick [OF s(1)] clock_tick_running [OF s] s by simp_all
  have i: "i < length (procs s)" "hart s < length (cpus s)" "mlfq_ok (procs s ! i)"
    using sched_invD(1-3) [OF s(1)] sched_invD(5,6) [OF s(1), of i] s(2)
    by (simp_all add: entry_ok_def)
  have o: "procs ?c ! j = (if hart s = 0 \<and> p_state (procs s ! j) = SLEEPING \<and> p_chan (procs s ! j) = ChTicks
         then (procs s ! j)\<lparr>p_state := RUNNABLE\<rparr> else procs s ! j)" if "j < length (procs s)" "j \<noteq> i" for j
    using that s(2) by (simp add: clock_tick_procs)
  show ?thesis
    unfolding timer_yield_eq [OF c(1,2)] ticked_def using i tick_fields [OF i(3)] c(3) o
    by (simp add: myproc_def mycpu_def)
qed

section \<open>Rounds\<close>

lemma usertrapret_eq:
  assumes "myproc s = Some i" "hart s < length (cpus s)"
  shows "\<exists>m. usertrapret s = Ok () ((set_mycpu (intr_off (mycpu s)) s)\<lparr>mem := m\<rparr>)"
  using assms by (auto simp: usertrapret_def Let_def set_tf_def set_mycpu_def)

lemma to_user_eq:
  assumes "myproc s = Some i" "hart s < length (cpus s)" "\<not> forkret_first s"
  shows "\<exists>m. to_user i s = Ok () ((set_mycpu (intr_off (mycpu s)) s)\<lparr>mem := m\<rparr>)"
  using usertrapret_eq [OF assms(1,2)] assms(3) by (auto simp: to_user_def forkret_def split: kcontext.split)

lemma clock_tick_nobody:
  assumes "\<And>p. p \<in> set (procs s) \<Longrightarrow> \<not> (p_state p = SLEEPING \<and> p_chan p = ChTicks)"
  shows "procs (clock_tick s) = procs s"
  unfolding clock_tick_procs using assms by (auto intro!: nth_equalityI)

lemma forkret_first_simps [simp]:
  "forkret_first (upd_proc i f s) = forkret_first s" "forkret_first (set_mycpu c s) = forkret_first s"
  "forkret_first (boost_check s) = forkret_first s" "forkret_first (clock_tick s) = forkret_first s"
  by (simp_all add: upd_proc_def set_mycpu_def boost_check_def priority_boost_def clock_tick_def clockintr_def wakeup_def)

lemma computing_boost: "computing p \<Longrightarrow> computing (boost_proc p)"
  by (cases "p_state p = UNUSED") (simp_all add: computing_def boost_proc_def)

lemma computing_boost_check:
  "\<forall>p \<in> set (procs s). computing p \<Longrightarrow> \<forall>p \<in> set (procs (boost_check s)). computing p"
  by (auto simp: boost_check_def priority_boost_def computing_boost)

lemma killed_simps [simp]:
  "p_killed (yield_demote p) = p_killed p" "p_killed (tick_proc p) = p_killed p" "p_killed (resumed p) = p_killed p"
  by (simp_all add: yield_demote_def tick_proc_def resumed_def Let_def)

lemma computing_run_slice: "p_killed p = 0 \<Longrightarrow> computing (run_slice p)"
  by (simp add: computing_def) (simp add: run_slice_def)

lemma computing_update:
  "\<forall>p \<in> set ps. computing p \<Longrightarrow> computing q \<Longrightarrow> \<forall>p \<in> set (ps[i := q]). computing p"
  using set_update_subset_insert [of ps i q] by blast

lemma timer_from_user:
  assumes s: "sched_inv s" "myproc s = Some i" "\<forall>p \<in> set (procs s). computing p" "p_killed (procs s ! i) = 0"
    "\<not> c_sie (mycpu s)" "\<not> forkret_first s"
  shows "\<exists>u. usertrap junk False TIMER_CAUSE pc stval irq s = Ok () u \<and> sched_inv u \<and> myproc u = None
    \<and> \<not> forkret_first u \<and> mlfq_ticks u = mlfq_ticks s + 1
    \<and> procs u = (procs s)[i := (yield_demote (tick_proc (procs s ! i)))\<lparr>p_state := RUNNABLE, p_context := InSched False AfterYield\<rparr>]"
proof -
  let ?x = "clock_tick (set_tf i tf_epc pc s)"
  have x: "sched_inv ?x" "myproc ?x = Some i" "mycpu ?x = mycpu s" using s(1,2) by (simp_all add: inv_clock_tick inv_set_tf)
  have px: "procs ?x = procs s" using clock_tick_nobody [of "set_tf i tf_epc pc s"] s(3) by (simp add: computing_def)
  have i: "i < length (procs s)" "hart s < length (cpus s)" using sched_invD(1-3,6) [OF s(1)] s(2) by simp_all
  obtain u where u: "timer_yield ?x = Ok () u"
    "u = (upd_proc i (\<lambda>p. (yield_demote (tick_proc p))\<lparr>p_state := RUNNABLE,
                        p_context := InSched (c_sie (mycpu ?x)) AfterYield\<rparr>)
      (set_mycpu ((mycpu ?x)\<lparr>c_proc := None, c_intena := c_sie (mycpu ?x), c_noff := 0\<rparr>) ?x))
        \<lparr>mlfq_ticks := mlfq_ticks ?x + 1\<rparr>"
    using timer_yield_eq [OF x(1,2)] by blast
  have "usertrap junk False TIMER_CAUSE pc stval irq s = Ok () u"
    unfolding usertrap_timer [OF s(2)] Let_def using u(1) px s(4) by (simp add: killed_def)
  moreover have "sched_inv u" using timer_yield_inv [OF x(1,2) u(1)] .
  moreover have "procs u = (procs s)[i := (yield_demote (tick_proc (procs s ! i)))\<lparr>p_state := RUNNABLE, p_context := InSched False AfterYield\<rparr>]"
    unfolding u(2) using px x(3) s(5) by simp
  moreover have "myproc u = None" "mlfq_ticks u = mlfq_ticks s + 1" "\<not> forkret_first u"
    unfolding u(2) using i s(6) by (simp_all add: myproc_def mycpu_def)
  ultimately show ?thesis by blast
qed

lemma user_round_eq:
  fixes s :: "'z kernel_scheme"
  defines "t \<equiv> boost_check (set_mycpu (intr_on (mycpu s)) s)"
  assumes s: "sched_inv s" "myproc s = None" "cpu_bound s" and sel: "select_proc (procs t) = Some i"
  shows "\<exists>u. user_round pc s = Ok (Some i) u \<and> sched_inv u \<and> myproc u = None \<and> cpu_bound u
    \<and> procs u = (procs t)[i := run_slice (procs t ! i)] \<and> mlfq_ticks u = mlfq_ticks t + 1"
proof -
  note sc = scheduler_cases [OF s(1,2), folded t_def]
  let ?b = "ctx_intena (p_context (procs t ! i))"
  let ?v = "upd_proc i resumed (set_mycpu ((mycpu s)\<lparr>c_proc := Some i, c_noff := 0,
          c_intena := ?b, c_sie := ?b\<rparr>) t)"
  have v: "scheduler s = Ok (Some i) ?v" using sc(4) [OF sel] .
  have h: "hart t < length (cpus t)" using sched_invD(1,3) [OF sc(1)] by simp
  have i: "i < length (procs t)" "p_state (procs t ! i) = RUNNABLE" using select_proc_lt [OF sel] by simp_all
  have cb: "\<forall>p \<in> set (procs t). computing p" "\<not> forkret_first t"
    using s(3) computing_boost_check [of "set_mycpu (intr_on (mycpu s)) s"] by (simp_all add: cpu_bound_def t_def)
  have ci: "computing (procs t ! i)" using cb(1) i(1) by simp
  then have kl: "p_killed (procs t ! i) = 0" using i(2) by (simp add: computing_def)
  have my: "mycpu ?v = (mycpu s)\<lparr>c_proc := Some i, c_noff := 0, c_intena := ?b, c_sie := ?b\<rparr>"
    "myproc ?v = Some i" using h by (simp_all add: myproc_def)
  have inv: "sched_inv ?v" using scheduler_inv [OF s(1,2) v] .
  obtain m where m: "to_user i ?v = Ok () ((set_mycpu (intr_off (mycpu ?v)) ?v)\<lparr>mem := m\<rparr>)"
    using to_user_eq [OF my(2)] h cb(2) by auto
  define w where "w = (set_mycpu (intr_off (mycpu ?v)) ?v)\<lparr>mem := m\<rparr>"
  have w: "sched_inv w" unfolding w_def
    by (rule inv_frame [OF inv_set_mycpu [OF inv, of "intr_off (mycpu ?v)"]]) (simp_all add: intr_defs my myproc_def h)
  have wm: "myproc w = Some i" "\<not> c_sie (mycpu w)" "procs w = (procs t)[i := resumed (procs t ! i)]"
    "mlfq_ticks w = mlfq_ticks t" "\<not> forkret_first w"
    using h cb(2) by (simp_all add: w_def myproc_def mycpu_def intr_defs)
  have "computing (resumed (procs t ! i))" by (simp add: computing_def resumed_def)
  then have wc: "\<forall>p \<in> set (procs w). computing p" unfolding wm(3) by (rule computing_update [OF cb(1)])
  have wk: "p_killed (procs w ! i) = 0" using kl i(1) by (simp add: wm(3))
  obtain u where u: "usertrap [] False TIMER_CAUSE pc 0 0 w = Ok () u" "sched_inv u" "myproc u = None" "\<not> forkret_first u"
    "mlfq_ticks u = mlfq_ticks w + 1"
    "procs u = (procs w)[i := (yield_demote (tick_proc (procs w ! i)))\<lparr>p_state := RUNNABLE, p_context := InSched False AfterYield\<rparr>]"
    using timer_from_user [OF w wm(1) wc wk wm(2,5)] by blast
  have pu: "procs u = (procs t)[i := run_slice (procs t ! i)]" using i(1) by (simp add: u(6) wm(3) run_slice_def)
  then have "\<forall>p \<in> set (procs u). computing p"
    using computing_update [OF cb(1) computing_run_slice [OF kl]] by simp
  then have "cpu_bound u" using u(4) by (simp add: cpu_bound_def)
  moreover have "user_round pc s = Ok (Some i) u"
    using v m u(1) by (simp add: user_round_def w_def)
  ultimately show ?thesis using u(2,3,5) wm(4) pu by auto
qed

lemma user_rounds_append:
  "user_rounds (ps @ qs) s = bnd (user_rounds ps s) (\<lambda>rs s. bnd (user_rounds qs s) (\<lambda>rs' s. Ok (rs @ rs') s))"
proof (induction ps arbitrary: s)
  case Nil
  show ?case by (cases "user_rounds qs s") simp_all
next
  case (Cons p ps)
  then show ?case by (cases "user_round p s") (simp_all add: bnd_assoc)
qed

lemma boost_not_due: "mlfq_ticks s < BOOST_INTERVAL \<Longrightarrow> boost_check (set_mycpu c s) = set_mycpu c s"
  by (simp add: boost_check_def)

lemma rounds_queue0:
  fixes s :: "'z kernel_scheme"
  assumes "sched_inv s" "myproc s = None" "cpu_bound s"
    and "queue 0 (procs (boost_check (set_mycpu (intr_on (mycpu s)) s))) = js"
    and "unat (mlfq_ticks (boost_check (set_mycpu (intr_on (mycpu s)) s))) + length js \<le> 100"
    and "length pcs = length js"
  shows "\<exists>u. user_rounds pcs s = Ok (map Some js) u"
  using assms
proof (induction js arbitrary: s pcs)
  case Nil
  then show ?case by simp
next
  case (Cons i js)
  obtain pc pcs' where pcs: "pcs = pc # pcs'" "length pcs' = length js" using Cons.prems(6) by (cases pcs) auto
  define t where "t = boost_check (set_mycpu (intr_on (mycpu s)) s)"
  note q = select_queue0 [OF Cons.prems(4), folded t_def]
  obtain u where u: "user_round pc s = Ok (Some i) u" "sched_inv u" "myproc u = None" "cpu_bound u"
    "procs u = (procs t)[i := run_slice (procs t ! i)]" "mlfq_ticks u = mlfq_ticks t + 1"
    using user_round_eq [OF Cons.prems(1-3), folded t_def, OF q(1)] by blast
  have "sched_inv t" using scheduler_cases(1) [OF Cons.prems(1,2)] by (simp add: t_def)
  then have "mlfq_ok (procs t ! i)"
    using sched_invD(2,5) [of t] q(2) by (simp add: entry_ok_def)
  then have "\<not> runnable_at 0 (run_slice (procs t ! i))"
    using q(3) run_slice_leaves by (auto simp: runnable_at_def)
  from q(4) [OF this] have js: "queue 0 (procs u) = js" by (simp add: u(5))
  have m: "unat (mlfq_ticks t) + length js + 1 \<le> 100" using Cons.prems(5) by (simp add: t_def)
  then have un: "unat (mlfq_ticks u) = unat (mlfq_ticks t) + 1"
    by (simp add: u(6) unat_word_ariths(1))
  show ?case
  proof (cases "js = []")
    case True
    with u(1) pcs show ?thesis by simp
  next
    case False
    from False m un have "mlfq_ticks u < BOOST_INTERVAL"
      by (cases js) (simp_all add: kconst word_less_nat_alt)
    then have "\<exists>v. user_rounds pcs' u = Ok (map Some js) v"
      by (intro Cons.IH [OF u(2-4)]) (use js un m pcs in \<open>simp_all add: boost_not_due\<close>)
    with u(1) pcs(1) show ?thesis by auto
  qed
qed

lemma rounds_lowest:
  fixes s :: "'z kernel_scheme"
  assumes "sched_inv s" "myproc s = None" "cpu_bound s" and "select_proc (procs s) = Some i"
    and "p_priority (procs s ! i) = 2" and "unat (mlfq_ticks s) + length pcs \<le> 100"
  shows "\<exists>u. user_rounds pcs s = Ok (replicate (length pcs) (Some i)) u
    \<and> (\<forall>j. j \<noteq> i \<longrightarrow> procs u ! j = procs s ! j)"
  using assms
proof (induction pcs arbitrary: s)
  case Nil
  then show ?case by simp
next
  case (Cons pc pcs)
  have "mlfq_ticks s < BOOST_INTERVAL"
    using Cons.prems(6) by (simp add: kconst word_less_nat_alt)
  note t = boost_not_due [OF this]
  obtain u where u: "user_round pc s = Ok (Some i) u" "sched_inv u" "myproc u = None" "cpu_bound u"
    "procs u = (procs s)[i := run_slice (procs s ! i)]" "mlfq_ticks u = mlfq_ticks s + 1"
    using user_round_eq [OF Cons.prems(1-3), of i pc] Cons.prems(4) by (auto simp: t)
  have i: "i < length (procs s)" using select_proc_lt [OF Cons.prems(4)] by simp
  have "select_proc (procs u) = Some i"
    unfolding u(5) using Cons.prems(4,5)
    by (intro select_again) (simp_all add: demote_lowest tick_proc_def)
  moreover have "p_priority (procs u ! i) = 2"
    using i Cons.prems(5) by (simp add: u(5) demote_lowest tick_proc_def)
  moreover have "unat (mlfq_ticks u) + length pcs \<le> 100"
    using Cons.prems(6) by (simp add: u(6) unat_word_ariths(1))
  ultimately obtain v where "user_rounds pcs u = Ok (replicate (length pcs) (Some i)) v"
    "\<forall>j. j \<noteq> i \<longrightarrow> procs v ! j = procs u ! j"
    using Cons.IH [OF u(2-4)] by blast
  then show ?case using u(1) by (simp add: u(5))
qed

section \<open>A process alone\<close>

lemma runnables_boost: "runnables (map boost_proc ps) = runnables ps"
  unfolding runnables_def by (rule filter_cong) (auto simp: boost_proc_def)

lemma runnables_boost_check: "runnables (procs (boost_check s)) = runnables (procs s)"
  by (simp add: boost_check_def priority_boost_def runnables_boost)

lemma runnables_update:
  "p_state q = p_state (ps ! i) \<Longrightarrow> runnables (ps[i := q]) = runnables ps"
  unfolding runnables_def by (rule filter_cong)
    (simp, rename_tac x, case_tac "x = i", simp_all)

lemma runnables_single:
  assumes "runnables ps = [i]"
  shows "i < length ps" "p_state (ps ! i) = RUNNABLE"
    and "j < length ps \<Longrightarrow> p_state (ps ! j) = RUNNABLE \<Longrightarrow> j = i"
proof -
  have r: "j \<in> set (runnables ps) \<longleftrightarrow> j < length ps \<and> p_state (ps ! j) = RUNNABLE" for j
    by (simp add: runnables_def)
  show "i < length ps" "p_state (ps ! i) = RUNNABLE" using r [of i] assms by simp_all
  show "j < length ps \<Longrightarrow> p_state (ps ! j) = RUNNABLE \<Longrightarrow> j = i" using r [of j] assms by simp
qed

lemma select_single:
  assumes "runnables ps = [i]" "p_priority (ps ! i) \<in> {0, 1, 2}"
  shows "select_proc ps = Some i"
proof -
  have "p_priority (ps ! i) < p_priority (ps ! j) \<or> p_priority (ps ! i) = p_priority (ps ! j) \<and> i \<le> j"
    if "j < length ps" "p_state (ps ! j) = RUNNABLE" for j
    using runnables_single(3) [OF assms(1) that] by simp
  moreover have "0 \<le> p_priority (ps ! i)" "p_priority (ps ! i) < 0 + int (nat NMLFQ)"
    using assms(2) by (auto simp: kconst)
  ultimately show ?thesis using runnables_single(1,2) [OF assms(1)]
    unfolding select_proc_def select_from_Some by blast
qed

lemma round_single:
  fixes s :: "'z kernel_scheme"
  assumes s: "sched_inv s" "myproc s = None" "cpu_bound s" and r: "runnables (procs s) = [i]"
  shows "\<exists>u. user_round pc s = Ok (Some i) u \<and> sched_inv u \<and> myproc u = None \<and> cpu_bound u
    \<and> runnables (procs u) = [i]
    \<and> procs u ! i = run_slice (if BOOST_INTERVAL \<le> mlfq_ticks s then boost_proc (procs s ! i) else procs s ! i)
    \<and> mlfq_ticks u = (if BOOST_INTERVAL \<le> mlfq_ticks s then 1 else mlfq_ticks s + 1)"
proof -
  define t where "t = boost_check (set_mycpu (intr_on (mycpu s)) s)"
  have tr: "runnables (procs t) = [i]" unfolding t_def runnables_boost_check using r by simp
  note i = runnables_single(1,2) [OF tr]
  have ti: "sched_inv t" using scheduler_cases(1) [OF s(1,2)] by (simp add: t_def)
  then have "mlfq_ok (procs t ! i)" using sched_invD(2,5) [of t] i(1) by (simp add: entry_ok_def)
  then have "p_priority (procs t ! i) \<in> {0, 1, 2}" by (simp add: mlfq_ok_def kconst) linarith
  note sel = select_single [OF tr this]
  obtain u where u: "user_round pc s = Ok (Some i) u" "sched_inv u" "myproc u = None" "cpu_bound u"
    "procs u = (procs t)[i := run_slice (procs t ! i)]" "mlfq_ticks u = mlfq_ticks t + 1"
    using user_round_eq [OF s, folded t_def, OF sel] by blast
  have "runnables (procs u) = [i]" unfolding u(5) using i(2) tr by (subst runnables_update) simp_all
  moreover have "procs t ! i = (if BOOST_INTERVAL \<le> mlfq_ticks s then boost_proc (procs s ! i) else procs s ! i)"
    "mlfq_ticks t = (if BOOST_INTERVAL \<le> mlfq_ticks s then 0 else mlfq_ticks s)"
    using i(1) by (auto simp: t_def boost_check_def priority_boost_def)
  ultimately show ?thesis using u i(1) by auto
qed

text \<open>Where a process that computes alone stands after the \<open>m\<close>-th tick of a boost interval.\<close>

definition at_tick :: "nat \<Rightarrow> proc \<Rightarrow> bool" where
  "at_tick m p \<longleftrightarrow> p_priority p = (if m < 3 then 1 else 2)
     \<and> p_ticks_used p = (if m < 3 then int m - 1 else (int m - 3) mod 4)"

lemma at_tick_first: "p_state p = RUNNABLE \<Longrightarrow> at_tick 1 (run_slice (boost_proc p))"
  by (simp add: at_tick_def boost_proc_def tick_level(1))

lemma at_tick_next:
  assumes "at_tick m p" "1 \<le> m"
  shows "at_tick (Suc m) (run_slice p)"
proof -
  consider "m = 1" | "m = 2" | "3 \<le> m" using assms(2) by linarith
  then show ?thesis
  proof cases
    case 3
    then have p: "p_priority p = 2" "p_ticks_used p = (int m - 3) mod 4" using assms(1) by (simp_all add: at_tick_def)
    moreover have "((int m - 3) mod 4 + 1) mod 4 = (int (Suc m) - 3) mod 4" by (simp add: mod_simps)
    ultimately show ?thesis using 3 tick_level(4) [OF p(1)] by (simp add: at_tick_def)
  qed (use assms in \<open>simp_all add: at_tick_def tick_level\<close>)
qed

lemma rounds_single:
  fixes s :: "'z kernel_scheme"
  assumes s: "sched_inv s" "myproc s = None" "cpu_bound s" "runnables (procs s) = [i]" "BOOST_INTERVAL \<le> mlfq_ticks s"
    and "pcs \<noteq> []"
  shows "\<exists>u. user_rounds pcs s = Ok (replicate (length pcs) (Some i)) u
    \<and> sched_inv u \<and> myproc u = None \<and> cpu_bound u \<and> runnables (procs u) = [i]
    \<and> mlfq_ticks u = of_nat ((length pcs - 1) mod 100 + 1)
    \<and> at_tick ((length pcs - 1) mod 100 + 1) (procs u ! i)"
  using assms(6)
proof (induction pcs rule: rev_nonempty_induct)
  case (single pc)
  obtain u where "user_round pc s = Ok (Some i) u" "sched_inv u" "myproc u = None" "cpu_bound u"
    "runnables (procs u) = [i]" "procs u ! i = run_slice (boost_proc (procs s ! i))" "mlfq_ticks u = 1"
    using round_single [OF s(1-4), of pc] unfolding if_P [OF s(5)] by (elim exE conjE) (rule that)
  then show ?case using at_tick_first [OF runnables_single(2) [OF s(4)]] by simp
next
  case (snoc pc pcs)
  define m where "m = (length pcs - 1) mod 100 + 1"
  from snoc obtain u where u: "user_rounds pcs s = Ok (replicate (length pcs) (Some i)) u"
    "sched_inv u" "myproc u = None" "cpu_bound u" "runnables (procs u) = [i]"
    "mlfq_ticks u = of_nat m" "at_tick m (procs u ! i)" unfolding m_def by blast
  have m: "1 \<le> m" "m \<le> 100" by (simp_all add: m_def Suc_le_eq)
  have k: "(length (pcs @ [pc]) - 1) mod 100 + 1 = (if m = 100 then 1 else Suc m)"
    using snoc.hyps unfolding m_def by (cases pcs) (auto simp: mod_Suc)
  have due: "BOOST_INTERVAL \<le> mlfq_ticks u \<longleftrightarrow> m = 100"
    using m(2) by (simp add: u(6) kconst word_le_nat_alt unat_of_nat)
  obtain v where v: "user_round pc u = Ok (Some i) v" "sched_inv v" "myproc v = None" "cpu_bound v"
    "runnables (procs v) = [i]"
    "procs v ! i = run_slice (if m = 100 then boost_proc (procs u ! i) else procs u ! i)"
    "mlfq_ticks v = (if m = 100 then 1 else mlfq_ticks u + 1)"
    using round_single [OF u(2-5), of pc] unfolding due by (elim exE conjE) (rule that)
  have "at_tick (if m = 100 then 1 else Suc m) (procs v ! i)"
    using at_tick_first [OF runnables_single(2) [OF u(5)]] at_tick_next [OF u(7) m(1)] by (simp add: v(6))
  moreover have "mlfq_ticks v = of_nat (if m = 100 then 1 else Suc m)" by (simp add: v(7) u(6))
  moreover have "user_rounds (pcs @ [pc]) s = Ok (replicate (length (pcs @ [pc])) (Some i)) v"
    using u(1) v(1) by (simp add: user_rounds_append replicate_append_same)
  ultimately show ?case unfolding k using v(2-5) by blast
qed

section \<open>Examples\<close>

lemma kernel_of_simps [simp]:
  "hart (kernel_of s) = hart s" "cpus (kernel_of s) = cpus s" "procs (kernel_of s) = procs s"
  "mlfq_ticks (kernel_of s) = mlfq_ticks s" "mycpu (kernel_of s) = mycpu s" "myproc (kernel_of s) = myproc s"
  "forkret_first (kernel_of s) = False"
  by (simp_all add: kernel_of_def mycpu_def myproc_def)

lemma inv_kernel_of: "sched_inv s \<Longrightarrow> sched_inv (kernel_of s)"
  by (simp add: sched_inv_def table_ok_def cpus_ok_def)

lemma two_procs_entry:
  "i < NPROC \<Longrightarrow> procs two_procs ! i =
     (if i = 1 \<or> i = 2 then (procs boot ! i)\<lparr>p_state := RUNNABLE, p_context := AtForkret, p_priority := 2\<rparr>
      else procs boot ! i)"
  by (auto simp: two_procs_def boot_simps nth_list_update)

lemma two_procs_simps [simp]:
  "hart two_procs = 0" "length (procs two_procs) = NPROC" "mlfq_ticks two_procs = 0" "myproc two_procs = None"
  by (simp_all add: two_procs_def boot_simps myproc_def mycpu_def kconst)

lemma two_procs_computing: "p \<in> set (procs two_procs) \<Longrightarrow> computing p"
  by (clarsimp simp: in_set_conv_nth two_procs_entry) (simp add: boot_simps computing_def zero_proc_def)

definition due_procs :: kernel where "due_procs = (kernel_of two_procs)\<lparr>mlfq_ticks := 100\<rparr>"

definition due_proc :: kernel where "due_proc = upd_proc 2 (\<lambda>p. p\<lparr>p_state := UNUSED\<rparr>) due_procs"

lemma due_procs:
  "sched_inv due_procs" "myproc due_procs = None" "cpu_bound due_procs" "BOOST_INTERVAL \<le> mlfq_ticks due_procs"
  "runnables (procs due_procs) = [1, 2]"
proof -
  show "sched_inv due_procs" unfolding due_procs_def
    by (rule inv_frame [OF inv_kernel_of [OF two_procs_inv]]) simp_all
  show "myproc due_procs = None" "BOOST_INTERVAL \<le> mlfq_ticks due_procs" "cpu_bound due_procs"
    using two_procs_computing by (simp_all add: due_procs_def kconst cpu_bound_def)
      (simp_all add: kernel_of_def myproc_def mycpu_def two_procs_def boot_simps kconst)
  show "runnables (procs due_procs) = [1, 2]"
    by (simp add: runnables_def due_procs_def two_procs_entry boot_simps kconst zero_proc_def
        upt_rec_numeral upt_rec)
qed

lemma due_proc:
  "sched_inv due_proc" "myproc due_proc = None" "cpu_bound due_proc" "BOOST_INTERVAL \<le> mlfq_ticks due_proc"
  "runnables (procs due_proc) = [1]"
proof -
  have e: "entry_ok ((procs due_procs ! 2)\<lparr>p_state := UNUSED\<rparr>)"
    using sched_invD(5) [OF due_procs(1), of 2] by (simp add: kconst entry_ok_def mlfq_ok_def)
  have p2: "p_state (procs due_procs ! 2) = RUNNABLE" by (simp add: due_procs_def two_procs_entry kconst)
  show "sched_inv due_proc" unfolding due_proc_def by (rule inv_upd_proc [OF due_procs(1)]) (simp_all add: e p2)
  have "computing ((procs due_procs ! 2)\<lparr>p_state := UNUSED\<rparr>)" by (simp add: computing_def)
  then show "cpu_bound due_proc" using due_procs(3) unfolding due_proc_def cpu_bound_def
    by (simp add: computing_update upd_proc_def) (blast intro: computing_update [rule_format])
  show "myproc due_proc = None" "BOOST_INTERVAL \<le> mlfq_ticks due_proc"
    using due_procs(2,4) by (simp_all add: due_proc_def myproc_def mycpu_def)
  show "runnables (procs due_proc) = [1]"
    by (simp add: runnables_def due_proc_def due_procs_def two_procs_entry nth_list_update boot_simps kconst zero_proc_def
        upt_rec_numeral upt_rec)
qed

section \<open>Properties\<close>

text \<open>
  C3. A timer interrupt on the whole trap path. From user mode, with process \<open>i\<close> running and
  not killed, \<open>usertrap\<close> counts one tick for it, demotes it by at most one level and only when
  the slice of its level is used up, makes it RUNNABLE, leaves the hart idle with the
  interrupt flag as before, counts one tick towards the next boost, and changes no other
  process, except that hart 0 counts the tick of the clock and wakes the processes that sleep
  on it; a killed process exits with status -1 instead. From the kernel, where a killed
  process is not stopped, \<open>kerneltrap\<close> does the same, and on an idle hart it only runs the
  clock.
\<close>

theorem timer_interrupt:
  assumes "sched_inv s" "myproc s = Some i"
  shows "(p_killed (procs s ! i) = 0 \<longrightarrow>
            (\<exists>t. usertrap junk False TIMER_CAUSE pc stval irq s = Ok () t \<and> ticked s t i))
     \<and> (p_killed (procs s ! i) \<noteq> 0 \<longrightarrow>
            usertrap junk False TIMER_CAUSE pc stval irq s = exit (-1) (clock_tick (set_tf i tf_epc pc s)))
     \<and> (\<not> c_sie (mycpu s) \<longrightarrow>
            (\<exists>t. kerneltrap True TIMER_CAUSE irq s = Ok () t \<and> ticked s t i))
     \<and> (myproc r = None \<and> \<not> c_sie (mycpu r) \<longrightarrow> kerneltrap True TIMER_CAUSE irq r = Ok () (clock_tick r))"
proof -
  let ?t = "set_tf i tf_epc pc s"
  have k: "killed i (clock_tick ?t) = p_killed (procs s ! i)"
    using clock_tick_running [OF inv_set_tf [OF assms(1)], of i tf_epc pc i] assms(2) by (simp add: killed_def)
  have u: "\<exists>t. timer_yield (clock_tick ?t) = Ok () t \<and> ticked s t i"
    using timer_ticked [OF inv_set_tf [OF assms(1)], of i tf_epc pc i] assms(2)
    by (simp add: ticked_def cong: if_cong)
  have "p_state (procs (clock_tick s) ! i) = RUNNING"
    using clock_tick_running [OF assms] sched_invD(6) [OF assms(1)] assms(2) by simp
  then show ?thesis
    using u timer_ticked [OF assms] usertrap_timer [OF assms(2)] k assms(2) by (simp add: kerneltrap_timer Let_def)
qed

theorem timer_interrupt_witness:
  "(\<exists>t. usertrap [] False TIMER_CAUSE 0 0 0 (kernel_of one_running) = Ok () t \<and> ticked (kernel_of one_running) t 1)
   \<and> (\<exists>t. kerneltrap True TIMER_CAUSE 0 (kernel_of one_running) = Ok () t \<and> p_ticks_used (procs t ! 1) = 1)
   \<and> kerneltrap True TIMER_CAUSE 0 (kernel_of two_procs) = Ok () (clock_tick (kernel_of two_procs))"
proof -
  have inv: "sched_inv (kernel_of one_running)" "myproc (kernel_of one_running) = Some 1"
    using one_running(1,2) by (simp_all add: inv_kernel_of)
  have e: "p_killed (procs (kernel_of one_running) ! 1) = 0" "p_ticks_used (procs (kernel_of one_running) ! 1) = 0"
    "p_priority (procs (kernel_of one_running) ! 1) = 2"
    "\<not> c_sie (mycpu (kernel_of one_running))" "\<not> c_sie (mycpu (kernel_of two_procs))"
    using one_running(3,4) by (simp_all add: boot_simps kconst zero_proc_def mycpu_def) (simp add: two_procs_def boot_simps kconst)
  note ti = timer_interrupt [OF inv]
  have "\<exists>t. usertrap [] False TIMER_CAUSE 0 0 0 (kernel_of one_running) = Ok () t \<and> ticked (kernel_of one_running) t 1"
    using ti e(1) by blast
  moreover obtain t where "kerneltrap True TIMER_CAUSE 0 (kernel_of one_running) = Ok () t" "ticked (kernel_of one_running) t 1"
    using ti e(4) by blast
  moreover from this(2) have "p_ticks_used (procs t ! 1) = 1"
    using e(2,3) by (simp add: ticked_def get_time_slice_def kconst)
  moreover have "kerneltrap True TIMER_CAUSE 0 (kernel_of two_procs) = Ok () (clock_tick (kernel_of two_procs))"
    using ti [where r = "kernel_of two_procs"] e(5) two_procs_simps(4) by simp
  ultimately show ?thesis by blast
qed

text \<open>
  C2. Starvation freedom of the boost, for processes that compute on one hart: when a boost is
  due, the following rounds of the hart, each a dispatch, a return to user space and the timer
  interrupt at the end of the tick, dispatch every process that was runnable, each exactly
  once and in table order, before any process runs a second time; no second boost intervenes.
\<close>

theorem boost_dispatches_all:
  assumes "sched_inv s" "myproc s = None" "cpu_bound s" "BOOST_INTERVAL \<le> mlfq_ticks s"
    and "length pcs = length (runnables (procs s))"
  shows "\<exists>u. user_rounds pcs s = Ok (map Some (runnables (procs s))) u"
proof -
  have "length (runnables (procs s)) \<le> 64"
    using length_runnables [of "procs s"] sched_invD(2) [OF assms(1)] by (simp add: kconst)
  with assms show ?thesis
    by (intro rounds_queue0) (simp_all add: boost_check_def priority_boost_def queue_boost)
qed

theorem boost_dispatches_all_witness:
  "\<exists>u. user_rounds [0, 0] due_procs = Ok [Some 1, Some 2] u"
  using boost_dispatches_all [OF due_procs(1-4), of "[0, 0]"] unfolding due_procs(5) by simp

text \<open>
  C6. Within the lowest queue the dispatch order is not round robin, for processes that compute
  on one hart: the runnable process with the least table index is dispatched again in every
  round until the next boost is due, and no other process runs or changes.
\<close>

theorem lowest_queue_monopoly:
  assumes "sched_inv s" "myproc s = None" "cpu_bound s" "select_proc (procs s) = Some i"
    and "p_priority (procs s ! i) = 2" and "unat (mlfq_ticks s) + length pcs \<le> 100"
  shows "\<exists>u. user_rounds pcs s = Ok (replicate (length pcs) (Some i)) u
    \<and> (\<forall>j. j \<noteq> i \<longrightarrow> procs u ! j = procs s ! j)"
  using assms by (rule rounds_lowest)

theorem lowest_queue_monopoly_witness:
  "\<exists>u. user_rounds (replicate 100 0) (kernel_of two_procs) = Ok (replicate 100 (Some 1)) u
     \<and> procs u ! 2 = procs two_procs ! 2"
proof -
  have "select_proc (procs (kernel_of two_procs)) = Some 1"
    by (auto simp: select_proc_def select_from_Some two_procs_entry boot_simps zero_proc_def kconst)
  moreover have "p_priority (procs (kernel_of two_procs) ! 1) = 2" by (simp add: two_procs_entry kconst)
  moreover have "cpu_bound (kernel_of two_procs)" using two_procs_computing by (simp add: cpu_bound_def)
  ultimately have "\<exists>u. user_rounds (replicate 100 0) (kernel_of two_procs) = Ok (replicate (length (replicate 100 (0 :: u64))) (Some 1)) u
     \<and> (\<forall>j. j \<noteq> 1 \<longrightarrow> procs u ! j = procs (kernel_of two_procs) ! j)"
    by (intro lowest_queue_monopoly inv_kernel_of two_procs_inv) simp_all
  then show ?thesis by auto
qed

text \<open>
  C7. The demotion schedule of a process that computes alone on one hart, from a boost on: it
  is dispatched in every round, and after \<open>n\<close> rounds, \<open>m\<close> ticks into the current boost
  interval of 100, it is in queue 1 for the first two ticks and in queue 2 from the third
  on, with the ticks it has used there; the tick after the interval starts over with a boost.
\<close>

theorem demotion_schedule:
  assumes "sched_inv s" "myproc s = None" "cpu_bound s" "runnables (procs s) = [i]"
    and "BOOST_INTERVAL \<le> mlfq_ticks s" "pcs \<noteq> []"
  shows "let m = (length pcs - 1) mod 100 + 1 in
    \<exists>u. user_rounds pcs s = Ok (replicate (length pcs) (Some i)) u
    \<and> p_priority (procs u ! i) = (if m < 3 then 1 else 2)
    \<and> p_ticks_used (procs u ! i) = (if m < 3 then int m - 1 else (int m - 3) mod 4)
    \<and> mlfq_ticks u = of_nat m"
  using rounds_single [OF assms(1-6)] unfolding at_tick_def Let_def by blast

theorem demotion_schedule_witness:
  "\<exists>u. user_rounds (replicate 101 0) due_proc = Ok (replicate 101 (Some 1)) u
     \<and> p_priority (procs u ! 1) = 1 \<and> p_ticks_used (procs u ! 1) = 0"
  using demotion_schedule [OF due_proc(1-3) due_proc(5,4), of "replicate 101 0"] by (simp add: Let_def) blast

end
