(* ===== verification/Boot.thy ===== *)
theory Boot
  imports Trap
begin

text \<open>
  Building the kernel page table: \<open>kvmmake\<close> and \<open>kvminit\<close> of \<^verbatim>\<open>kernel/vm.c\<close> and
  \<open>proc_mapstacks\<close> of \<^verbatim>\<open>kernel/proc.c\<close>. \<open>etext\<close> is the end of the kernel code, which the
  linker script sets.
\<close>

definition UART0 :: u64 where [kconst]: "UART0 = 0x10000000"
definition VIRTIO0 :: u64 where [kconst]: "VIRTIO0 = 0x10001000"
definition PLIC :: u64 where [kconst]: "PLIC = 0x0c000000"

fun proc_mapstacks_loop :: "u64 \<Rightarrow> nat \<Rightarrow> nat \<Rightarrow> 'z pmem_scheme \<Rightarrow> (unit, 'z pmem_scheme) res" where
  "proc_mapstacks_loop kpgtbl p 0 s = Ok () s"
| "proc_mapstacks_loop kpgtbl p (Suc k) s =
     bnd (kalloc s) (\<lambda>pa s.
       if pa = 0 then Panic ''kalloc''
       else bnd (kvmmap kpgtbl (KSTACK p) pa PGSIZE (PTE_R OR PTE_W) s) (\<lambda>_ s.
         proc_mapstacks_loop kpgtbl (Suc p) k s))"

definition proc_mapstacks :: "u64 \<Rightarrow> 'z pmem_scheme \<Rightarrow> (unit, 'z pmem_scheme) res" where
  "proc_mapstacks kpgtbl s = proc_mapstacks_loop kpgtbl 0 NPROC s"

definition kvmmake :: "u64 \<Rightarrow> 'z kernel_scheme \<Rightarrow> (u64, 'z kernel_scheme) res" where
  "kvmmake etext s =
     bnd (kalloc s) (\<lambda>kpgtbl s.
     let s = s\<lparr>mem := memset (mem s) kpgtbl 0 4096\<rparr> in
     bnd (kvmmap kpgtbl UART0 UART0 PGSIZE (PTE_R OR PTE_W) s) (\<lambda>_ s.
     bnd (kvmmap kpgtbl VIRTIO0 VIRTIO0 PGSIZE (PTE_R OR PTE_W) s) (\<lambda>_ s.
     bnd (kvmmap kpgtbl PLIC PLIC 0x400000 (PTE_R OR PTE_W) s) (\<lambda>_ s.
     bnd (kvmmap kpgtbl KERNBASE KERNBASE (etext - KERNBASE) (PTE_R OR PTE_X) s) (\<lambda>_ s.
     bnd (kvmmap kpgtbl etext etext (PHYSTOP - etext) (PTE_R OR PTE_W) s) (\<lambda>_ s.
     bnd (kvmmap kpgtbl TRAMPOLINE (trampoline s) PGSIZE (PTE_R OR PTE_X) s) (\<lambda>_ s.
     bnd (proc_mapstacks kpgtbl s) (\<lambda>_ s.
     Ok kpgtbl s))))))))"

definition kvminit :: "u64 \<Rightarrow> 'z kernel_scheme \<Rightarrow> (unit, 'z kernel_scheme) res" where
  "kvminit etext s = bnd (kvmmake etext s) (\<lambda>kpgtbl s. Ok () (s\<lparr>kernel_pagetable := kpgtbl\<rparr>))"

end
