(* ===== verification/Spec2Isabelle.thy ===== *)
theory Spec2Isabelle
  imports Kstring Usercopy Logtx Mlfq_User Boot
begin

text \<open>Root theory.\<close>

end
